(* ===== verification/Prelude.thy ===== *)
theory Prelude
  imports Main "HOL-Library.Word"
begin

unbundle bit_operations_syntax

text \<open>
  Shared vocabulary of the development: names for Rust's fixed-width integers, the casts between
  them, the error kinds of \<^verbatim>\<open>std::io\<close> that the sources use, and the generic lemmas on words and
  lists that the component theories rely on.

  Conventions used by every component.
  \<^item> \<^verbatim>\<open>u8\<close>, \<^verbatim>\<open>u16\<close>, \<^verbatim>\<open>u32\<close>, \<^verbatim>\<open>u64\<close> are words of that width, so \<open>+\<close> and \<open>-\<close> wrap around: this is what
    the \<^verbatim>\<open>wrapping_*\<close> methods do in every build and what the plain operators do in a release build.
    Where a debug build would stop at an overflow, the development proves that none happens.
  \<^item> \<^verbatim>\<open>i32\<close> and \<^verbatim>\<open>i64\<close> are values of type \<^typ>\<open>int\<close>, with the wrap-around written out (\<open>as_i32\<close>, \<open>as_i64\<close>).
  \<^item> \<^verbatim>\<open>usize\<close> (64 bits) is \<^typ>\<open>nat\<close>. Byte counts and indices are added exactly; the only
    subtractions that could go below zero use \<open>usize_sub\<close>, which wraps at $2^{64}$.
  \<^item> A panic that exists in every build profile (an index out of range, \<^verbatim>\<open>clamp\<close> with its bounds
    crossed) is the value \<^const>\<open>None\<close> of an option-valued definition.
\<close>

type_synonym u8 = "8 word"
type_synonym u16 = "16 word"
type_synonym u32 = "32 word"
type_synonym u64 = "64 word"
type_synonym bytes = "u8 list"

named_theorems wire_simps \<open>accessors and setters of the wire format\<close>
named_theorems ring_simps \<open>slots of the circular buffer\<close>
named_theorems frame_simps \<open>what an engine operation leaves of the connection state\<close>

section \<open>Casts\<close>

definition as_i32 :: "int \<Rightarrow> int" where
  "as_i32 k = signed_take_bit 31 k"

definition as_i64 :: "int \<Rightarrow> int" where
  "as_i64 k = signed_take_bit 63 k"

definition usize_sub :: "nat \<Rightarrow> nat \<Rightarrow> nat" where
  "usize_sub a b = (if b \<le> a then a - b else a + 2 ^ 64 - b)"

definition u32_of_usize :: "nat \<Rightarrow> u32" where
  "u32_of_usize n = of_nat n"

text \<open>Rust's \<open>/\<close> on signed integers truncates towards zero.\<close>

definition rust_div :: "int \<Rightarrow> int \<Rightarrow> int" where
  "rust_div x y = (if (x < 0) = (y < 0) then \<bar>x\<bar> div \<bar>y\<bar> else - (\<bar>x\<bar> div \<bar>y\<bar>))"

lemma as_i32_id [simp]: "- (2 ^ 31) \<le> k \<Longrightarrow> k < 2 ^ 31 \<Longrightarrow> as_i32 k = k"
  unfolding as_i32_def by (rule signed_take_bit_int_eq_self) simp_all

lemma as_i64_id [simp]: "- (2 ^ 63) \<le> k \<Longrightarrow> k < 2 ^ 63 \<Longrightarrow> as_i64 k = k"
  unfolding as_i64_def by (rule signed_take_bit_int_eq_self) simp_all

lemma usize_sub_le [simp]: "b \<le> a \<Longrightarrow> usize_sub a b = a - b"
  by (simp add: usize_sub_def)

lemma abs_div_le: "\<bar>a\<bar> div \<bar>b\<bar> \<le> \<bar>a :: int\<bar>"
  by (metis abs_0 abs_ge_zero div_by_0 div_by_1 linorder_not_less zabs_less_one_iff zdiv_mono2)

lemma rust_div_abs_le: "\<bar>rust_div x y\<bar> \<le> \<bar>x\<bar>"
  using abs_div_le [of x y] pos_imp_zdiv_nonneg_iff [of "\<bar>y\<bar>" "\<bar>x\<bar>"]
  by (cases "y = 0") (simp_all add: rust_div_def)

section \<open>Word lemmas\<close>

lemma unat_ucast_up [simp]:
  fixes x :: "'a::len word"
  shows "LENGTH('a) \<le> LENGTH('b) \<Longrightarrow> unat (ucast x :: 'b::len word) = unat x"
  by (metis take_bit_nat_eq_self unsigned_ucast_eq unsigned_less order_less_le_trans one_le_numeral
      power_increasing)

lemma ucast_ucast_up [simp]:
  fixes x :: "'a::len word"
  shows "LENGTH('a) \<le> LENGTH('b) \<Longrightarrow> ucast (ucast x :: 'b::len word) = x"
  by (simp add: ucast_up_ucast_id is_up)

lemma unat_bound: "unat (x :: 'a::len word) < 2 ^ LENGTH('a)"
  by simp

lemma unat_word_uminus:
  fixes x :: "'a::len word"
  shows "x \<noteq> 0 \<Longrightarrow> unat (- x) = 2 ^ LENGTH('a) - unat x"
  using unat_sub_if' [of 0 x] by (simp add: unat_gt_0 not_le)

lemma xor_eq_0_iff:
  fixes x y :: "'a::len word"
  shows "x XOR y = 0 \<longleftrightarrow> x = y"
proof
  assume "x XOR y = 0"
  then have "(x XOR y) XOR y = y" by simp
  then show "x = y" by (simp add: xor.assoc)
qed simp

section \<open>Error kinds\<close>

text \<open>The kinds of \<^verbatim>\<open>std::io::ErrorKind\<close> that the sources name, and one for all the others.\<close>

datatype error_kind = NotConnected | ConnectionAborted | ConnectionReset | TimedOut
  | InvalidInput | AddrNotAvailable | WouldBlock | Interrupted | OtherError

end
