(* ===== verification/Util.thy ===== *)
theory Util
  imports Prelude
begin

unbundle bit_operations_syntax

text \<open>
  \<^verbatim>\<open>src/util.rs\<close>: the wrapping comparison of sequence numbers and timestamps, and the SplitMix64
  generator that feeds connection seeds and initial sequence numbers. The comparison is related to
  the distance between the two numbers on the circle; the generator is shown to have full period,
  which is what makes the seed search of a new connection stop.
\<close>

section \<open>Wrapping comparison\<close>

definition wrapping_compare_less :: "u32 \<Rightarrow> u32 \<Rightarrow> u32 \<Rightarrow> bool" where
  "wrapping_compare_less lhs rhs msk =
     (let dist_down = (lhs - rhs) AND msk;
          dist_up = (rhs - lhs) AND msk
      in dist_up < dist_down)"

section \<open>The SplitMix64 generator\<close>

datatype rng = Rng (rng_state: u64)

definition Rng_new :: "u64 \<Rightarrow> u64 \<Rightarrow> rng \<times> u64" where
  \<comment> \<open>the wall clock in nanoseconds and the process-wide counter; returns the new counter too\<close>
  "Rng_new nanos counter =
     (Rng (nanos XOR (counter * 0xbf58476d1ce4e5b9) XOR 0x2545f4914f6cdd1d),
      counter + 0x9e3779b97f4a7c15)"

definition rng_mix :: "u64 \<Rightarrow> u64" where
  "rng_mix z0 =
     (let z1 = (z0 XOR drop_bit 30 z0) * 0xbf58476d1ce4e5b9;
          z2 = (z1 XOR drop_bit 27 z1) * 0x94d049bb133111eb
      in z2 XOR drop_bit 31 z2)"

definition next_u64 :: "rng \<Rightarrow> u64 \<times> rng" where
  "next_u64 r = (let s = rng_state r + 0x9e3779b97f4a7c15 in (rng_mix s, Rng s))"

definition next_u32 :: "rng \<Rightarrow> u32 \<times> rng" where
  "next_u32 r = (let (v, r') = next_u64 r in (ucast v, r'))"

fun rng_iterate :: "nat \<Rightarrow> rng \<Rightarrow> rng" where
  "rng_iterate 0 r = r"
| "rng_iterate (Suc n) r = rng_iterate n (snd (next_u64 r))"

section \<open>Facts about the comparison\<close>

lemma wrapping_compare_less_irrefl [simp]: "\<not> wrapping_compare_less a a m"
  by (simp add: wrapping_compare_less_def)

lemma wrapping_compare_less_asym:
  "wrapping_compare_less a b m \<Longrightarrow> \<not> wrapping_compare_less b a m"
  by (simp add: wrapping_compare_less_def Let_def)

lemma take_bit_diff_ucast_u16:
  fixes a b :: u16
  shows "take_bit 16 (ucast a - ucast b :: u32) = ucast (a - b)"
  by transfer (simp add: take_bit_diff)

lemma ucast_u16_and_mask:
  fixes a b :: u16
  shows "(ucast a - ucast b :: u32) AND 0xffff = ucast (a - b)"
proof -
  have "(0xffff :: u32) = mask 16" by (simp add: mask_eq_exp_minus_1)
  then show ?thesis by (simp only: take_bit_eq_mask [symmetric] take_bit_diff_ucast_u16)
qed

lemma ucast_u16_less_iff: "(ucast (a :: u16) :: u32) < ucast b \<longleftrightarrow> a < b"
  by (simp add: word_less_nat_alt)

lemma minus_swap_less_iff:
  fixes a b :: "'a::len word"
  assumes "LENGTH('a) = Suc n"
  shows "b - a < a - b \<longleftrightarrow> 0 < unat (b - a) \<and> unat (b - a) < 2 ^ n"
proof (cases "a = b")
  case False
  then have "0 < unat (b - a)" by (simp add: unat_gt_0)
  moreover have "unat (a - b) = 2 ^ LENGTH('a) - unat (b - a)"
    using False unat_word_uminus [of "b - a"] by simp
  ultimately show ?thesis
    using assms unat_bound [of "b - a"] by (auto simp: word_less_nat_alt)
qed simp

text \<open>On 16-bit sequence numbers under \<^verbatim>\<open>ACK_NR_MASK\<close>: less means at most $2^{15}-1$ steps ahead.\<close>

lemma wrapping_compare_less_u16:
  fixes a b :: u16
  shows "wrapping_compare_less (ucast a) (ucast b) 0xffff
    \<longleftrightarrow> 0 < unat (b - a) \<and> unat (b - a) < 2 ^ 15"
  by (simp add: wrapping_compare_less_def ucast_u16_and_mask ucast_u16_less_iff
      minus_swap_less_iff [where n = 15])

lemma and_u32_max [simp]: "(x :: u32) AND 0xffffffff = x"
proof -
  have "(0xffffffff :: u32) = - 1" by simp
  then show ?thesis by (simp only: and.right_neutral)
qed

lemma wrapping_compare_less_u32:
  "wrapping_compare_less a b 0xffffffff \<longleftrightarrow> 0 < unat (b - a) \<and> unat (b - a) < 2 ^ 31"
  by (simp add: wrapping_compare_less_def minus_swap_less_iff [where n = 31])

section \<open>Facts about the generator\<close>

lemma drop_bit_fixpoint_0:
  fixes z :: "'a::len word"
  assumes "drop_bit k z = z" and "0 < k"
  shows "z = 0"
proof (rule ccontr)
  assume "z \<noteq> 0"
  then have "0 < unat z" by (simp add: unat_gt_0)
  moreover have "unat z = unat z div 2 ^ k"
    using unsigned_drop_bit_eq [of k z, where ?'a = nat] assms(1)
    by (simp add: drop_bit_eq_div take_bit_nat_eq_self)
  moreover have "(1::nat) < 2 ^ k" using assms(2) by (rule one_less_power [rotated]) simp
  ultimately show False by (metis div_less_dividend less_irrefl)
qed

lemma xorshift_inj:
  fixes x y :: "'a::len word"
  assumes "x XOR drop_bit k x = y XOR drop_bit k y" and "0 < k"
  shows "x = y"
proof -
  have "drop_bit k (x XOR y) = drop_bit k x XOR drop_bit k y" by simp
  also have "\<dots> = x XOR y"
    using assms(1) by (metis xor.assoc xor.commute xor.left_neutral xor_self_eq)
  finally have "x XOR y = 0" using assms(2) by (rule drop_bit_fixpoint_0)
  then show ?thesis by (simp only: xor_eq_0_iff)
qed

lemma mult_unit_inj:
  fixes c :: u64
  assumes "c * d = 1" and "x * c = y * c"
  shows "x = y"
proof -
  have "x * (c * d) = y * (c * d)" by (simp only: mult.assoc [symmetric] assms(2))
  then show ?thesis by (simp only: assms(1) mult_1_right)
qed

lemma rng_mix_inj: "inj rng_mix"
proof (rule injI)
  fix x y assume eq: "rng_mix x = rng_mix y"
  have u1: "(0xbf58476d1ce4e5b9 :: u64) * 0x96de1b173f119089 = 1"
    and u2: "(0x94d049bb133111eb :: u64) * 0x319642b2d24d8ec3 = 1" by simp_all
  let ?m1 = "\<lambda>z :: u64. (z XOR drop_bit 30 z) * 0xbf58476d1ce4e5b9"
  let ?m2 = "\<lambda>z :: u64. (z XOR drop_bit 27 z) * 0x94d049bb133111eb"
  from eq have "?m2 (?m1 x) XOR drop_bit 31 (?m2 (?m1 x)) = ?m2 (?m1 y) XOR drop_bit 31 (?m2 (?m1 y))"
    by (simp only: rng_mix_def Let_def)
  then have "?m2 (?m1 x) = ?m2 (?m1 y)" by (rule xorshift_inj) (simp only: zero_less_numeral)
  then have "?m1 x XOR drop_bit 27 (?m1 x) = ?m1 y XOR drop_bit 27 (?m1 y)"
    by (rule mult_unit_inj [OF u2])
  then have "?m1 x = ?m1 y" by (rule xorshift_inj) (simp only: zero_less_numeral)
  then have "x XOR drop_bit 30 x = y XOR drop_bit 30 y" by (rule mult_unit_inj [OF u1])
  then show "x = y" by (rule xorshift_inj) (simp only: zero_less_numeral)
qed

lemma rng_mix_surj: "surj rng_mix"
  by (rule finite_UNIV_inj_surj [OF finite rng_mix_inj])

lemma rng_iterate_state:
  "rng_state (rng_iterate n r) = rng_state r + of_nat n * 0x9e3779b97f4a7c15"
  by (induction n arbitrary: r) (simp_all add: next_u64_def Let_def algebra_simps)

text \<open>Every 64-bit value is produced from every state.\<close>

lemma next_u64_hits: "\<exists>n. fst (next_u64 (rng_iterate n r)) = v"
proof -
  obtain t where t: "rng_mix t = v" using rng_mix_surj by (metis surjD)
  have unit: "(0x9e3779b97f4a7c15 :: u64) * 0xf1de83e19937733d = 1" by simp
  let ?g = "0x9e3779b97f4a7c15 :: u64"
  let ?n = "unat ((t - rng_state r - ?g) * 0xf1de83e19937733d)"
  have "of_nat ?n * ?g = (t - rng_state r - ?g) * (?g * 0xf1de83e19937733d)"
    by (simp only: of_nat_unat ucast_id mult.assoc mult.commute [of ?g])
  also have "\<dots> = t - rng_state r - ?g" by (simp only: unit mult_1_right)
  finally have "rng_state (rng_iterate ?n r) + ?g = t"
    by (simp only: rng_iterate_state) simp
  with t show ?thesis by (metis fst_conv next_u64_def)
qed

lemma next_u32_hits: "\<exists>n. fst (next_u32 (rng_iterate n r)) = v"
proof -
  obtain n where "fst (next_u64 (rng_iterate n r)) = ucast v" using next_u64_hits by blast
  then have "fst (next_u32 (rng_iterate n r)) = v"
    by (simp add: next_u32_def split_beta)
  then show ?thesis ..
qed

lemma next_u64_consecutive:
  "fst (next_u64 (snd (next_u64 r))) \<noteq> fst (next_u64 r)"
proof -
  have "rng_state r + 0x9e3779b97f4a7c15 + 0x9e3779b97f4a7c15 \<noteq> rng_state r + 0x9e3779b97f4a7c15"
    by simp
  then show ?thesis
    by (simp add: next_u64_def Let_def inj_eq [OF rng_mix_inj])
qed

section \<open>Properties\<close>

text \<open>C36. The wrapping comparison of 16-bit sequence numbers is the order "ahead by fewer than $2^{15}$
  steps": one number is less than another exactly when the other is reached from it by a positive
  number of increments smaller than half the number space, whatever wraps in between.\<close>

theorem sequence_order_u16:
  fixes a b :: u16
  shows "wrapping_compare_less (ucast a) (ucast b) 0xffff \<longleftrightarrow> (\<exists>k>0. k < 2 ^ 15 \<and> b = a + of_nat k)"
proof
  assume "wrapping_compare_less (ucast a) (ucast b) 0xffff"
  then have "0 < unat (b - a) \<and> unat (b - a) < 2 ^ 15 \<and> b = a + of_nat (unat (b - a))"
    by (simp add: wrapping_compare_less_u16)
  then show "\<exists>k>0. k < 2 ^ 15 \<and> b = a + of_nat k" by blast
next
  assume "\<exists>k>0. k < 2 ^ 15 \<and> b = a + of_nat k"
  then obtain k :: nat where k: "0 < k" "k < 2 ^ 15" "b = a + of_nat k" by blast
  then have "unat (b - a) = k" by (simp add: unat_of_nat take_bit_nat_eq_self)
  with k show "wrapping_compare_less (ucast a) (ucast b) 0xffff" by (simp add: wrapping_compare_less_u16)
qed

text \<open>C37. The generator behind connection seeds and initial sequence numbers never gets stuck: from any
  state every 32-bit value is eventually produced, and two consecutive 64-bit outputs differ.\<close>

theorem rng_reaches_every_value:
  "(\<exists>n. fst (next_u32 (rng_iterate n r)) = v) \<and> fst (next_u64 (snd (next_u64 r))) \<noteq> fst (next_u64 r)"
  using next_u32_hits next_u64_consecutive by blast

end
