(* ===== verification/Packet.thy ===== *)
theory Packet
  imports Prelude "HOL-Library.Monad_Syntax"
begin

unbundle bit_operations_syntax

text \<open>
  \<^verbatim>\<open>src/packet.rs\<close>: the 20-byte uTP version 1 header. Reading a field of a received buffer indexes
  it, which panics when the buffer is too short, so the accessors are option-valued (\<open>None\<close> is the
  panic). The setters write into buffers the engine has built itself, always of at least
  \<open>HEADER_SIZE\<close> bytes, where every index is in range; they are plain list updates.
  The lemmas give the round trip of every field, and that a setter leaves the other fields, the
  payload and the length alone.
\<close>

section \<open>Constants\<close>

definition HEADER_SIZE :: nat where "HEADER_SIZE = 20"

definition ST_DATA :: u8 where "ST_DATA = 0"
definition ST_FIN :: u8 where "ST_FIN = 1"
definition ST_STATE :: u8 where "ST_STATE = 2"
definition ST_RESET :: u8 where "ST_RESET = 3"
definition ST_SYN :: u8 where "ST_SYN = 4"
definition ST_NUM_STATES :: u8 where "ST_NUM_STATES = 5"

lemmas st_defs = ST_DATA_def ST_FIN_def ST_STATE_def ST_RESET_def ST_SYN_def ST_NUM_STATES_def

section \<open>Big- and little-endian bytes\<close>

definition u16_from_be_bytes :: "u8 \<Rightarrow> u8 \<Rightarrow> u16" where
  "u16_from_be_bytes a b = push_bit 8 (ucast a) OR ucast b"

definition u32_from_be_bytes :: "u8 \<Rightarrow> u8 \<Rightarrow> u8 \<Rightarrow> u8 \<Rightarrow> u32" where
  "u32_from_be_bytes a b c d =
     push_bit 24 (ucast a) OR push_bit 16 (ucast b) OR push_bit 8 (ucast c) OR ucast d"

definition u32_to_le_bytes :: "u32 \<Rightarrow> bytes" where
  "u32_to_le_bytes m =
     [ucast m, ucast (drop_bit 8 m), ucast (drop_bit 16 m), ucast (drop_bit 24 m)]"

section \<open>Accessors\<close>

definition byte_at :: "bytes \<Rightarrow> nat \<Rightarrow> u8 option" where
  "byte_at b i = (if i < length b then Some (b ! i) else None)"

definition u16_at :: "bytes \<Rightarrow> nat \<Rightarrow> u16 option" where
  "u16_at b i = do { x \<leftarrow> byte_at b i; y \<leftarrow> byte_at b (i + 1); Some (u16_from_be_bytes x y) }"

definition u32_at :: "bytes \<Rightarrow> nat \<Rightarrow> u32 option" where
  "u32_at b i = do {
     w \<leftarrow> byte_at b i; x \<leftarrow> byte_at b (i + 1); y \<leftarrow> byte_at b (i + 2); z \<leftarrow> byte_at b (i + 3);
     Some (u32_from_be_bytes w x y z) }"

definition hdr_version :: "bytes \<Rightarrow> u8 option" where
  "hdr_version b = map_option (\<lambda>x. x AND 0xf) (byte_at b 0)"

definition hdr_packet_type :: "bytes \<Rightarrow> u8 option" where
  "hdr_packet_type b = map_option (drop_bit 4) (byte_at b 0)"

definition hdr_ext :: "bytes \<Rightarrow> u8 option" where "hdr_ext b = byte_at b 1"
definition hdr_conn_id :: "bytes \<Rightarrow> u16 option" where "hdr_conn_id b = u16_at b 2"
definition hdr_tv_usec :: "bytes \<Rightarrow> u32 option" where "hdr_tv_usec b = u32_at b 4"
definition hdr_reply_micro :: "bytes \<Rightarrow> u32 option" where "hdr_reply_micro b = u32_at b 8"
definition hdr_window_size :: "bytes \<Rightarrow> u32 option" where "hdr_window_size b = u32_at b 12"
definition hdr_seq_nr :: "bytes \<Rightarrow> u16 option" where "hdr_seq_nr b = u16_at b 16"
definition hdr_ack_nr :: "bytes \<Rightarrow> u16 option" where "hdr_ack_nr b = u16_at b 18"

definition wire_version :: "bytes \<Rightarrow> u8 option" where
  "wire_version b = do {
     t \<leftarrow> hdr_packet_type b;
     if t < ST_NUM_STATES then do {
       e \<leftarrow> hdr_ext b;
       if e < 3 then hdr_version b else Some 0 }
     else Some 0 }"

section \<open>Setters\<close>

definition put_u16 :: "bytes \<Rightarrow> nat \<Rightarrow> u16 \<Rightarrow> bytes" where
  "put_u16 b i v = b[i := ucast (drop_bit 8 v), i + 1 := ucast v]"

definition put_u32 :: "bytes \<Rightarrow> nat \<Rightarrow> u32 \<Rightarrow> bytes" where
  "put_u32 b i v = b[i := ucast (drop_bit 24 v), i + 1 := ucast (drop_bit 16 v),
     i + 2 := ucast (drop_bit 8 v), i + 3 := ucast v]"

definition set_version_type :: "bytes \<Rightarrow> u8 \<Rightarrow> u8 \<Rightarrow> bytes" where
  "set_version_type b version packet_type = b[0 := push_bit 4 packet_type OR (version AND 0xf)]"

definition set_ext :: "bytes \<Rightarrow> u8 \<Rightarrow> bytes" where "set_ext b e = b[1 := e]"
definition set_conn_id :: "bytes \<Rightarrow> u16 \<Rightarrow> bytes" where "set_conn_id b v = put_u16 b 2 v"
definition set_tv_usec :: "bytes \<Rightarrow> u32 \<Rightarrow> bytes" where "set_tv_usec b v = put_u32 b 4 v"
definition set_reply_micro :: "bytes \<Rightarrow> u32 \<Rightarrow> bytes" where "set_reply_micro b v = put_u32 b 8 v"
definition set_window_size :: "bytes \<Rightarrow> u32 \<Rightarrow> bytes" where "set_window_size b v = put_u32 b 12 v"
definition set_seq_nr :: "bytes \<Rightarrow> u16 \<Rightarrow> bytes" where "set_seq_nr b v = put_u16 b 16 v"
definition set_ack_nr :: "bytes \<Rightarrow> u16 \<Rightarrow> bytes" where "set_ack_nr b v = put_u16 b 18 v"

lemmas hdr_defs = hdr_version_def hdr_packet_type_def hdr_ext_def hdr_conn_id_def hdr_tv_usec_def
  hdr_reply_micro_def hdr_window_size_def hdr_seq_nr_def hdr_ack_nr_def

lemmas set_defs = set_version_type_def set_ext_def set_conn_id_def set_tv_usec_def
  set_reply_micro_def set_window_size_def set_seq_nr_def set_ack_nr_def

section \<open>Byte order round trips\<close>

lemma u16_be_roundtrip [simp]: "u16_from_be_bytes (ucast (drop_bit 8 v)) (ucast v) = v"
  unfolding u16_from_be_bytes_def
  by (rule bit_word_eqI) (auto simp: bit_simps)

lemma u32_be_roundtrip [simp]:
  "u32_from_be_bytes (ucast (drop_bit 24 v)) (ucast (drop_bit 16 v)) (ucast (drop_bit 8 v)) (ucast v) = v"
proof (rule bit_word_eqI)
  fix n :: nat assume "n < LENGTH(32)"
  then consider "n < 8" | "8 \<le> n" "n < 16" | "16 \<le> n" "n < 24" | "24 \<le> n" "n < 32" by force
  then show "bit (u32_from_be_bytes (ucast (drop_bit 24 v)) (ucast (drop_bit 16 v))
      (ucast (drop_bit 8 v)) (ucast v)) n = bit v n"
    unfolding u32_from_be_bytes_def by cases (auto simp: bit_simps)
qed

text \<open>Bit \<open>i\<close> of a 32-bit mask is bit \<open>i mod 8\<close> of byte \<open>i div 8\<close> of its little-endian bytes.\<close>

lemma u32_le_bytes_bit:
  assumes "i < 32"
  shows "bit (u32_to_le_bytes m ! (i div 8)) (i mod 8) = bit m i"
proof -
  have "i div 8 = 0 \<or> i div 8 = 1 \<or> i div 8 = 2 \<or> i div 8 = 3" using assms by linarith
  moreover have "i = 8 * (i div 8) + i mod 8" by simp
  ultimately show ?thesis
    by (elim disjE) (auto simp: u32_to_le_bytes_def bit_simps numeral_2_eq_2 numeral_3_eq_3)
qed

section \<open>Reading what was written\<close>

lemma byte_at_update [wire_simps]:
  "byte_at (b[i := v]) j = (if i = j \<and> j < length b then Some v else byte_at b j)"
  by (simp add: byte_at_def)

lemma length_put [wire_simps, simp]:
  "length (put_u16 b i v) = length b" "length (put_u32 b i w) = length b"
  by (simp_all add: put_u16_def put_u32_def)

lemma length_set [wire_simps, simp]:
  "length (set_version_type b ver ty) = length b" "length (set_ext b e) = length b"
  "length (set_conn_id b v) = length b" "length (set_tv_usec b w) = length b"
  "length (set_reply_micro b w) = length b" "length (set_window_size b w) = length b"
  "length (set_seq_nr b v) = length b" "length (set_ack_nr b v) = length b"
  by (simp_all add: set_defs)

lemma drop_header_set [wire_simps, simp]:
  "drop HEADER_SIZE (set_version_type b ver ty) = drop HEADER_SIZE b"
  "drop HEADER_SIZE (set_ext b e) = drop HEADER_SIZE b"
  "drop HEADER_SIZE (set_conn_id b v) = drop HEADER_SIZE b"
  "drop HEADER_SIZE (set_tv_usec b w) = drop HEADER_SIZE b"
  "drop HEADER_SIZE (set_reply_micro b w) = drop HEADER_SIZE b"
  "drop HEADER_SIZE (set_window_size b w) = drop HEADER_SIZE b"
  "drop HEADER_SIZE (set_seq_nr b v) = drop HEADER_SIZE b"
  "drop HEADER_SIZE (set_ack_nr b v) = drop HEADER_SIZE b"
  by (simp_all add: set_defs put_u16_def put_u32_def HEADER_SIZE_def drop_update_cancel)

lemma u16_at_put [wire_simps]:
  "i + 1 < length b \<Longrightarrow> u16_at (put_u16 b i v) i = Some v"
  by (simp add: u16_at_def put_u16_def byte_at_update)

lemma u32_at_put [wire_simps]:
  "i + 3 < length b \<Longrightarrow> u32_at (put_u32 b i v) i = Some v"
  by (simp add: u32_at_def put_u32_def byte_at_update)

lemma byte_at_put_other [wire_simps]:
  "j < i \<or> i + 1 < j \<Longrightarrow> byte_at (put_u16 b i v) j = byte_at b j"
  "j < i \<or> i + 3 < j \<Longrightarrow> byte_at (put_u32 b i w) j = byte_at b j"
  by (auto simp: put_u16_def put_u32_def byte_at_update)

lemma hdr_total:
  assumes "HEADER_SIZE \<le> length b"
  shows "\<exists>v. hdr_version b = Some v" "\<exists>v. hdr_packet_type b = Some v" "\<exists>v. hdr_ext b = Some v"
    "\<exists>v. hdr_conn_id b = Some v" "\<exists>v. hdr_tv_usec b = Some v" "\<exists>v. hdr_reply_micro b = Some v"
    "\<exists>v. hdr_window_size b = Some v" "\<exists>v. hdr_seq_nr b = Some v" "\<exists>v. hdr_ack_nr b = Some v"
  using assms by (auto simp: hdr_defs byte_at_def u16_at_def u32_at_def HEADER_SIZE_def)

text \<open>Each accessor against each setter: the field written, and every other field.\<close>

lemma nibble_take_bit: "(x :: u8) < 16 \<Longrightarrow> take_bit 4 x = x"
  by (simp add: word_unat_eq_iff unsigned_take_bit_eq take_bit_nat_eq_self word_less_nat_alt)

lemma and_0xf: "(x :: u8) AND 0xf = take_bit 4 x"
  by (simp add: take_bit_eq_mask mask_eq_exp_minus_1)

lemma nibble_split:
  fixes ty ver :: u8
  assumes "ty < 16" and "ver < 16"
  shows "drop_bit 4 (push_bit 4 ty OR (ver AND 0xf)) = ty"
    and "(push_bit 4 ty OR (ver AND 0xf)) AND 0xf = ver"
proof -
  have "drop_bit 4 (push_bit 4 ty OR take_bit 4 ver) = take_bit 4 ty"
    by (rule bit_word_eqI) (auto simp: bit_simps)
  then show "drop_bit 4 (push_bit 4 ty OR (ver AND 0xf)) = ty"
    by (simp only: and_0xf nibble_take_bit [OF assms(1)])
  have "take_bit 4 (push_bit 4 ty OR take_bit 4 ver) = take_bit 4 ver"
    by (rule bit_word_eqI) (auto simp: bit_simps)
  then show "(push_bit 4 ty OR (ver AND 0xf)) AND 0xf = ver"
    by (simp only: and_0xf nibble_take_bit [OF assms(2)])
qed

lemma hdr_set_same [wire_simps]:
  assumes "HEADER_SIZE \<le> length b"
  shows "hdr_ext (set_ext b e) = Some e"
    and "hdr_conn_id (set_conn_id b v) = Some v"
    and "hdr_tv_usec (set_tv_usec b w) = Some w"
    and "hdr_reply_micro (set_reply_micro b w) = Some w"
    and "hdr_window_size (set_window_size b w) = Some w"
    and "hdr_seq_nr (set_seq_nr b v) = Some v"
    and "hdr_ack_nr (set_ack_nr b v) = Some v"
  using assms by (simp_all add: hdr_defs set_defs HEADER_SIZE_def u16_at_put u32_at_put byte_at_update)

lemma hdr_set_version_type [wire_simps]:
  assumes "HEADER_SIZE \<le> length b" and "ty < 16" and "ver < 16"
  shows "hdr_packet_type (set_version_type b ver ty) = Some ty"
    and "hdr_version (set_version_type b ver ty) = Some ver"
proof -
  have "byte_at (set_version_type b ver ty) 0 = Some (push_bit 4 ty OR (ver AND 0xf))"
    using assms(1) by (auto simp: set_version_type_def byte_at_def HEADER_SIZE_def)
  then show "hdr_packet_type (set_version_type b ver ty) = Some ty"
    and "hdr_version (set_version_type b ver ty) = Some ver"
    by (simp_all only: hdr_defs option.map nibble_split [OF assms(2,3)])
qed

lemma byte_at_set_other [wire_simps]:
  "j \<noteq> 0 \<Longrightarrow> byte_at (set_version_type b ver ty) j = byte_at b j"
  "j \<noteq> 1 \<Longrightarrow> byte_at (set_ext b e) j = byte_at b j"
  "j < 2 \<or> 3 < j \<Longrightarrow> byte_at (set_conn_id b v) j = byte_at b j"
  "j < 4 \<or> 7 < j \<Longrightarrow> byte_at (set_tv_usec b w) j = byte_at b j"
  "j < 8 \<or> 11 < j \<Longrightarrow> byte_at (set_reply_micro b w) j = byte_at b j"
  "j < 12 \<or> 15 < j \<Longrightarrow> byte_at (set_window_size b w) j = byte_at b j"
  "j < 16 \<or> 17 < j \<Longrightarrow> byte_at (set_seq_nr b v) j = byte_at b j"
  "j < 18 \<or> 19 < j \<Longrightarrow> byte_at (set_ack_nr b v) j = byte_at b j"
  by (auto simp: set_defs byte_at_put_other byte_at_update)

lemmas hdr_read_defs = hdr_defs u16_at_def u32_at_def

lemma hdr_set_other [wire_simps]:
  "hdr_version (set_ext b e) = hdr_version b" "hdr_version (set_conn_id b v) = hdr_version b"
  "hdr_version (set_tv_usec b w) = hdr_version b" "hdr_version (set_reply_micro b w) = hdr_version b"
  "hdr_version (set_window_size b w) = hdr_version b" "hdr_version (set_seq_nr b v) = hdr_version b"
  "hdr_version (set_ack_nr b v) = hdr_version b"
  "hdr_packet_type (set_ext b e) = hdr_packet_type b"
  "hdr_packet_type (set_conn_id b v) = hdr_packet_type b"
  "hdr_packet_type (set_tv_usec b w) = hdr_packet_type b"
  "hdr_packet_type (set_reply_micro b w) = hdr_packet_type b"
  "hdr_packet_type (set_window_size b w) = hdr_packet_type b"
  "hdr_packet_type (set_seq_nr b v) = hdr_packet_type b"
  "hdr_packet_type (set_ack_nr b v) = hdr_packet_type b"
  "hdr_ext (set_version_type b ver ty) = hdr_ext b" "hdr_ext (set_conn_id b v) = hdr_ext b"
  "hdr_ext (set_tv_usec b w) = hdr_ext b" "hdr_ext (set_reply_micro b w) = hdr_ext b"
  "hdr_ext (set_window_size b w) = hdr_ext b" "hdr_ext (set_seq_nr b v) = hdr_ext b"
  "hdr_ext (set_ack_nr b v) = hdr_ext b"
  by (simp_all add: hdr_read_defs byte_at_set_other)

lemma hdr_conn_id_set_other [wire_simps]:
  "hdr_conn_id (set_version_type b ver ty) = hdr_conn_id b" "hdr_conn_id (set_ext b e) = hdr_conn_id b"
  "hdr_conn_id (set_tv_usec b w) = hdr_conn_id b" "hdr_conn_id (set_reply_micro b w) = hdr_conn_id b"
  "hdr_conn_id (set_window_size b w) = hdr_conn_id b" "hdr_conn_id (set_seq_nr b v) = hdr_conn_id b"
  "hdr_conn_id (set_ack_nr b v) = hdr_conn_id b"
  by (simp_all add: hdr_read_defs byte_at_set_other)

lemma hdr_times_set_other [wire_simps]:
  "hdr_tv_usec (set_version_type b ver ty) = hdr_tv_usec b" "hdr_tv_usec (set_ext b e) = hdr_tv_usec b"
  "hdr_tv_usec (set_conn_id b v) = hdr_tv_usec b" "hdr_tv_usec (set_reply_micro b w) = hdr_tv_usec b"
  "hdr_tv_usec (set_window_size b w) = hdr_tv_usec b" "hdr_tv_usec (set_seq_nr b v) = hdr_tv_usec b"
  "hdr_tv_usec (set_ack_nr b v) = hdr_tv_usec b"
  "hdr_reply_micro (set_version_type b ver ty) = hdr_reply_micro b"
  "hdr_reply_micro (set_ext b e) = hdr_reply_micro b"
  "hdr_reply_micro (set_conn_id b v) = hdr_reply_micro b"
  "hdr_reply_micro (set_tv_usec b w) = hdr_reply_micro b"
  "hdr_reply_micro (set_window_size b w) = hdr_reply_micro b"
  "hdr_reply_micro (set_seq_nr b v) = hdr_reply_micro b"
  "hdr_reply_micro (set_ack_nr b v) = hdr_reply_micro b"
  by (simp_all add: hdr_read_defs byte_at_set_other)

lemma hdr_numbers_set_other [wire_simps]:
  "hdr_window_size (set_version_type b ver ty) = hdr_window_size b"
  "hdr_window_size (set_ext b e) = hdr_window_size b"
  "hdr_window_size (set_conn_id b v) = hdr_window_size b"
  "hdr_window_size (set_tv_usec b w) = hdr_window_size b"
  "hdr_window_size (set_reply_micro b w) = hdr_window_size b"
  "hdr_window_size (set_seq_nr b v) = hdr_window_size b"
  "hdr_window_size (set_ack_nr b v) = hdr_window_size b"
  "hdr_seq_nr (set_version_type b ver ty) = hdr_seq_nr b" "hdr_seq_nr (set_ext b e) = hdr_seq_nr b"
  "hdr_seq_nr (set_conn_id b v) = hdr_seq_nr b" "hdr_seq_nr (set_tv_usec b w) = hdr_seq_nr b"
  "hdr_seq_nr (set_reply_micro b w) = hdr_seq_nr b" "hdr_seq_nr (set_window_size b w) = hdr_seq_nr b"
  "hdr_seq_nr (set_ack_nr b v) = hdr_seq_nr b"
  "hdr_ack_nr (set_version_type b ver ty) = hdr_ack_nr b" "hdr_ack_nr (set_ext b e) = hdr_ack_nr b"
  "hdr_ack_nr (set_conn_id b v) = hdr_ack_nr b" "hdr_ack_nr (set_tv_usec b w) = hdr_ack_nr b"
  "hdr_ack_nr (set_reply_micro b w) = hdr_ack_nr b" "hdr_ack_nr (set_window_size b w) = hdr_ack_nr b"
  "hdr_ack_nr (set_seq_nr b v) = hdr_ack_nr b"
  by (simp_all add: hdr_read_defs byte_at_set_other)

text \<open>The version check accepts exactly version 1 packets of a known type and extension.\<close>

lemma wire_version_eq_1:
  "wire_version b = Some 1 \<longleftrightarrow>
     (\<exists>t e. hdr_packet_type b = Some t \<and> t < ST_NUM_STATES \<and> hdr_ext b = Some e \<and> e < 3
        \<and> hdr_version b = Some 1)"
  by (auto simp: wire_version_def bind_eq_Some_conv)

section \<open>Properties\<close>

text \<open>C10. Writing all header fields and reading them back returns what was written, field by field,
  and leaves the payload behind the header untouched.\<close>

theorem header_roundtrip:
  fixes b :: bytes and ty ver e :: u8 and cid sq ack :: u16 and tv rm win :: u32
  assumes "HEADER_SIZE \<le> length b" and "ty < 16" and "ver < 16"
  defines "h \<equiv> set_ack_nr (set_seq_nr (set_window_size (set_reply_micro (set_tv_usec (set_conn_id
    (set_ext (set_version_type b ver ty) e) cid) tv) rm) win) sq) ack"
  shows "hdr_version h = Some ver \<and> hdr_packet_type h = Some ty \<and> hdr_ext h = Some e
    \<and> hdr_conn_id h = Some cid \<and> hdr_tv_usec h = Some tv \<and> hdr_reply_micro h = Some rm
    \<and> hdr_window_size h = Some win \<and> hdr_seq_nr h = Some sq \<and> hdr_ack_nr h = Some ack
    \<and> drop HEADER_SIZE h = drop HEADER_SIZE b"
  using assms by (simp add: wire_simps)

theorem header_roundtrip_witness:
  "hdr_conn_id (set_ack_nr (set_seq_nr (set_window_size (set_reply_micro (set_tv_usec (set_conn_id
    (set_ext (set_version_type (replicate 20 0 @ [7, 9]) 1 4) 2) 0xabcd) 0xdeadbeef) 0x01020304) 0x100000)
    0x1234) 0x4321) = Some 0xabcd"
  using header_roundtrip [where b = "replicate 20 0 @ [7, 9]" and ty = 4 and ver = 1 and e = 2
      and cid = "0xabcd" and tv = "0xdeadbeef" and rm = "0x01020304" and win = "0x100000"
      and sq = "0x1234" and ack = "0x4321"]
  by (simp add: HEADER_SIZE_def)

text \<open>On a buffer that holds a whole header the version check never indexes out of bounds, and it
  reports the version nibble exactly for the five known packet types with an extension code below 3;
  everything else is version 0, that is, not uTP.\<close>

theorem wire_version_checks:
  assumes "HEADER_SIZE \<le> length b"
  shows "\<exists>t x v. hdr_packet_type b = Some t \<and> hdr_ext b = Some x \<and> hdr_version b = Some v
    \<and> wire_version b = Some (if t < 5 \<and> x < 3 then v else 0)"
  using hdr_total [OF assms] by (auto simp: wire_version_def st_defs)

theorem wire_version_checks_witness:
  "\<exists>t x v. hdr_packet_type (0x21 # replicate 19 0) = Some t \<and> hdr_ext (0x21 # replicate 19 0) = Some x
    \<and> hdr_version (0x21 # replicate 19 0) = Some v
    \<and> wire_version (0x21 # replicate 19 0) = Some (if t < 5 \<and> x < 3 then v else 0)"
  by (rule wire_version_checks) (simp add: HEADER_SIZE_def)

end
