(* ===== verification/Circular.thy ===== *)
theory Circular
  imports Prelude
begin

unbundle bit_operations_syntax

text \<open>
  \<^verbatim>\<open>src/circular.rs\<close>: the power-of-two ring of optional entries indexed by wrapping sequence numbers.
  The model keeps the mask and the slot vector and follows \<^verbatim>\<open>grow\<close> slot by slot. The locale
  \<open>seq_ring\<close> states what the engine relies on: reading after writing, for indices that are equal
  modulo the size, and that growing re-homes the live window. It is interpreted on the model at the
  end of the theory.
\<close>

section \<open>The buffer\<close>

record 'a circular_buffer =
  cb_mask :: nat
  cb_slots :: "'a option list"

definition cb_new :: "'a circular_buffer" where
  "cb_new = \<lparr>cb_mask = 15, cb_slots = replicate 16 None\<rparr>"

definition cb_size :: "'a circular_buffer \<Rightarrow> nat" where
  "cb_size b = cb_mask b + 1"

definition cb_get :: "'a circular_buffer \<Rightarrow> nat \<Rightarrow> 'a option" where
  "cb_get b i = cb_slots b ! (i AND cb_mask b)"

definition cb_put :: "'a circular_buffer \<Rightarrow> nat \<Rightarrow> 'a option \<Rightarrow> 'a circular_buffer" where
  "cb_put b i v = b\<lparr>cb_slots := (cb_slots b)[i AND cb_mask b := v]\<rparr>"

definition cb_take :: "'a circular_buffer \<Rightarrow> nat \<Rightarrow> 'a option \<times> 'a circular_buffer" where
  "cb_take b i =
     (cb_slots b ! (i AND cb_mask b), b\<lparr>cb_slots := (cb_slots b)[i AND cb_mask b := None]\<rparr>)"

text \<open>
  The doubling loop of \<^verbatim>\<open>grow\<close>. The loop starts from \<^verbatim>\<open>mask + 1\<close>, so \<open>sz\<close> is never 0; the test
  for 0 only makes the recursion total.
\<close>

function grow_size :: "nat \<Rightarrow> nat \<Rightarrow> nat" where
  "grow_size sz index =
     (let sz' = sz * 2
      in if index < sz' \<or> sz = 0 then sz' else grow_size sz' index)"
  by pat_completeness auto
termination
  by (relation "measure (\<lambda>(sz, index). index - sz)") auto

declare grow_size.simps [simp del]

text \<open>One turn of the re-homing loop; \<open>src\<close> is computed in wrapping 64-bit arithmetic.\<close>

definition grow_step ::
  "nat \<Rightarrow> nat \<Rightarrow> nat \<Rightarrow> nat \<Rightarrow> nat \<Rightarrow> 'a option list \<times> 'a option list \<Rightarrow> 'a option list \<times> 'a option list"
where
  "grow_step msk new_mask item index i st =
     (let (old, new) = st;
          src = unat (of_nat item - of_nat index + of_nat i :: u64)
      in (old[src AND msk := None], new[src AND new_mask := old ! (src AND msk)]))"

definition cb_grow :: "'a circular_buffer \<Rightarrow> nat \<Rightarrow> nat \<Rightarrow> 'a circular_buffer" where
  "cb_grow b item index =
     (let sz = grow_size (cb_mask b + 1) index;
          new_mask = sz - 1;
          (old, new) = fold (grow_step (cb_mask b) new_mask item index) [0..<cb_mask b + 1]
                         (cb_slots b, replicate sz None)
      in b\<lparr>cb_mask := new_mask, cb_slots := new\<rparr>)"

definition cb_ensure_size :: "'a circular_buffer \<Rightarrow> nat \<Rightarrow> nat \<Rightarrow> 'a circular_buffer" where
  "cb_ensure_size b item index = (if index > cb_mask b then cb_grow b item index else b)"

text \<open>Well-formed: the size is a power of two, at most $2^{16}$, and the vector has that length.\<close>

definition cb_wf :: "'a circular_buffer \<Rightarrow> bool" where
  "cb_wf b \<longleftrightarrow> (\<exists>k\<le>16. cb_mask b = 2 ^ k - 1) \<and> length (cb_slots b) = cb_mask b + 1"

section \<open>Indexing\<close>

lemma and_mask_mod: "i AND (2 ^ k - 1 :: nat) = i mod 2 ^ k"
  by (metis mask_eq_exp_minus_1 take_bit_eq_mask take_bit_eq_mod)

lemma cb_wfE:
  assumes "cb_wf b"
  obtains k where "k \<le> 16" and "cb_mask b = 2 ^ k - 1" and "cb_size b = 2 ^ k"
    and "length (cb_slots b) = 2 ^ k"
  using assms unfolding cb_wf_def cb_size_def by force

lemma cb_index [ring_simps]: "cb_wf b \<Longrightarrow> i AND cb_mask b = i mod cb_size b"
  by (elim cb_wfE) (simp only: and_mask_mod)

lemma cb_size_pos [simp]: "0 < cb_size b"
  by (simp add: cb_size_def)

lemma cb_length [ring_simps]: "cb_wf b \<Longrightarrow> length (cb_slots b) = cb_size b"
  by (simp add: cb_wf_def cb_size_def)

text \<open>Every slot access is in range.\<close>

lemma cb_index_in_range: "cb_wf b \<Longrightarrow> i AND cb_mask b < length (cb_slots b)"
  by (simp add: cb_index cb_length)

lemma cb_size_dvd: "cb_wf b \<Longrightarrow> cb_size b dvd 2 ^ 16"
  by (elim cb_wfE) (simp add: le_imp_power_dvd del: power_numeral)

lemma cb_new_wf [simp]: "cb_wf cb_new"
  by (auto simp: cb_wf_def cb_new_def intro!: exI [of _ 4])

lemma cb_new_size [simp]: "cb_size cb_new = 16"
  by (simp add: cb_size_def cb_new_def)

lemma cb_new_get [simp]: "cb_get cb_new i = None"
proof -
  have "i AND cb_mask (cb_new :: 'a circular_buffer) < 16"
    using cb_index_in_range [OF cb_new_wf, of i, where ?'a = 'a] by (simp add: cb_new_def)
  then show ?thesis by (simp add: cb_get_def cb_new_def)
qed

lemma cb_put_wf [simp]: "cb_wf (cb_put b i v) = cb_wf b"
  by (simp add: cb_wf_def cb_put_def)

lemma cb_put_size [simp]: "cb_size (cb_put b i v) = cb_size b"
  by (simp add: cb_size_def cb_put_def)

lemma cb_put_mask [simp]: "cb_mask (cb_put b i v) = cb_mask b"
  by (simp add: cb_put_def)

lemma cb_get_put [ring_simps]:
  assumes "cb_wf b"
  shows "cb_get (cb_put b i v) j = (if i mod cb_size b = j mod cb_size b then v else cb_get b j)"
  using assms cb_index_in_range [OF assms, of i]
  by (simp add: cb_get_def cb_put_def cb_index nth_list_update cb_length)

lemma cb_get_cong: "cb_wf b \<Longrightarrow> i mod cb_size b = j mod cb_size b \<Longrightarrow> cb_get b i = cb_get b j"
  by (simp add: cb_get_def cb_index)

lemma cb_take_eq [simp]: "cb_take b i = (cb_get b i, cb_put b i None)"
  by (simp add: cb_take_def cb_get_def cb_put_def)

section \<open>Growing\<close>

lemma grow_size_spec:
  assumes "0 < sz"
  shows "index < grow_size sz index \<and> (\<exists>j. grow_size sz index = sz * 2 ^ Suc j)
    \<and> (sz \<le> index \<longrightarrow> grow_size sz index \<le> 2 * index)"
  using assms
proof (induction sz index rule: grow_size.induct)
  case (1 sz index)
  show ?case
  proof (cases "index < sz * 2")
    case True
    with 1 show ?thesis
      by (subst grow_size.simps) (auto simp: Let_def grow_size.simps [of sz index] intro: exI [of _ 0])
  next
    case False
    with 1 have step: "grow_size sz index = grow_size (sz * 2) index"
      by (simp add: grow_size.simps [of sz index] Let_def)
    obtain j where j: "grow_size (sz * 2) index = sz * 2 * 2 ^ Suc j"
      and "index < grow_size (sz * 2) index" "grow_size (sz * 2) index \<le> 2 * index"
      using 1 False by fastforce
    moreover from j have "grow_size sz index = sz * 2 ^ Suc (Suc j)" by (simp add: step)
    ultimately show ?thesis unfolding step by (intro conjI exI [of _ "Suc j"]) simp_all
  qed
qed

lemma unat_src_mod:
  assumes "(base + index) mod 2 ^ 16 = item mod (2 ^ 16 :: nat)" and "k \<le> 16"
  shows "unat (of_nat item - of_nat index + of_nat i :: u64) mod 2 ^ k = (base + i) mod 2 ^ k"
proof -
  let ?w = "of_nat item - of_nat index + of_nat i :: u64"
  have "?w = word_of_int (int item - int index + int i)" by simp
  then have "int (unat ?w) = (int item - int index + int i) mod 2 ^ 64"
    by (simp only: uint_nat [symmetric] uint_word_of_int) simp
  then have "int (unat ?w mod 2 ^ k) = (int item - int index + int i) mod 2 ^ 64 mod 2 ^ k"
    by (simp add: zmod_int)
  also have "\<dots> = (int item - int index + int i) mod 2 ^ k"
    using assms(2) by (intro mod_mod_cancel le_imp_power_dvd) simp
  also have "\<dots> = (int (base + index) - int index + int i) mod 2 ^ k"
  proof -
    have "(2 ^ k :: nat) dvd 2 ^ 16" using assms(2) by (rule le_imp_power_dvd)
    then have "(base + index) mod 2 ^ k = item mod 2 ^ k"
      using assms(1) by (metis mod_mod_cancel)
    then have "int (item mod 2 ^ k) = int ((base + index) mod 2 ^ k)" by simp
    then have "int item mod 2 ^ k = int (base + index) mod 2 ^ k" by (simp only: zmod_int) simp
    then show ?thesis by (intro mod_add_cong mod_diff_cong refl)
  qed
  also have "\<dots> = int (base + i) mod 2 ^ k" by simp
  also have "\<dots> = int ((base + i) mod 2 ^ k)" by (simp add: zmod_int)
  finally show ?thesis by (simp only: of_nat_eq_iff)
qed

lemma mod_add_inj:
  fixes n :: nat
  assumes "(base + i) mod n = (base + j) mod n" and "i < n" and "j < n"
  shows "i = j"
proof -
  have "i mod n = j mod n" using assms(1) by (simp add: nat_mod_eq_iff) 
  then show ?thesis using assms(2,3) by simp
qed

text \<open>
  The state of the re-homing loop after \<open>m\<close> turns: the first \<open>m\<close> entries of the window that
  starts at \<open>base\<close> have moved, the others have not, and no other slot of the new vector is taken.
\<close>

definition grow_inv :: "nat \<Rightarrow> 'a option list \<Rightarrow> nat \<Rightarrow> nat \<Rightarrow> nat \<Rightarrow> 'a option list \<times> 'a option list \<Rightarrow> bool"
where
  "grow_inv base slots sz sz' m st \<longleftrightarrow>
     (case st of (old, new) \<Rightarrow> length old = sz \<and> length new = sz' \<and>
        (\<forall>j < sz. old ! ((base + j) mod sz) = (if j < m then None else slots ! ((base + j) mod sz))) \<and>
        (\<forall>j < sz'. new ! ((base + j) mod sz') = (if j < m then slots ! ((base + j) mod sz) else None)))"


lemma grow_inv_start:
  "length slots = sz \<Longrightarrow> grow_inv base slots sz sz' 0 (slots, replicate sz' None)"
  by (auto simp: grow_inv_def)

lemma grow_inv_step:
  assumes inv: "grow_inv base slots sz sz' m st" and m: "m < sz" and le: "sz \<le> sz'"
    and src: "src AND msk = (base + m) mod sz" "src AND new_mask = (base + m) mod sz'"
    and "src = unat (of_nat item - of_nat index + of_nat m :: u64)"
  shows "grow_inv base slots sz sz' (Suc m) (grow_step msk new_mask item index m st)"
proof -
  obtain old new where st: "st = (old, new)" by (cases st)
  have eq: "grow_step msk new_mask item index m st =
      (old[(base + m) mod sz := None], new[(base + m) mod sz' := old ! ((base + m) mod sz)])"
    using assms(6) src by (simp add: grow_step_def st)
  have inj: "(base + m) mod sz = (base + j) mod sz \<longleftrightarrow> m = j" if "j < sz" for j
    using mod_add_inj [of base m sz j] that m by auto
  have inj': "(base + m) mod sz' = (base + j) mod sz' \<longleftrightarrow> m = j" if "j < sz'" for j
    using mod_add_inj [of base m sz' j] that m le by auto
  show ?thesis
    unfolding eq using inv m le inj inj'
    by (auto simp: grow_inv_def st nth_list_update less_Suc_eq)
qed

lemma grow_fold_inv:
  assumes "cb_wf b" and item: "(base + index) mod 2 ^ 16 = item mod (2 ^ 16 :: nat)"
    and new: "new_mask = 2 ^ k' - 1" "k' \<le> 16" "cb_size b \<le> 2 ^ k'"
    and "m \<le> cb_size b"
  shows "grow_inv base (cb_slots b) (cb_size b) (2 ^ k') m
    (fold (grow_step (cb_mask b) new_mask item index) [0..<m] (cb_slots b, replicate (2 ^ k') None))"
  using assms(6)
proof (induction m)
  case 0
  show ?case using assms(1) by (simp add: grow_inv_start cb_length)
next
  case (Suc m)
  obtain k where k: "k \<le> 16" "cb_mask b = 2 ^ k - 1" "cb_size b = 2 ^ k"
    using assms(1) by (rule cb_wfE)
  let ?src = "unat (of_nat item - of_nat index + of_nat m :: u64)"
  have "?src AND cb_mask b = (base + m) mod cb_size b"
    unfolding k(2,3) and_mask_mod by (rule unat_src_mod [OF item k(1)])
  moreover have "?src AND new_mask = (base + m) mod 2 ^ k'"
    unfolding new(1) and_mask_mod by (rule unat_src_mod [OF item new(2)])
  ultimately show ?case
    using Suc by (simp add: grow_inv_step [OF _ _ new(3) _ _ refl])
qed

text \<open>
  Growing for an element \<open>item\<close> that lies \<open>index\<close> past the start \<open>base\<close> of the live window: the
  buffer becomes larger than \<open>index\<close>, stays well-formed, and every entry of the window is found at
  its own index again. The entries past the old size are empty.
\<close>

lemma cb_grow_spec:
  assumes "cb_wf b" and item: "(base + index) mod 2 ^ 16 = item mod (2 ^ 16 :: nat)"
    and "cb_size b \<le> index" and "index < 2 ^ 15"
  shows "cb_wf (cb_grow b item index)" and "index < cb_size (cb_grow b item index)"
    and "\<And>i. i < cb_size (cb_grow b item index) \<Longrightarrow>
      cb_get (cb_grow b item index) (base + i) = (if i < cb_size b then cb_get b (base + i) else None)"
proof -
  obtain k where k: "k \<le> 16" "cb_mask b = 2 ^ k - 1" "cb_size b = 2 ^ k"
    using assms(1) by (rule cb_wfE)
  let ?sz = "grow_size (cb_mask b + 1) index"
  obtain j where j: "?sz = 2 ^ (k + Suc j)" and idx: "index < ?sz" and le: "?sz \<le> 2 * index"
    using grow_size_spec [of "cb_mask b + 1" index] k assms(3)
    by (auto simp: power_add cb_size_def)
  define k' where "k' = k + Suc j"
  have "(2 :: nat) ^ k' < 2 ^ 16" using j le assms(4) by (simp add: k'_def)
  then have k': "k' \<le> 16" using power_strict_increasing_iff [of "2::nat" k' 16] by simp
  have sz: "?sz = 2 ^ k'" using j by (simp add: k'_def)
  let ?st = "fold (grow_step (cb_mask b) (?sz - 1) item index) [0..<cb_size b]
    (cb_slots b, replicate ?sz None)"
  have grow: "cb_grow b item index = b\<lparr>cb_mask := 2 ^ k' - 1, cb_slots := snd ?st\<rparr>"
    by (simp only: cb_grow_def Let_def split_beta cb_size_def sz)
  have le': "cb_size b \<le> 2 ^ k'" unfolding k(3) k'_def by (rule power_increasing) simp_all
  have "grow_inv base (cb_slots b) (cb_size b) (2 ^ k') (cb_size b) ?st"
    unfolding sz by (rule grow_fold_inv [OF assms(1) item refl k' le' order_refl])
  then have len: "length (snd ?st) = 2 ^ k'"
    and slots: "\<And>i. i < 2 ^ k' \<Longrightarrow> snd ?st ! ((base + i) mod 2 ^ k') =
      (if i < cb_size b then cb_slots b ! ((base + i) mod cb_size b) else None)"
    by (auto simp: grow_inv_def split: prod.splits)
  show wf: "cb_wf (cb_grow b item index)" using len k' by (auto simp: cb_wf_def grow)
  have size': "cb_size (cb_grow b item index) = 2 ^ k'" by (simp add: grow cb_size_def)
  then show "index < cb_size (cb_grow b item index)" using idx sz by simp
  fix i assume "i < cb_size (cb_grow b item index)"
  then have "snd ?st ! ((base + i) mod 2 ^ k') =
      (if i < cb_size b then cb_slots b ! ((base + i) mod cb_size b) else None)"
    using slots size' by simp
  then show "cb_get (cb_grow b item index) (base + i) = (if i < cb_size b then cb_get b (base + i) else None)"
    using wf assms(1) size' by (simp add: cb_get_def cb_index) (simp add: grow)
qed

lemma cb_ensure_size_spec:
  assumes "cb_wf b" and item: "(base + index) mod 2 ^ 16 = item mod (2 ^ 16 :: nat)"
    and "index < 2 ^ 15"
  shows "cb_wf (cb_ensure_size b item index)" and "index < cb_size (cb_ensure_size b item index)"
    and "cb_size b \<le> cb_size (cb_ensure_size b item index)"
    and "\<And>i. i < cb_size (cb_ensure_size b item index) \<Longrightarrow>
      cb_get (cb_ensure_size b item index) (base + i) = (if i < cb_size b then cb_get b (base + i) else None)"
proof -
  consider (keep) "index < cb_size b" "cb_ensure_size b item index = b"
    | (grow) "cb_size b \<le> index" "cb_ensure_size b item index = cb_grow b item index"
    by (cases "index > cb_mask b") (auto simp: cb_ensure_size_def cb_size_def)
  then have "cb_wf (cb_ensure_size b item index) \<and> index < cb_size (cb_ensure_size b item index)
      \<and> cb_size b \<le> cb_size (cb_ensure_size b item index)
      \<and> (\<forall>i<cb_size (cb_ensure_size b item index). cb_get (cb_ensure_size b item index) (base + i) =
           (if i < cb_size b then cb_get b (base + i) else None))"
  proof cases
    case keep
    then show ?thesis using assms(1) by simp
  next
    case grow
    note spec = cb_grow_spec [OF assms(1) item grow(1) assms(3)]
    show ?thesis using grow(1) spec(1,2) spec(3) unfolding grow(2) by auto
  qed
  then show "cb_wf (cb_ensure_size b item index)" and "index < cb_size (cb_ensure_size b item index)"
    and "cb_size b \<le> cb_size (cb_ensure_size b item index)"
    and "\<And>i. i < cb_size (cb_ensure_size b item index) \<Longrightarrow>
      cb_get (cb_ensure_size b item index) (base + i) = (if i < cb_size b then cb_get b (base + i) else None)"
    by blast+
qed

section \<open>What the engine relies on\<close>

text \<open>
  \<open>seq_window get a n\<close> lists the entries of the \<open>n\<close> sequence numbers from \<open>a\<close> on, and
  \<open>ring_total f sz get\<close> adds up a measure of every slot.
\<close>

definition seq_window :: "(nat \<Rightarrow> 'v) \<Rightarrow> u16 \<Rightarrow> nat \<Rightarrow> 'v list" where
  "seq_window get a n = map (\<lambda>i. get (unat (a + of_nat i))) [0..<n]"

definition ring_total :: "('v \<Rightarrow> nat) \<Rightarrow> nat \<Rightarrow> (nat \<Rightarrow> 'v) \<Rightarrow> nat" where
  "ring_total f sz get = (\<Sum>i< sz. f (get i))"

lemma unat_u16_add_mod:
  fixes a :: u16
  assumes "n dvd 2 ^ 16"
  shows "unat (a + of_nat i) mod n = (unat a + i) mod n"
  using assms by (simp add: unat_word_ariths unat_of_nat mod_mod_cancel mod_add_right_eq)

lemma length_seq_window [simp]: "length (seq_window get a n) = n"
  by (simp add: seq_window_def)

lemma nth_seq_window [simp]: "i < n \<Longrightarrow> seq_window get a n ! i = get (unat (a + of_nat i))"
  by (simp add: seq_window_def)

lemma seq_window_Suc: "seq_window get a (Suc n) = seq_window get a n @ [get (unat (a + of_nat n))]"
  by (simp add: seq_window_def)

lemma seq_window_0 [simp]: "seq_window get a 0 = []"
  by (simp add: seq_window_def)

lemma seq_window_Cons: "seq_window get a (Suc n) = get (unat a) # seq_window get (a + 1) n"
  by (rule nth_equalityI) (auto simp: nth_Cons algebra_simps split: nat.splits)

lemma sum_mod_shift:
  fixes g :: "nat \<Rightarrow> nat"
  assumes "0 < n"
  shows "(\<Sum>j<n. g ((base + j) mod n)) = (\<Sum>j<n. g j)"
proof (rule sum.reindex_bij_betw)
  have "inj_on (\<lambda>j. (base + j) mod n) {..<n}" by (auto intro: inj_onI mod_add_inj)
  moreover from this have "(\<lambda>j. (base + j) mod n) ` {..<n} = {..<n}"
    using assms by (intro card_subset_eq) (auto simp: card_image)
  ultimately show "bij_betw (\<lambda>j. (base + j) mod n) {..<n} {..<n}" by (rule bij_betw_imageI)
qed

lemma window_base_exists: "\<exists>base. (base + index) mod 2 ^ 16 = item mod (2 ^ 16 :: nat)"
proof
  have "item + 2 ^ 16 * index - index + index = item + 2 ^ 16 * index" by simp
  then show "(item + 2 ^ 16 * index - index + index) mod 2 ^ 16 = item mod (2 ^ 16 :: nat)"
    by (simp only: mod_mult_self2)
qed

locale seq_ring =
  fixes wf :: "'r \<Rightarrow> bool" and sz :: "'r \<Rightarrow> nat" and get :: "'r \<Rightarrow> nat \<Rightarrow> 'v option"
    and put :: "'r \<Rightarrow> nat \<Rightarrow> 'v option \<Rightarrow> 'r" and ensure :: "'r \<Rightarrow> nat \<Rightarrow> nat \<Rightarrow> 'r"
  assumes sz_dvd: "wf b \<Longrightarrow> sz b dvd 2 ^ 16"
    and put_wf: "wf b \<Longrightarrow> wf (put b i v)"
    and put_sz: "sz (put b i v) = sz b"
    and get_put: "wf b \<Longrightarrow> get (put b i v) j = (if i mod sz b = j mod sz b then v else get b j)"
    and get_cong: "wf b \<Longrightarrow> i mod sz b = j mod sz b \<Longrightarrow> get b i = get b j"
    and ensure_wf: "wf b \<Longrightarrow> index < 2 ^ 15 \<Longrightarrow> wf (ensure b item index)"
    and ensure_room: "wf b \<Longrightarrow> index < 2 ^ 15 \<Longrightarrow> index < sz (ensure b item index)"
    and ensure_mono: "wf b \<Longrightarrow> index < 2 ^ 15 \<Longrightarrow> sz b \<le> sz (ensure b item index)"
    and ensure_get: "wf b \<Longrightarrow> index < 2 ^ 15 \<Longrightarrow> (base + index) mod 2 ^ 16 = item mod 2 ^ 16 \<Longrightarrow>
      i < sz (ensure b item index) \<Longrightarrow>
      get (ensure b item index) (base + i) = (if i < sz b then get b (base + i) else None)"
begin

lemma sz_pos: "wf b \<Longrightarrow> 0 < sz b"
  using sz_dvd [of b] by (auto intro: Nat.gr0I)

lemma get_u16: "wf b \<Longrightarrow> get b (unat (a + of_nat i :: u16)) = get b (unat a + i)"
  by (rule get_cong) (simp_all add: unat_u16_add_mod [OF sz_dvd])

lemma get_put_window:
  assumes "wf b" and "i < sz b" and "j < sz b"
  shows "get (put b (unat (a + of_nat i :: u16)) v) (unat (a + of_nat j)) =
    (if i = j then v else get b (unat (a + of_nat j)))"
proof -
  have "unat (a + of_nat i) mod sz b = unat (a + of_nat j) mod sz b \<longleftrightarrow> i = j"
    using assms mod_add_inj [of "unat a" i "sz b" j] by (auto simp: unat_u16_add_mod [OF sz_dvd])
  then show ?thesis using assms(1) by (simp add: get_put)
qed

lemma window_put:
  assumes "wf b" and "i < sz b" and "n \<le> sz b"
  shows "seq_window (get (put b (unat (a + of_nat i)) v)) a n = (seq_window (get b) a n)[i := v]"
  using assms by (intro nth_equalityI) (auto simp: get_put_window nth_list_update)

lemma window_ensure:
  assumes "wf b" and "index < 2 ^ 15" and "n \<le> sz b"
  shows "seq_window (get (ensure b (unat (a + of_nat index)) index)) a n = seq_window (get b) a n"
proof (rule nth_equalityI)
  fix i assume "i < length (seq_window (get (ensure b (unat (a + of_nat index)) index)) a n)"
  then have i: "i < n" by simp
  have item: "(unat a + index) mod 2 ^ 16 = unat (a + of_nat index) mod 2 ^ 16"
    by (simp add: unat_u16_add_mod)
  have "get (ensure b (unat (a + of_nat index)) index) (unat a + i) = get b (unat a + i)"
    using ensure_get [OF assms(1,2) item, of i] ensure_mono [OF assms(1,2), of "unat (a + of_nat index)"]
      i assms(3) by simp
  then show "seq_window (get (ensure b (unat (a + of_nat index)) index)) a n ! i = seq_window (get b) a n ! i"
    using i assms by (simp add: get_u16 ensure_wf)
qed simp

lemma total_shift: "wf b \<Longrightarrow> ring_total f (sz b) (get b) = (\<Sum>j< sz b. f (get b (base + j)))"
proof -
  assume wf: "wf b"
  have "(\<Sum>j< sz b. f (get b (base + j))) = (\<Sum>j< sz b. f (get b ((base + j) mod sz b)))"
    using wf by (intro sum.cong refl arg_cong [of _ _ f] get_cong) simp_all
  then show ?thesis using sum_mod_shift [of "sz b" "\<lambda>j. f (get b j)" base] wf
    by (simp add: ring_total_def sz_pos)
qed

lemma total_put:
  assumes "wf b"
  shows "ring_total f (sz (put b i v)) (get (put b i v)) + f (get b i) = ring_total f (sz b) (get b) + f v"
proof -
  let ?p = "i mod sz b"
  have p: "?p \<in> {..< sz b}" using assms by (simp add: sz_pos)
  have ip: "get b i = get b ?p" using assms by (rule get_cong) simp
  have put: "get (put b i v) j = (if j = ?p then v else get b j)" if "j < sz b" for j
    using that assms by (auto simp: get_put)
  have "ring_total f (sz b) (get (put b i v)) = (\<Sum>j < sz b. if j = ?p then f v else f (get b j))"
    unfolding ring_total_def by (rule sum.cong) (simp_all add: put)
  also have "\<dots> = f v + (\<Sum>j\<in>{..< sz b} - {?p}. if j = ?p then f v else f (get b j))"
    using sum.remove [OF finite_lessThan p, of "\<lambda>j. if j = ?p then f v else f (get b j)"] by simp
  also have "(\<Sum>j\<in>{..< sz b} - {?p}. if j = ?p then f v else f (get b j)) =
      (\<Sum>j\<in>{..< sz b} - {?p}. f (get b j))"
    by (rule sum.cong) simp_all
  finally have "ring_total f (sz b) (get (put b i v)) = f v + (\<Sum>j\<in>{..< sz b} - {?p}. f (get b j))" .
  moreover have "ring_total f (sz b) (get b) = f (get b i) + (\<Sum>j\<in>{..< sz b} - {?p}. f (get b j))"
    unfolding ring_total_def ip by (rule sum.remove [OF finite_lessThan p])
  ultimately show ?thesis by (simp add: put_sz)
qed

lemma total_ensure:
  assumes "wf b" and "index < 2 ^ 15" and "f None = 0"
  shows "ring_total f (sz (ensure b item index)) (get (ensure b item index)) = ring_total f (sz b) (get b)"
proof -
  let ?e = "ensure b item index"
  obtain base where item: "(base + index) mod 2 ^ 16 = item mod 2 ^ 16"
    using window_base_exists by blast
  have "(\<Sum>j< sz ?e. f (get ?e (base + j))) = (\<Sum>j< sz ?e. if j < sz b then f (get b (base + j)) else 0)"
    using ensure_get [OF assms(1,2) item] assms(3) by (auto intro!: sum.cong)
  also have "\<dots> = (\<Sum>j< sz b. f (get b (base + j)))"
    using ensure_mono [OF assms(1,2), of item]
    by (simp add: sum.If_cases Int_absorb1 subset_iff flip: lessThan_def)
  finally show ?thesis using assms ensure_wf total_shift by simp
qed

end

interpretation ring: seq_ring cb_wf cb_size cb_get cb_put cb_ensure_size
proof (unfold_locales, goal_cases)
  case (1 b) then show ?case by (rule cb_size_dvd)
next
  case (2 b i v) then show ?case by simp
next
  case (3 b i v) show ?case by simp
next
  case (4 b i v j) then show ?case by (rule cb_get_put)
next
  case (5 b i j) then show ?case by (rule cb_get_cong)
next
  case (6 b index item)
  then show ?case using cb_ensure_size_spec(1) window_base_exists by blast
next
  case (7 b index item)
  then show ?case using cb_ensure_size_spec(2) window_base_exists by blast
next
  case (8 b index item)
  then show ?case using cb_ensure_size_spec(3) window_base_exists by blast
next
  case (9 b index base item i)
  then show ?case using cb_ensure_size_spec(4) by blast
qed

section \<open>Properties\<close>

text \<open>C7. The ring refines a list: seen from a sequence number \<open>a\<close>, storing at distance \<open>i\<close> updates entry
  \<open>i\<close> of the window, reading at distance \<open>i\<close> returns it, and making room for an element \<open>index\<close> past
  \<open>a\<close> appends empty entries and loses or moves none, across the wrap of the sequence numbers.\<close>

theorem ring_refines_list:
  fixes b :: "'a circular_buffer" and a :: u16
  assumes wf: "cb_wf b" and i: "i < cb_size b" and index: "index < 2 ^ 15"
  defines "b' \<equiv> cb_ensure_size b (unat (a + of_nat index)) index"
  shows "seq_window (cb_get (cb_put b (unat (a + of_nat i)) v)) a (cb_size b)
           = (seq_window (cb_get b) a (cb_size b))[i := v]
    \<and> fst (cb_take b (unat (a + of_nat i))) = seq_window (cb_get b) a (cb_size b) ! i
    \<and> index < cb_size b'
    \<and> seq_window (cb_get b') a (cb_size b')
           = seq_window (cb_get b) a (cb_size b) @ replicate (cb_size b' - cb_size b) None"
proof -
  have item: "(unat a + index) mod 2 ^ 16 = unat (a + of_nat index) mod 2 ^ 16"
    by (simp add: unat_u16_add_mod)
  have mono: "cb_size b \<le> cb_size b'" and wf': "cb_wf b'" and room: "index < cb_size b'"
    using ring.ensure_mono [OF wf index] ring.ensure_wf [OF wf index] ring.ensure_room [OF wf index]
    by (simp_all add: b'_def)
  have "seq_window (cb_get b') a (cb_size b') ! j
      = (seq_window (cb_get b) a (cb_size b) @ replicate (cb_size b' - cb_size b) None) ! j"
    if "j < cb_size b'" for j
    using ring.ensure_get [OF wf index item, of j, folded b'_def] that wf wf'
    by (simp add: nth_append ring.get_u16)
  then have "seq_window (cb_get b') a (cb_size b')
      = seq_window (cb_get b) a (cb_size b) @ replicate (cb_size b' - cb_size b) None"
    using mono by (intro nth_equalityI) simp_all
  with ring.window_put [OF wf i order_refl] room i show ?thesis by simp
qed

theorem ring_refines_list_witness:
  "seq_window (cb_get (cb_put (cb_new :: nat circular_buffer) (unat (0xfff8 + of_nat 9 :: u16)) (Some 7))) 0xfff8 16
     = (seq_window (cb_get (cb_new :: nat circular_buffer)) 0xfff8 16)[9 := Some 7]"
  using ring_refines_list [of "cb_new :: nat circular_buffer" 9 20 "0xfff8" "Some 7"] by simp

end
