(* ===== verification/Delay_Hist.thy ===== *)
theory Delay_Hist
  imports Util
begin

text \<open>
  \<^verbatim>\<open>src/delay_hist.rs\<close>: the one-way delay history with a drifting base. The arrays are lists whose
  length is part of the invariant \<open>dh_wf\<close>, which every operation keeps, so that every index is in
  range. The main facts: a recorded queuing delay is the distance of the sample from the smallest
  recent base and never exceeds half the timestamp circle, and the whole history is equivariant
  under a shift of the remote clock, so that the delays it reports do not depend on clock offsets.
\<close>

section \<open>State and operations\<close>

definition CUR_DELAY_SIZE :: nat where "CUR_DELAY_SIZE = 3"
definition DELAY_BASE_HISTORY :: nat where "DELAY_BASE_HISTORY = 13"
definition TIMESTAMP_MASK :: u32 where "TIMESTAMP_MASK = 0xffffffff"

record delay_hist =
  delay_base :: u32
  cur_delay_hist :: "u32 list"
  cur_delay_idx :: nat
  delay_base_hist :: "u32 list"
  delay_base_idx :: nat
  delay_base_time :: u64
  delay_base_initialized :: bool

definition dh_new :: "u64 \<Rightarrow> delay_hist" where
  "dh_new now_ms =
     \<lparr>delay_base = 0, cur_delay_hist = replicate CUR_DELAY_SIZE 0, cur_delay_idx = 0,
      delay_base_hist = replicate DELAY_BASE_HISTORY 0, delay_base_idx = 0,
      delay_base_time = now_ms, delay_base_initialized = False\<rparr>"

definition dh_clear :: "u64 \<Rightarrow> delay_hist \<Rightarrow> delay_hist" where
  "dh_clear now_ms h = dh_new now_ms"

definition dh_shift :: "u32 \<Rightarrow> delay_hist \<Rightarrow> delay_hist" where
  "dh_shift off h =
     h\<lparr>delay_base_hist := map (\<lambda>v. v + off) (delay_base_hist h), delay_base := delay_base h + off\<rparr>"

text \<open>The four stages of \<^verbatim>\<open>add_sample\<close>, in the order of the source.\<close>

definition dh_init :: "u32 \<Rightarrow> delay_hist \<Rightarrow> delay_hist" where
  "dh_init sample h =
     (if \<not> delay_base_initialized h then
        h\<lparr>delay_base_hist := map (\<lambda>_. sample) (delay_base_hist h), delay_base := sample,
          delay_base_initialized := True\<rparr>
      else h)"

definition dh_lower :: "u32 \<Rightarrow> delay_hist \<Rightarrow> delay_hist" where
  "dh_lower sample h =
     (let h1 = (if wrapping_compare_less sample (delay_base_hist h ! delay_base_idx h) TIMESTAMP_MASK
                then h\<lparr>delay_base_hist := (delay_base_hist h)[delay_base_idx h := sample]\<rparr> else h)
      in if wrapping_compare_less sample (delay_base h1) TIMESTAMP_MASK
         then h1\<lparr>delay_base := sample\<rparr> else h1)"

definition dh_record :: "u32 \<Rightarrow> delay_hist \<Rightarrow> delay_hist" where
  "dh_record sample h =
     h\<lparr>cur_delay_hist := (cur_delay_hist h)[cur_delay_idx h := sample - delay_base h],
       cur_delay_idx := (cur_delay_idx h + 1) mod CUR_DELAY_SIZE\<rparr>"

definition lowest_base :: "u32 list \<Rightarrow> u32" where
  "lowest_base hist =
     fold (\<lambda>v base. if wrapping_compare_less v base TIMESTAMP_MASK then v else base) hist (hist ! 0)"

definition dh_step_base :: "u32 \<Rightarrow> u64 \<Rightarrow> delay_hist \<Rightarrow> delay_hist" where
  "dh_step_base sample now_ms h =
     (if now_ms - delay_base_time h > 60 * 1000 then
        (let idx = (delay_base_idx h + 1) mod DELAY_BASE_HISTORY;
             hist = (delay_base_hist h)[idx := sample]
         in h\<lparr>delay_base_time := now_ms, delay_base_idx := idx, delay_base_hist := hist,
              delay_base := lowest_base hist\<rparr>)
      else h)"

definition dh_add_sample :: "u32 \<Rightarrow> u64 \<Rightarrow> delay_hist \<Rightarrow> delay_hist" where
  "dh_add_sample sample now_ms h =
     dh_step_base sample now_ms (dh_record sample (dh_lower sample (dh_init sample h)))"

definition dh_get_value :: "delay_hist \<Rightarrow> u32" where
  "dh_get_value h = fold (\<lambda>v acc. min acc v) (cur_delay_hist h) 0xffffffff"

definition dh_wf :: "delay_hist \<Rightarrow> bool" where
  "dh_wf h \<longleftrightarrow> length (cur_delay_hist h) = CUR_DELAY_SIZE \<and> cur_delay_idx h < CUR_DELAY_SIZE
     \<and> length (delay_base_hist h) = DELAY_BASE_HISTORY \<and> delay_base_idx h < DELAY_BASE_HISTORY"

lemmas dh_stage_defs = dh_init_def dh_lower_def dh_record_def dh_step_base_def

section \<open>The invariant\<close>

lemma dh_new_wf [simp]: "dh_wf (dh_new t)"
  by (simp add: dh_wf_def dh_new_def CUR_DELAY_SIZE_def DELAY_BASE_HISTORY_def)

lemma dh_clear_wf [simp]: "dh_wf (dh_clear t h)"
  by (simp add: dh_clear_def)

lemma dh_shift_wf [simp]: "dh_wf (dh_shift c h) = dh_wf h"
  by (simp add: dh_wf_def dh_shift_def)

lemma dh_add_sample_wf [simp]: "dh_wf h \<Longrightarrow> dh_wf (dh_add_sample s t h)"
  by (simp add: dh_add_sample_def dh_stage_defs dh_wf_def Let_def CUR_DELAY_SIZE_def
      DELAY_BASE_HISTORY_def)

section \<open>Clock offsets cancel\<close>

lemma wrapping_compare_less_shift:
  "wrapping_compare_less (a + c) (b + c) m = wrapping_compare_less a b m"
  by (simp add: wrapping_compare_less_def)

lemma lowest_base_fold_shift:
  "fold (\<lambda>v base. if wrapping_compare_less v base m then v else base) (map (\<lambda>v. v + c) hist) (b + c)
   = fold (\<lambda>v base. if wrapping_compare_less v base m then v else base) hist b + c"
  by (induction hist arbitrary: b) (simp_all add: wrapping_compare_less_shift flip: if_distrib)

lemma lowest_base_shift: "hist \<noteq> [] \<Longrightarrow> lowest_base (map (\<lambda>v. v + c) hist) = lowest_base hist + c"
  by (simp add: lowest_base_def lowest_base_fold_shift)

lemma dh_init_shift: "dh_init (s + c) (dh_shift c h) = dh_shift c (dh_init s h)"
  by (simp add: dh_init_def dh_shift_def map_replicate_const)

lemma dh_lower_shift:
  "dh_wf h \<Longrightarrow> dh_lower (s + c) (dh_shift c h) = dh_shift c (dh_lower s h)"
  by (simp add: dh_lower_def dh_shift_def dh_wf_def Let_def wrapping_compare_less_shift map_update)

lemma dh_record_shift: "dh_record (s + c) (dh_shift c h) = dh_shift c (dh_record s h)"
  by (simp add: dh_record_def dh_shift_def)

lemma dh_step_base_shift:
  assumes "dh_wf h"
  shows "dh_step_base (s + c) t (dh_shift c h) = dh_shift c (dh_step_base s t h)"
proof -
  have "(delay_base_hist h)[i := s] \<noteq> []" for i
    using assms by (auto simp: dh_wf_def DELAY_BASE_HISTORY_def)
  from lowest_base_shift [OF this] show ?thesis
    by (simp add: dh_step_base_def dh_shift_def Let_def map_update)
qed

lemma dh_init_wf: "dh_wf h \<Longrightarrow> dh_wf (dh_init s h)"
  by (simp add: dh_init_def dh_wf_def)

lemma dh_lower_wf: "dh_wf h \<Longrightarrow> dh_wf (dh_lower s h)"
  by (simp add: dh_lower_def dh_wf_def Let_def)

lemma dh_record_wf: "dh_wf h \<Longrightarrow> dh_wf (dh_record s h)"
  by (simp add: dh_record_def dh_wf_def CUR_DELAY_SIZE_def)

lemma dh_add_sample_shift:
  "dh_wf h \<Longrightarrow> dh_add_sample (s + c) t (dh_shift c h) = dh_shift c (dh_add_sample s t h)"
  by (simp add: dh_add_sample_def dh_init_shift dh_lower_shift dh_record_shift dh_step_base_shift
      dh_init_wf dh_lower_wf dh_record_wf)

lemma dh_get_value_shift [simp]: "dh_get_value (dh_shift c h) = dh_get_value h"
  by (simp add: dh_get_value_def dh_shift_def)

section \<open>The recorded delays\<close>

lemma fold_min_le: "fold (\<lambda>v acc. min acc v) xs a \<le> (a :: 'a::linorder)"
  by (induction xs arbitrary: a) (auto intro: order_trans [OF _ min.cobounded1])

lemma fold_min_le_mem: "x \<in> set xs \<Longrightarrow> fold (\<lambda>v acc. min acc v) xs a \<le> (x :: 'a::linorder)"
proof (induction xs arbitrary: a)
  case (Cons y ys)
  show ?case
  proof (cases "x = y")
    case True
    then show ?thesis using fold_min_le [of ys "min a y"] by simp
  next
    case False
    then show ?thesis using Cons by simp
  qed
qed simp

lemma fold_min_mem: "fold (\<lambda>v acc. min acc v) xs a \<in> insert (a :: 'a::linorder) (set xs)"
proof (induction xs arbitrary: a)
  case (Cons y ys)
  show ?case using Cons [of "min a y"] by (auto simp: min_def)
qed simp

lemma dh_get_value_le: "v \<in> set (cur_delay_hist h) \<Longrightarrow> dh_get_value h \<le> v"
  by (simp add: dh_get_value_def fold_min_le_mem)

text \<open>After lowering, the base is never ahead of the sample, so the distance is at most $2^{31}$.\<close>

lemma dh_lower_base:
  "delay_base (dh_lower s h) = (if wrapping_compare_less s (delay_base h) TIMESTAMP_MASK then s else delay_base h)"
  by (simp add: dh_lower_def Let_def)

lemma not_less_distance:
  assumes "\<not> wrapping_compare_less s b TIMESTAMP_MASK"
  shows "unat (s - b) \<le> 2 ^ 31"
proof (cases "s = b")
  case False
  then have "unat (s - b) = 2 ^ 32 - unat (b - s)" and "0 < unat (b - s)"
    using unat_word_uminus [of "b - s"] by (auto simp: unat_gt_0)
  then show ?thesis using assms by (simp add: TIMESTAMP_MASK_def wrapping_compare_less_u32)
qed simp

lemma dh_lower_distance: "unat (s - delay_base (dh_lower s h)) \<le> 2 ^ 31"
  using not_less_distance [of s "delay_base h"] by (simp add: dh_lower_base)

lemma dh_add_sample_cur:
  "cur_delay_hist (dh_add_sample s t h) =
     (cur_delay_hist h)[cur_delay_idx h := s - delay_base (dh_lower s (dh_init s h))]"
  "cur_delay_idx (dh_add_sample s t h) = (cur_delay_idx h + 1) mod CUR_DELAY_SIZE"
  by (simp_all add: dh_add_sample_def dh_step_base_def dh_record_def dh_lower_def dh_init_def Let_def)

section \<open>Properties\<close>

lemma dh_fold_shift:
  "dh_wf h \<Longrightarrow> fold (\<lambda>(s, t). dh_add_sample (s + c) t) xs (dh_shift c h)
     = dh_shift c (fold (\<lambda>(s, t). dh_add_sample s t) xs h)"
  by (induction xs arbitrary: h) (auto simp: dh_add_sample_shift)



text \<open>C35. After a sample the reported queueing delay is at most that sample's distance above the delay
  base it was recorded against, and at most $2^{31}$ microseconds: a wrapped difference is never taken
  for a huge delay.\<close>

theorem delay_bounded:
  assumes "dh_wf h"
  shows "dh_get_value (dh_add_sample s t h) \<le> s - delay_base (dh_lower s (dh_init s h))
    \<and> unat (dh_get_value (dh_add_sample s t h)) \<le> 2 ^ 31"
proof -
  let ?d = "s - delay_base (dh_lower s (dh_init s h))"
  have "cur_delay_idx h < length (cur_delay_hist h)" using assms by (simp add: dh_wf_def)
  then have "?d \<in> set (cur_delay_hist (dh_add_sample s t h))"
    unfolding dh_add_sample_cur by (rule set_update_memI)
  then have "dh_get_value (dh_add_sample s t h) \<le> ?d" by (rule dh_get_value_le)
  moreover have "unat ?d \<le> 2 ^ 31" by (rule dh_lower_distance)
  ultimately show ?thesis by (auto simp: word_le_nat_alt)
qed

theorem delay_bounded_witness:
  "unat (dh_get_value (dh_add_sample 0xffffff00 7 (dh_add_sample 0x400 0 (dh_new 0)))) \<le> 2 ^ 31"
  using delay_bounded [of "dh_add_sample 0x400 0 (dh_new 0)" "0xffffff00" 7] by simp

end
