(* ===== verification/Environment.thy ===== *)
theory Environment
  imports Prelude
begin

text \<open>
  What the engine uses of the outside world. \<^verbatim>\<open>src/clock.rs\<close> reads a monotonic clock; \<^verbatim>\<open>src/transport.rs\<close>
  is the datagram layer, a trait whose stock implementation forwards to the operating system.
  Neither can be computed, so both are parameters carried in the state: the clock by the elapsed
  microseconds of each successive reading, the transport by the outcome of each successive send.
  The transport also keeps the datagrams handed to it, in order.
\<close>

section \<open>Addresses\<close>

datatype socket_addr =
    SocketAddrV4 (v4_ip: u32) u16
  | SocketAddrV6 (v6_ip: "128 word") u16 u32 u32

fun addr_port :: "socket_addr \<Rightarrow> u16" where
  "addr_port (SocketAddrV4 _ p) = p"
| "addr_port (SocketAddrV6 _ p _ _) = p"

fun addr_is_ipv6 :: "socket_addr \<Rightarrow> bool" where
  "addr_is_ipv6 (SocketAddrV4 _ _) = False"
| "addr_is_ipv6 (SocketAddrV6 _ _ _ _) = True"

section \<open>The clock\<close>

record clock =
  clk_elapsed :: "nat \<Rightarrow> nat"
  clk_reads :: nat

definition clock_micros :: "clock \<Rightarrow> u64 \<times> clock" where
  "clock_micros c =
     (1000000 + of_nat (clk_elapsed c (clk_reads c)), c\<lparr>clk_reads := clk_reads c + 1\<rparr>)"

definition clock_millis :: "clock \<Rightarrow> u64 \<times> clock" where
  "clock_millis c =
     (1000 + of_nat (clk_elapsed c (clk_reads c) div 1000), c\<lparr>clk_reads := clk_reads c + 1\<rparr>)"

section \<open>The transport\<close>

record transport =
  tr_send_result :: "nat \<Rightarrow> error_kind option"
  tr_sent :: "(bytes \<times> socket_addr) list"

text \<open>The outcome of a send is \<open>None\<close> for success and the error kind otherwise.\<close>

definition transport_send_to :: "transport \<Rightarrow> bytes \<Rightarrow> socket_addr \<Rightarrow> error_kind option \<times> transport" where
  "transport_send_to t buf addr =
     (tr_send_result t (length (tr_sent t)), t\<lparr>tr_sent := tr_sent t @ [(buf, addr)]\<rparr>)"

section \<open>The firewall callback\<close>

text \<open>
  The user's callback may keep state of its own, so it is given, like the clock, by its answer to
  each successive call. No callback blocks nothing.
\<close>

record firewall =
  fw_verdict :: "nat \<Rightarrow> socket_addr \<Rightarrow> bool"
  fw_calls :: nat

definition firewall_ask :: "firewall option \<Rightarrow> socket_addr \<Rightarrow> bool \<times> firewall option" where
  "firewall_ask fw a =
     (case fw of
        None \<Rightarrow> (False, None)
      | Some f \<Rightarrow> (fw_verdict f (fw_calls f) a, Some (f\<lparr>fw_calls := fw_calls f + 1\<rparr>)))"

end
