(* ===== verification/Conn_Shared.thy ===== *)
theory Conn_Shared
  imports Environment
begin

text \<open>
  \<^verbatim>\<open>src/conn_shared.rs\<close>: the per-connection state that the engine feeds and the public \<^verbatim>\<open>Conn\<close> handle
  reads. The engine's socket, the backlog and the handle share one \<^verbatim>\<open>Arc\<close> of it; the engine state
  keeps the cells in a store indexed by an address, which stands for that pointer. The mutexes
  guard single operations and have no counterpart; the condition variable is the count of its
  \<^verbatim>\<open>notify_all\<close> calls, so that "this wakes the waiters" is visible.
\<close>

record conn_cell =
  read_buf :: bytes
  got_eof :: bool
  got_connect :: bool
  destroyed :: bool
  cell_closed :: bool
  cell_error :: "error_kind option"
  read_timeout :: "nat option"
  write_timeout :: "nat option"
  remote_addr :: socket_addr
  notified :: nat

definition ConnShared_new :: "socket_addr \<Rightarrow> conn_cell" where
  "ConnShared_new a =
     \<lparr>read_buf = [], got_eof = False, got_connect = False, destroyed = False, cell_closed = False,
      cell_error = None, read_timeout = None, write_timeout = None, remote_addr = a, notified = 0\<rparr>"

definition notify_all :: "conn_cell \<Rightarrow> conn_cell" where
  "notify_all c = c\<lparr>notified := notified c + 1\<rparr>"

definition on_read :: "bytes \<Rightarrow> conn_cell \<Rightarrow> conn_cell" where
  "on_read d c = notify_all (c\<lparr>read_buf := read_buf c @ d\<rparr>)"

definition read_buffer_len :: "conn_cell \<Rightarrow> nat" where
  "read_buffer_len c = length (read_buf c)"

definition on_writable :: "conn_cell \<Rightarrow> conn_cell" where
  "on_writable c = notify_all c"

definition on_connect :: "conn_cell \<Rightarrow> conn_cell" where
  "on_connect c = notify_all (c\<lparr>got_connect := True\<rparr>)"

definition on_eof :: "conn_cell \<Rightarrow> conn_cell" where
  "on_eof c = notify_all (c\<lparr>got_eof := True\<rparr>)"

definition on_error :: "error_kind \<Rightarrow> conn_cell \<Rightarrow> conn_cell" where
  "on_error kind c =
     notify_all (if cell_error c = None then c\<lparr>cell_error := Some kind\<rparr> else c)"

definition on_destroying :: "conn_cell \<Rightarrow> conn_cell" where
  "on_destroying c = notify_all (c\<lparr>destroyed := True\<rparr>)"

lemmas callback_defs = on_read_def on_writable_def on_connect_def on_eof_def on_error_def
  on_destroying_def notify_all_def

text \<open>The error a connection reports is the first one raised; later ones are dropped.\<close>

lemma on_error_first: "cell_error c = Some k \<Longrightarrow> cell_error (on_error k' c) = Some k"
  by (simp add: callback_defs)

lemma callbacks_read_buf [simp]:
  "read_buf (on_writable c) = read_buf c" "read_buf (on_connect c) = read_buf c"
  "read_buf (on_eof c) = read_buf c" "read_buf (on_error k c) = read_buf c"
  "read_buf (on_destroying c) = read_buf c" "read_buf (on_read d c) = read_buf c @ d"
  by (simp_all add: callback_defs)

lemma callbacks_notify:
  "notified (on_writable c) = notified c + 1" "notified (on_connect c) = notified c + 1"
  "notified (on_eof c) = notified c + 1" "notified (on_error k c) = notified c + 1"
  "notified (on_destroying c) = notified c + 1" "notified (on_read d c) = notified c + 1"
  by (simp_all add: callback_defs)

section \<open>What a waiter may observe\<close>

text \<open>
  A waiter of the cell's condition variable sleeps until the next \<^verbatim>\<open>notify_all\<close>. A change of the cell
  is signalled when the flags that the blocking loops test only ever go up, and when no flag
  changes and no data appears in an empty buffer without a notification.
\<close>

definition cell_flags :: "conn_cell \<Rightarrow> _" where
  "cell_flags c = (got_eof c, got_connect c, destroyed c, cell_closed c, cell_error c)"

definition signalled :: "conn_cell \<Rightarrow> conn_cell \<Rightarrow> bool" where
  "signalled c c' \<longleftrightarrow> notified c \<le> notified c'
     \<and> (notified c' = notified c \<longrightarrow> cell_flags c' = cell_flags c \<and> (read_buf c = [] \<longrightarrow> read_buf c' = []))
     \<and> (got_eof c \<longrightarrow> got_eof c') \<and> (got_connect c \<longrightarrow> got_connect c') \<and> (destroyed c \<longrightarrow> destroyed c')
     \<and> (cell_closed c \<longrightarrow> cell_closed c') \<and> (cell_error c \<noteq> None \<longrightarrow> cell_error c' = cell_error c)"

lemma signalled_refl [simp]: "signalled c c"
  by (simp add: signalled_def)

lemma signalled_trans: "signalled a b \<Longrightarrow> signalled b c \<Longrightarrow> signalled a c"
  by (auto simp: signalled_def)

lemma signalled_callbacks [simp]:
  "signalled c (on_writable c)" "signalled c (on_connect c)" "signalled c (on_eof c)"
  "signalled c (on_error k c)" "signalled c (on_destroying c)" "signalled c (on_read d c)"
  by (auto simp: signalled_def callback_defs)

lemma signalled_destroyed: "signalled c c' \<Longrightarrow> destroyed c \<Longrightarrow> destroyed c'"
  by (simp add: signalled_def)

end
