(* ===== verification/Engine_State.thy ===== *)
theory Engine_State
  imports Util Packet Circular Delay_Hist Conn_Shared
begin

text \<open>
  The data of \<^verbatim>\<open>src/engine.rs\<close>: constants, the socket key, connection states, outgoing packets, the
  RST cache entry, the per-connection \<^verbatim>\<open>UtpSock\<close> and the per-port \<^verbatim>\<open>Context\<close>. A method that takes
  \<^verbatim>\<open>&mut self\<close> and \<^verbatim>\<open>&mut Context\<close> is a function on the record \<open>eng\<close> of both. The map of sockets is an
  association list, so that iteration visits the entries in an order the theorems leave open.
\<close>

section \<open>Constants\<close>

definition TIMEOUT_CHECK_INTERVAL :: u64 where "TIMEOUT_CHECK_INTERVAL = 500"
definition MAX_CWND_INCREASE_BYTES_PER_RTT :: nat where "MAX_CWND_INCREASE_BYTES_PER_RTT = 3000"
definition MAX_WINDOW_DECAY :: int where "MAX_WINDOW_DECAY = 100"
definition REORDER_BUFFER_MAX_SIZE :: nat where "REORDER_BUFFER_MAX_SIZE = 1024"
definition OUTGOING_BUFFER_MAX_SIZE :: nat where "OUTGOING_BUFFER_MAX_SIZE = 1024"
definition PACKET_SIZE :: nat where "PACKET_SIZE = 1435"
definition MIN_WINDOW_SIZE :: nat where "MIN_WINDOW_SIZE = 10"
definition DUPLICATE_ACKS_BEFORE_RESEND :: u32 where "DUPLICATE_ACKS_BEFORE_RESEND = 3"
definition ACK_NR_ALLOWED_WINDOW :: u16 where "ACK_NR_ALLOWED_WINDOW = 3"
definition MAX_AVERAGE_DELAY_SAMPLE :: u32 where "MAX_AVERAGE_DELAY_SAMPLE = (2 ^ 31 - 1) div 4"
definition MTU_FLOOR_MIN :: u32 where "MTU_FLOOR_MIN = 576"
definition RST_INFO_TIMEOUT :: int where "RST_INFO_TIMEOUT = 10000"
definition RST_INFO_LIMIT :: nat where "RST_INFO_LIMIT = 1000"
definition KEEPALIVE_INTERVAL :: int where "KEEPALIVE_INTERVAL = 29000"
definition ACK_NR_MASK :: u32 where "ACK_NR_MASK = 0xffff"
definition MAX_EACK :: nat where "MAX_EACK = 128"
definition CCONTROL_TARGET :: nat where "CCONTROL_TARGET = 100 * 1000"
definition DEFAULT_BUF :: nat where "DEFAULT_BUF = 1024 * 1024"
definition UDP_IPV4_MTU :: u32 where "UDP_IPV4_MTU = 1500 - 20 - 8 - 24 - 8 - 2 - 36"
definition UDP_TEREDO_MTU :: u32 where "UDP_TEREDO_MTU = 1280 - 40 - 8"
definition UDP_IPV4_OVERHEAD :: nat where "UDP_IPV4_OVERHEAD = 20 + 8"
definition UDP_TEREDO_OVERHEAD :: nat where "UDP_TEREDO_OVERHEAD = UDP_IPV4_OVERHEAD + 40 + 8"

section \<open>Data types\<close>

record key =
  key_addr :: socket_addr
  key_recv_id :: u32

datatype conn_state = Idle | SynSent | SynRecv | Connected | ConnectedFull | Reset | Destroy

record outgoing_packet =
  pkt_payload :: nat
  pkt_time_sent :: u64
  pkt_transmissions :: u32
  pkt_need_resend :: bool
  pkt_data :: bytes

record rst_info =
  rst_addr :: socket_addr
  rst_connid :: u32
  rst_ack_nr :: u16
  rst_timestamp :: u64

datatype ack_result = Acked | AlreadyAcked | NotSent

type_synonym cell_id = nat

datatype process_udp_result = NotUtp | Handled | Accepted key cell_id

record utp_sock =
  sock_key :: key
  sock_user :: cell_id
  in_ack_list :: bool
  retransmit_count :: u16
  reorder_count :: u16
  duplicate_ack :: u8
  cur_window_packets :: u16
  cur_window :: nat
  max_window :: nat
  opt_sndbuf :: nat
  opt_rcvbuf :: nat
  target_delay :: nat
  got_fin :: bool
  got_fin_reached :: bool
  fin_sent :: bool
  fin_sent_acked :: bool
  read_shutdown :: bool
  close_requested :: bool
  fast_timeout :: bool
  max_window_user :: nat
  sock_state :: conn_state
  last_rwin_decay :: int
  eof_pkt :: u16
  ack_nr :: u16
  seq_nr :: u16
  timeout_seq_nr :: u16
  fast_resend_seq_nr :: u16
  reply_micro :: u32
  last_got_packet :: u64
  last_sent_packet :: u64
  last_measured_delay :: u64
  last_maxed_out_window :: u64
  rtt :: u32
  rtt_var :: u32
  rto :: u32
  rtt_hist :: delay_hist
  retransmit_timeout :: u32
  rto_timeout :: u64
  zerowindow_time :: u64
  conn_seed :: u32
  conn_id_recv :: u32
  conn_id_send :: u32
  last_rcv_win :: nat
  our_hist :: delay_hist
  their_hist :: delay_hist
  extensions :: bytes
  mtu_discover_time :: u64
  mtu_ceiling :: u32
  mtu_floor :: u32
  mtu_last :: u32
  mtu_probe_seq :: u32
  mtu_probe_size :: u32
  average_delay :: int
  current_delay_sum :: int
  current_delay_samples :: int
  average_delay_base :: u32
  average_sample_time :: u64
  clock_drift :: int
  clock_drift_raw :: int
  inbuf :: "bytes circular_buffer"
  outbuf :: "outgoing_packet circular_buffer"
  slow_start :: bool
  ssthresh :: nat

record utp_context =
  sockets :: "(key \<times> utp_sock) list"
  ack_list :: "key list"
  rst_infos :: "rst_info list"
  ctx_target_delay :: nat
  ctx_opt_sndbuf :: nat
  ctx_opt_rcvbuf :: nat
  current_ms :: u64
  last_check :: u64
  ctx_clock :: clock
  ctx_rng :: rng
  ctx_transport :: transport
  cells :: "cell_id \<Rightarrow> conn_cell"
  next_cell :: cell_id

record eng =
  sk :: utp_sock
  cx :: utp_context

end
