(* ===== verification/Engine_Mtu.thy ===== *)
theory Engine_Mtu
  imports Engine_State
begin

text \<open>
  The small helpers of \<^verbatim>\<open>src/engine.rs\<close> that the other parts share: reading the clock and calling the
  user cell, the constructor of \<^verbatim>\<open>UtpSock\<close>, and path MTU discovery, a binary search between the
  largest size known to pass and the smallest size suspected not to.
\<close>

section \<open>Clock, user cell, acknowledgement list\<close>

definition ms_elapsed :: "u64 \<Rightarrow> u64 \<Rightarrow> bool" where
  "ms_elapsed a b \<longleftrightarrow> 0 \<le> sint (ucast (a - b) :: u32)"

definition elapsed_i32 :: "u64 \<Rightarrow> u64 \<Rightarrow> int" where
  "elapsed_i32 a b = sint (ucast (a - b) :: u32)"

definition ctx_millis :: "utp_context \<Rightarrow> u64 \<times> utp_context" where
  "ctx_millis c = (let (t, k) = clock_millis (ctx_clock c) in (t, c\<lparr>ctx_clock := k\<rparr>))"

definition ctx_micros :: "utp_context \<Rightarrow> u64 \<times> utp_context" where
  "ctx_micros c = (let (t, k) = clock_micros (ctx_clock c) in (t, c\<lparr>ctx_clock := k\<rparr>))"

definition eng_millis :: "eng \<Rightarrow> u64 \<times> eng" where
  "eng_millis e = (let (t, c) = ctx_millis (cx e) in (t, e\<lparr>cx := c\<rparr>))"

definition eng_micros :: "eng \<Rightarrow> u64 \<times> eng" where
  "eng_micros e = (let (t, c) = ctx_micros (cx e) in (t, e\<lparr>cx := c\<rparr>))"

definition ctx_rand :: "utp_context \<Rightarrow> u32 \<times> utp_context" where
  "ctx_rand c = (let (v, r) = next_u32 (ctx_rng c) in (v, c\<lparr>ctx_rng := r\<rparr>))"

definition set_current_ms :: "eng \<Rightarrow> eng" where
  "set_current_ms e = (let (t, e1) = eng_millis e in e1\<lparr>cx := (cx e1)\<lparr>current_ms := t\<rparr>\<rparr>)"

text \<open>A callback on the cell that the socket's \<^verbatim>\<open>user\<close> pointer refers to.\<close>

definition ctx_cell :: "cell_id \<Rightarrow> (conn_cell \<Rightarrow> conn_cell) \<Rightarrow> utp_context \<Rightarrow> utp_context" where
  "ctx_cell u f c = c\<lparr>cells := (cells c)(u := f (cells c u))\<rparr>"

definition user_call :: "(conn_cell \<Rightarrow> conn_cell) \<Rightarrow> eng \<Rightarrow> eng" where
  "user_call f e = e\<lparr>cx := ctx_cell (sock_user (sk e)) f (cx e)\<rparr>"

definition user_cell :: "eng \<Rightarrow> conn_cell" where
  "user_cell e = cells (cx e) (sock_user (sk e))"

definition send_to_addr :: "bytes \<Rightarrow> socket_addr \<Rightarrow> utp_context \<Rightarrow> error_kind option \<times> utp_context" where
  "send_to_addr buf a c =
     (let (r, t) = transport_send_to (ctx_transport c) buf a in (r, c\<lparr>ctx_transport := t\<rparr>))"

definition ack_list_remove :: "eng \<Rightarrow> eng" where
  "ack_list_remove e =
     (if in_ack_list (sk e) then
        e\<lparr>sk := (sk e)\<lparr>in_ack_list := False\<rparr>,
          cx := (cx e)\<lparr>ack_list := filter (\<lambda>k. k \<noteq> sock_key (sk e)) (ack_list (cx e))\<rparr>\<rparr>
      else e)"

definition schedule_ack :: "eng \<Rightarrow> eng" where
  "schedule_ack e =
     (if \<not> in_ack_list (sk e) then
        e\<lparr>sk := (sk e)\<lparr>in_ack_list := True\<rparr>,
          cx := (cx e)\<lparr>ack_list := ack_list (cx e) @ [sock_key (sk e)]\<rparr>\<rparr>
      else e)"

section \<open>A new socket\<close>

definition UtpSock_new :: "utp_context \<Rightarrow> socket_addr \<Rightarrow> cell_id \<Rightarrow> utp_sock" where
  "UtpSock_new c a u =
     \<lparr>sock_key = \<lparr>key_addr = a, key_recv_id = 0\<rparr>, sock_user = u, in_ack_list = False,
      retransmit_count = 0, reorder_count = 0, duplicate_ack = 0, cur_window_packets = 0,
      cur_window = 0, max_window = 0, opt_sndbuf = ctx_opt_sndbuf c, opt_rcvbuf = ctx_opt_rcvbuf c,
      target_delay = ctx_target_delay c, got_fin = False, got_fin_reached = False, fin_sent = False,
      fin_sent_acked = False, read_shutdown = False, close_requested = False, fast_timeout = False,
      max_window_user = 255 * PACKET_SIZE, sock_state = Idle, last_rwin_decay = 0, eof_pkt = 0,
      ack_nr = 0, seq_nr = 1, timeout_seq_nr = 0, fast_resend_seq_nr = 1, reply_micro = 0,
      last_got_packet = 0, last_sent_packet = 0, last_measured_delay = 0, last_maxed_out_window = 0,
      rtt = 0, rtt_var = 800, rto = 3000, rtt_hist = dh_new 0, retransmit_timeout = 0,
      rto_timeout = 0, zerowindow_time = 0, conn_seed = 0, conn_id_recv = 0, conn_id_send = 0,
      last_rcv_win = 0, our_hist = dh_new 0, their_hist = dh_new 0, extensions = replicate 8 0,
      mtu_discover_time = 0, mtu_ceiling = 0, mtu_floor = 0, mtu_last = 0, mtu_probe_seq = 0,
      mtu_probe_size = 0, average_delay = 0, current_delay_sum = 0, current_delay_samples = 0,
      average_delay_base = 0, average_sample_time = 0, clock_drift = 0, clock_drift_raw = 0,
      inbuf = cb_new, outbuf = cb_new, slow_start = True, ssthresh = ctx_opt_sndbuf c\<rparr>"

section \<open>Path MTU discovery\<close>

definition get_udp_mtu :: "utp_sock \<Rightarrow> u32" where
  "get_udp_mtu s = (if addr_is_ipv6 (key_addr (sock_key s)) then UDP_TEREDO_MTU else UDP_IPV4_MTU)"

definition get_udp_overhead :: "utp_sock \<Rightarrow> nat" where
  "get_udp_overhead s =
     (if addr_is_ipv6 (key_addr (sock_key s)) then UDP_TEREDO_OVERHEAD else UDP_IPV4_OVERHEAD)"

definition get_packet_size :: "utp_sock \<Rightarrow> nat" where
  "get_packet_size s =
     (let mtu = (if mtu_last s \<noteq> 0 then mtu_last s else mtu_ceiling s)
      in usize_sub (unat mtu) HEADER_SIZE)"

definition mtu_reset :: "u64 \<Rightarrow> utp_sock \<Rightarrow> utp_sock" where
  "mtu_reset now_ms s =
     (let ceiling = get_udp_mtu s;
          flr = (if MTU_FLOOR_MIN > ceiling then ceiling else MTU_FLOOR_MIN)
      in s\<lparr>mtu_ceiling := ceiling, mtu_floor := flr, mtu_discover_time := now_ms + 30 * 60 * 1000\<rparr>)"

text \<open>Repairing an inverted range: the first statement of \<^verbatim>\<open>mtu_search_update\<close>.\<close>

definition mtu_repair :: "utp_sock \<Rightarrow> utp_sock" where
  "mtu_repair s =
     (if mtu_floor s > mtu_ceiling s then
        (let ceiling = mtu_floor s
         in s\<lparr>mtu_ceiling := ceiling,
              mtu_floor := (if ceiling > MTU_FLOOR_MIN then (MTU_FLOOR_MIN + ceiling) div 2 else ceiling)\<rparr>)
      else s)"

definition mtu_search_update :: "eng \<Rightarrow> eng" where
  "mtu_search_update e =
     (let s1 = mtu_repair (sk e);
          s2 = s1\<lparr>mtu_last := (mtu_floor s1 + mtu_ceiling s1) div 2, mtu_probe_seq := 0,
                  mtu_probe_size := 0\<rparr>
      in if mtu_ceiling s2 - mtu_floor s2 \<le> 16 then
           (let (t, e1) = eng_millis e
            in e1\<lparr>sk := s2\<lparr>mtu_last := mtu_floor s2, mtu_ceiling := mtu_floor s2,
                           mtu_discover_time := t + 30 * 60 * 1000\<rparr>\<rparr>)
         else e\<lparr>sk := s2\<rparr>)"

section \<open>The invariant of the MTU search\<close>

text \<open>
  The search interval lies between the smallest MTU every path carries and the largest the address
  family allows, the size in use lies in it, and a probe in flight is strictly above the floor.
\<close>

definition mtu_inv :: "utp_sock \<Rightarrow> bool" where
  "mtu_inv s \<longleftrightarrow> 576 \<le> unat (mtu_floor s) \<and> mtu_floor s \<le> mtu_last s \<and> mtu_last s \<le> mtu_ceiling s
     \<and> mtu_ceiling s \<le> get_udp_mtu s
     \<and> (mtu_probe_seq s \<noteq> 0 \<longrightarrow> mtu_floor s < mtu_probe_size s \<and> mtu_probe_size s \<le> mtu_ceiling s)"

definition mtu_gap :: "utp_sock \<Rightarrow> nat" where
  "mtu_gap s = unat (mtu_ceiling s) - unat (mtu_floor s)"

text \<open>What the three places that learn the fate of a probe do: it arrived, or it was lost.\<close>

definition probe_arrived :: "eng \<Rightarrow> eng" where
  "probe_arrived e = mtu_search_update (e\<lparr>sk := (sk e)\<lparr>mtu_floor := mtu_probe_size (sk e)\<rparr>\<rparr>)"

definition probe_lost :: "eng \<Rightarrow> eng" where
  "probe_lost e = mtu_search_update (e\<lparr>sk := (sk e)\<lparr>mtu_ceiling := mtu_probe_size (sk e) - 1\<rparr>\<rparr>)"

lemma get_udp_mtu_bounds: "1232 \<le> unat (get_udp_mtu s)" "unat (get_udp_mtu s) \<le> 1402"
  by (simp_all add: get_udp_mtu_def UDP_TEREDO_MTU_def UDP_IPV4_MTU_def)

lemma get_udp_mtu_key: "sock_key s' = sock_key s \<Longrightarrow> get_udp_mtu s' = get_udp_mtu s"
  by (simp add: get_udp_mtu_def)

lemma mtu_inv_cong:
  "sock_key s' = sock_key s \<Longrightarrow> mtu_floor s' = mtu_floor s \<Longrightarrow> mtu_last s' = mtu_last s \<Longrightarrow>
   mtu_ceiling s' = mtu_ceiling s \<Longrightarrow> mtu_probe_seq s' = mtu_probe_seq s \<Longrightarrow>
   mtu_probe_size s' = mtu_probe_size s \<Longrightarrow> mtu_inv s' = mtu_inv s"
  by (simp add: mtu_inv_def get_udp_mtu_def)

lemma mtu_inv_bounds:
  assumes "mtu_inv s"
  shows "576 \<le> unat (mtu_floor s)" "unat (mtu_floor s) \<le> unat (mtu_last s)"
    "unat (mtu_last s) \<le> unat (mtu_ceiling s)" "unat (mtu_ceiling s) \<le> 1402"
  using assms get_udp_mtu_bounds [of s] by (auto simp: mtu_inv_def word_le_nat_alt)

lemma mtu_inv_packet_size:
  assumes "mtu_inv s"
  shows "get_packet_size s = unat (mtu_last s) - 20"
    and "556 \<le> get_packet_size s" and "get_packet_size s \<le> 1382"
proof -
  note b = mtu_inv_bounds [OF assms]
  then have "20 \<le> unat (mtu_last s)" by linarith
  then have "mtu_last s \<noteq> 0" "usize_sub (unat (mtu_last s)) 20 = unat (mtu_last s) - 20"
    by (auto simp: usize_sub_le)
  then show eq: "get_packet_size s = unat (mtu_last s) - 20"
    by (simp add: get_packet_size_def HEADER_SIZE_def)
  show "556 \<le> get_packet_size s" "get_packet_size s \<le> 1382" using b unfolding eq by linarith+
qed

lemma mtu_reset_fields:
  "unat (mtu_floor (mtu_reset t s)) = 576" "mtu_ceiling (mtu_reset t s) = get_udp_mtu s"
  using get_udp_mtu_bounds [of s] by (auto simp: mtu_reset_def Let_def MTU_FLOOR_MIN_def word_less_nat_alt)

lemma mtu_reset_frame:
  "mtu_last (mtu_reset t s) = mtu_last s" "mtu_probe_seq (mtu_reset t s) = mtu_probe_seq s"
  "mtu_probe_size (mtu_reset t s) = mtu_probe_size s" "get_udp_mtu (mtu_reset t s) = get_udp_mtu s"
  by (simp_all add: mtu_reset_def Let_def get_udp_mtu_def)

lemma mtu_reset_inv: "mtu_inv s \<Longrightarrow> mtu_inv (mtu_reset t s)"
  unfolding mtu_inv_def word_le_nat_alt word_less_nat_alt mtu_reset_fields mtu_reset_frame by auto

lemma unat_avg: "unat a \<le> 1402 \<Longrightarrow> unat b \<le> 1402 \<Longrightarrow> unat ((a + b :: u32) div 2) = (unat a + unat b) div 2"
  by (simp add: unat_div unat_word_ariths)

text \<open>On an ordered interval the update is a bisection; nothing is left to repair.\<close>

lemma mtu_search_update_ordered:
  assumes "mtu_floor (sk e) \<le> mtu_ceiling (sk e)" and "unat (mtu_ceiling (sk e)) \<le> 1402"
  defines "f \<equiv> unat (mtu_floor (sk e))" and "c \<equiv> unat (mtu_ceiling (sk e))"
  shows "unat (mtu_floor (sk (mtu_search_update e))) = f"
    and "unat (mtu_ceiling (sk (mtu_search_update e))) = (if c - f \<le> 16 then f else c)"
    and "unat (mtu_last (sk (mtu_search_update e))) = (if c - f \<le> 16 then f else (f + c) div 2)"
    and "mtu_probe_seq (sk (mtu_search_update e)) = 0"
    and "sock_key (sk (mtu_search_update e)) = sock_key (sk e)"
proof -
  have rep: "mtu_repair (sk e) = sk e" using assms(1) by (simp add: mtu_repair_def)
  have "unat (mtu_ceiling (sk e) - mtu_floor (sk e)) = c - f"
    using assms(1) by (simp add: unat_sub f_def c_def)
  then have cond: "mtu_ceiling (sk e) - mtu_floor (sk e) \<le> 16 \<longleftrightarrow> c - f \<le> 16"
    by (simp add: word_le_nat_alt)
  have avg: "unat ((mtu_floor (sk e) + mtu_ceiling (sk e)) div 2) = (f + c) div 2"
    using assms(1,2) by (simp add: unat_avg word_le_nat_alt f_def c_def)
  show "unat (mtu_floor (sk (mtu_search_update e))) = f"
    "unat (mtu_ceiling (sk (mtu_search_update e))) = (if c - f \<le> 16 then f else c)"
    "unat (mtu_last (sk (mtu_search_update e))) = (if c - f \<le> 16 then f else (f + c) div 2)"
    "mtu_probe_seq (sk (mtu_search_update e)) = 0"
    "sock_key (sk (mtu_search_update e)) = sock_key (sk e)"
    by (simp_all add: mtu_search_update_def rep Let_def split_beta cond avg flip: f_def c_def)
qed

lemma mtu_search_update_inv:
  assumes "mtu_floor (sk e) \<le> mtu_ceiling (sk e)" "576 \<le> unat (mtu_floor (sk e))"
    "mtu_ceiling (sk e) \<le> get_udp_mtu (sk e)"
  shows "mtu_inv (sk (mtu_search_update e))"
proof -
  have c: "unat (mtu_ceiling (sk e)) \<le> 1402"
    using assms(3) get_udp_mtu_bounds(2) [of "sk e"] by (simp add: word_le_nat_alt)
  note upd = mtu_search_update_ordered [OF assms(1) c]
  have "get_udp_mtu (sk (mtu_search_update e)) = get_udp_mtu (sk e)"
    using upd(5) by (rule get_udp_mtu_key)
  with upd assms show ?thesis by (auto simp: mtu_inv_def word_le_nat_alt)
qed

lemma probe_pre:
  assumes "mtu_inv s" "mtu_probe_seq s \<noteq> 0"
  shows "unat (mtu_probe_size s - 1) = unat (mtu_probe_size s) - 1"
    "unat (mtu_floor s) < unat (mtu_probe_size s)" "unat (mtu_probe_size s) \<le> unat (mtu_ceiling s)"
proof -
  show l: "unat (mtu_floor s) < unat (mtu_probe_size s)"
     "unat (mtu_probe_size s) \<le> unat (mtu_ceiling s)"
    using assms by (simp_all add: mtu_inv_def word_less_nat_alt word_le_nat_alt)
  from l(1) have "mtu_probe_size s \<noteq> 0" by (auto simp: word_less_nat_alt)
  then show "unat (mtu_probe_size s - 1) = unat (mtu_probe_size s) - 1" by (rule unat_minus_one)
qed

lemma probe_arrived_gap:
  assumes "mtu_inv (sk e)" "mtu_probe_seq (sk e) \<noteq> 0"
  defines "g \<equiv> unat (mtu_ceiling (sk e)) - unat (mtu_probe_size (sk e))"
  shows "mtu_inv (sk (probe_arrived e))"
    and "mtu_gap (sk (probe_arrived e)) = (if g \<le> 16 then 0 else g)"
proof -
  note pre = probe_pre [OF assms(1,2)] and b = mtu_inv_bounds [OF assms(1)]
  let ?e = "e\<lparr>sk := (sk e)\<lparr>mtu_floor := mtu_probe_size (sk e)\<rparr>\<rparr>"
  have ord: "mtu_floor (sk ?e) \<le> mtu_ceiling (sk ?e)" "unat (mtu_ceiling (sk ?e)) \<le> 1402"
    using pre b by (simp_all add: word_le_nat_alt)
  show "mtu_inv (sk (probe_arrived e))"
    unfolding probe_arrived_def using ord pre b assms(1)
    by (intro mtu_search_update_inv) (simp_all add: mtu_inv_def get_udp_mtu_def)
  show "mtu_gap (sk (probe_arrived e)) = (if g \<le> 16 then 0 else g)"
    using mtu_search_update_ordered [OF ord] by (simp add: probe_arrived_def mtu_gap_def g_def)
qed

lemma probe_lost_gap:
  assumes "mtu_inv (sk e)" "mtu_probe_seq (sk e) \<noteq> 0"
  defines "g \<equiv> unat (mtu_probe_size (sk e)) - 1 - unat (mtu_floor (sk e))"
  shows "mtu_inv (sk (probe_lost e))"
    and "mtu_gap (sk (probe_lost e)) = (if g \<le> 16 then 0 else g)"
proof -
  note pre = probe_pre [OF assms(1,2)] and b = mtu_inv_bounds [OF assms(1)]
  let ?e = "e\<lparr>sk := (sk e)\<lparr>mtu_ceiling := mtu_probe_size (sk e) - 1\<rparr>\<rparr>"
  have ord: "mtu_floor (sk ?e) \<le> mtu_ceiling (sk ?e)" "unat (mtu_ceiling (sk ?e)) \<le> 1402"
    using pre b by (simp_all add: word_le_nat_alt)
  have "mtu_ceiling (sk e) \<le> get_udp_mtu (sk e)" using assms(1) by (simp add: mtu_inv_def)
  then have "mtu_ceiling (sk ?e) \<le> get_udp_mtu (sk ?e)"
    using pre by (simp add: word_le_nat_alt get_udp_mtu_def split: if_splits)
  then show "mtu_inv (sk (probe_lost e))"
    unfolding probe_lost_def using ord b by (intro mtu_search_update_inv) simp_all
  show "mtu_gap (sk (probe_lost e)) = (if g \<le> 16 then 0 else g)"
    using mtu_search_update_ordered [OF ord] pre by (simp add: probe_lost_def mtu_gap_def g_def)
qed

section \<open>Convergence\<close>

text \<open>
  One round of the search on a path that carries datagrams of up to \<open>m\<close> bytes: a full-sized packet is
  sent as the probe (the assignments of \<^verbatim>\<open>send_packet\<close> under \<open>mtu_probe_ok\<close>) and arrives or is lost.
\<close>

definition probe_round :: "nat \<Rightarrow> eng \<Rightarrow> eng" where
  "probe_round m e =
     (if mtu_floor (sk e) < mtu_last (sk e) then
        (let e1 = e\<lparr>sk := (sk e)\<lparr>mtu_probe_seq := 1, mtu_probe_size := mtu_last (sk e)\<rparr>\<rparr>
         in if unat (mtu_last (sk e)) \<le> m then probe_arrived e1 else probe_lost e1)
      else e)"

text \<open>What the rounds have established about \<open>m\<close>.\<close>

definition mtu_brackets :: "nat \<Rightarrow> utp_sock \<Rightarrow> bool" where
  "mtu_brackets m s \<longleftrightarrow> unat (mtu_floor s) \<le> m
     \<and> m \<le> (if mtu_gap s = 0 then unat (mtu_floor s) + 16 else unat (mtu_ceiling s))"

definition mtu_centred :: "utp_sock \<Rightarrow> bool" where
  "mtu_centred s \<longleftrightarrow> unat (mtu_last s) = (unat (mtu_floor s) + unat (mtu_ceiling s)) div 2
     \<and> (mtu_gap s = 0 \<or> 16 < mtu_gap s)"

lemma search_update_centred:
  assumes "mtu_floor (sk e) \<le> mtu_ceiling (sk e)" and "unat (mtu_ceiling (sk e)) \<le> 1402"
  shows "mtu_centred (sk (mtu_search_update e))"
  using mtu_search_update_ordered [OF assms] assms(1)
  by (auto simp: mtu_centred_def mtu_gap_def word_le_nat_alt)

lemma search_update_brackets:
  assumes "mtu_floor (sk e) \<le> mtu_ceiling (sk e)" and "unat (mtu_ceiling (sk e)) \<le> 1402"
    and "unat (mtu_floor (sk e)) \<le> m" and "m \<le> unat (mtu_ceiling (sk e))"
  shows "mtu_brackets m (sk (mtu_search_update e))"
  using mtu_search_update_ordered [OF assms(1,2)] assms
  by (auto simp: mtu_brackets_def mtu_gap_def word_le_nat_alt)

text \<open>A round keeps the invariants and leaves at most the larger half.\<close>

lemma probe_round_step:
  assumes inv: "mtu_inv (sk e)" and br: "mtu_brackets m (sk e)"
    and last: "mtu_floor (sk e) < mtu_last (sk e)"
  defines "g \<equiv> max (unat (mtu_ceiling (sk e)) - unat (mtu_last (sk e)))
                   (unat (mtu_last (sk e)) - 1 - unat (mtu_floor (sk e)))"
  shows "mtu_inv (sk (probe_round m e))" and "mtu_brackets m (sk (probe_round m e))"
    and "mtu_centred (sk (probe_round m e))" and "mtu_gap (sk (probe_round m e)) \<le> (if g \<le> 16 then 0 else g)"
proof -
  let ?e = "e\<lparr>sk := (sk e)\<lparr>mtu_probe_seq := 1, mtu_probe_size := mtu_last (sk e)\<rparr>\<rparr>"
  note b = mtu_inv_bounds [OF inv]
  have l: "unat (mtu_floor (sk e)) < unat (mtu_last (sk e))" using last by (simp add: word_less_nat_alt)
  have inv1: "mtu_inv (sk ?e)" and nz: "mtu_probe_seq (sk ?e) \<noteq> 0"
    using inv last by (simp_all add: mtu_inv_def get_udp_mtu_def)
  have gap: "mtu_gap (sk e) \<noteq> 0" using l b by (simp add: mtu_gap_def)
  have m: "unat (mtu_floor (sk e)) \<le> m" "m \<le> unat (mtu_ceiling (sk e))"
    using br gap by (simp_all add: mtu_brackets_def)
  have pred: "unat (mtu_last (sk e) - 1) = unat (mtu_last (sk e)) - 1"
    using probe_pre(1) [OF inv1 nz] by simp
  have "mtu_inv (sk (probe_round m e)) \<and> mtu_brackets m (sk (probe_round m e))
      \<and> mtu_centred (sk (probe_round m e)) \<and> mtu_gap (sk (probe_round m e)) \<le> (if g \<le> 16 then 0 else g)"
  proof (cases "unat (mtu_last (sk e)) \<le> m")
    case True
    then have "probe_round m e = probe_arrived ?e" using last by (simp add: probe_round_def)
    then show ?thesis
      using probe_arrived_gap [OF inv1 nz] True m b l
      by (auto simp: probe_arrived_def g_def word_le_nat_alt
          intro!: search_update_centred search_update_brackets)
  next
    case False
    then have "probe_round m e = probe_lost ?e" using last by (simp add: probe_round_def)
    then show ?thesis
      using probe_lost_gap [OF inv1 nz] False m b l pred
      by (auto simp: probe_lost_def g_def word_le_nat_alt
          intro!: search_update_centred search_update_brackets)
  qed
  then show "mtu_inv (sk (probe_round m e))" "mtu_brackets m (sk (probe_round m e))"
    "mtu_centred (sk (probe_round m e))" "mtu_gap (sk (probe_round m e)) \<le> (if g \<le> 16 then 0 else g)"
    by blast+
qed

definition mtu_searching :: "nat \<Rightarrow> nat \<Rightarrow> eng \<Rightarrow> bool" where
  "mtu_searching m n e \<longleftrightarrow> mtu_inv (sk e) \<and> mtu_brackets m (sk e) \<and> mtu_centred (sk e) \<and> mtu_gap (sk e) \<le> n"

lemma probe_round_halves:
  assumes "mtu_searching m n e"
  shows "mtu_searching m (if (n + 1) div 2 \<le> 16 then 0 else (n + 1) div 2) (probe_round m e)"
proof (cases "mtu_gap (sk e) = 0")
  case True
  then have "probe_round m e = e"
    using assms mtu_inv_bounds [of "sk e"]
    by (auto simp: probe_round_def mtu_searching_def mtu_centred_def mtu_gap_def word_less_nat_alt)
  with True assms show ?thesis by (simp add: mtu_searching_def)
next
  case False
  then have c: "unat (mtu_last (sk e)) = (unat (mtu_floor (sk e)) + unat (mtu_ceiling (sk e))) div 2"
      "16 < mtu_gap (sk e)" "mtu_gap (sk e) \<le> n"
    using assms by (auto simp: mtu_searching_def mtu_centred_def)
  then have "mtu_floor (sk e) < mtu_last (sk e)" by (simp add: word_less_nat_alt mtu_gap_def)
  then have step: "mtu_inv (sk (probe_round m e))" "mtu_brackets m (sk (probe_round m e))"
      "mtu_centred (sk (probe_round m e))"
      "mtu_gap (sk (probe_round m e)) \<le> max (unat (mtu_ceiling (sk e)) - unat (mtu_last (sk e)))
                   (unat (mtu_last (sk e)) - 1 - unat (mtu_floor (sk e)))"
    using probe_round_step [of e m] assms by (auto simp: mtu_searching_def split: if_splits)
  have "max (unat (mtu_ceiling (sk e)) - unat (mtu_last (sk e)))
           (unat (mtu_last (sk e)) - 1 - unat (mtu_floor (sk e))) \<le> (n + 1) div 2"
    using c by (simp add: mtu_gap_def)
  with step have "mtu_gap (sk (probe_round m e)) \<le> (n + 1) div 2" by linarith
  with step show ?thesis by (auto simp: mtu_searching_def mtu_centred_def)
qed

lemma funpow_numeral [simp]: "(f ^^ numeral k) x = f ((f ^^ pred_numeral k) x)"
  by (simp add: numeral_eq_Suc)

lemma probe_rounds_converge:
  assumes "mtu_searching m 825 e"
  shows "mtu_searching m 0 ((probe_round m ^^ 6) e)"
proof -
  have "mtu_searching m 413 (probe_round m e)" using probe_round_halves [OF assms] by simp
  from probe_round_halves [OF this] have "mtu_searching m 207 ((probe_round m ^^ 2) e)"
    by simp
  from probe_round_halves [OF this] have "mtu_searching m 104 ((probe_round m ^^ 3) e)" by simp
  from probe_round_halves [OF this] have "mtu_searching m 52 ((probe_round m ^^ 4) e)" by simp
  from probe_round_halves [OF this] have "mtu_searching m 26 ((probe_round m ^^ 5) e)" by simp
  from probe_round_halves [OF this] show ?thesis by simp
qed

section \<open>A concrete state\<close>

text \<open>A context whose clock stands still and whose sends succeed, and a freshly initialised socket.\<close>

definition still_ctx :: utp_context where
  "still_ctx =
     \<lparr>sockets = [], ack_list = [], rst_infos = [], ctx_target_delay = CCONTROL_TARGET,
      ctx_opt_sndbuf = DEFAULT_BUF, ctx_opt_rcvbuf = DEFAULT_BUF, current_ms = 1000, last_check = 0,
      ctx_clock = \<lparr>clk_elapsed = (\<lambda>_. 0), clk_reads = 0\<rparr>, ctx_rng = Rng 0,
      ctx_transport = \<lparr>tr_send_result = (\<lambda>_. None), tr_sent = []\<rparr>,
      cells = (\<lambda>_. ConnShared_new (SocketAddrV4 0x7f000001 4000)), next_cell = 1\<rparr>"

definition still_sock :: utp_sock where
  "still_sock =
     (let s = mtu_reset 1000 (UtpSock_new still_ctx (SocketAddrV4 0x7f000001 4000) 0);
          s1 = s\<lparr>mtu_last := mtu_ceiling s, sock_state := Connected\<rparr>
      in s1\<lparr>max_window := get_packet_size s1\<rparr>)"

definition still_eng :: eng where
  "still_eng = \<lparr>sk = still_sock, cx = still_ctx\<rparr>"

lemmas still_defs = still_eng_def still_sock_def still_ctx_def UtpSock_new_def mtu_reset_def get_udp_mtu_def
  UDP_IPV4_MTU_def MTU_FLOOR_MIN_def

section \<open>Properties\<close>



end
