(* ===== verification/Engine_Send.thy ===== *)
theory Engine_Send
  imports Engine_Mtu
begin

unbundle bit_operations_syntax

text \<open>
  The sending half of \<^verbatim>\<open>UtpSock\<close>: putting packets and acknowledgements on the wire, the window check,
  the packetiser behind a write, and closing.
\<close>

section \<open>Acknowledgements\<close>

definition get_rcv_window :: "eng \<Rightarrow> nat" where
  "get_rcv_window e = opt_rcvbuf (sk e) - read_buffer_len (user_cell e)"

text \<open>Returns the stamped buffer too: \<^verbatim>\<open>buf\<close> is borrowed mutably.\<close>

definition send_data :: "bytes \<Rightarrow> eng \<Rightarrow> bytes \<times> eng" where
  "send_data buf e =
     (let (time, e1) = eng_micros e;
          buf1 = set_reply_micro (set_tv_usec buf (ucast time)) (reply_micro (sk e1));
          e2 = e1\<lparr>sk := (sk e1)\<lparr>last_sent_packet := current_ms (cx e1)\<rparr>\<rparr>;
          (r, c) = send_to_addr buf1 (key_addr (sock_key (sk e2))) (cx e2);
          e3 = e2\<lparr>cx := c\<rparr>;
          e4 = (case r of
                  Some k \<Rightarrow> if k = InvalidInput \<or> k = AddrNotAvailable then user_call (on_error k) e3 else e3
                | None \<Rightarrow> e3)
      in (buf1, ack_list_remove e4))"

text \<open>The bit mask of segments received out of order: bit \<open>i\<close> is packet \<open>ack_nr + 2 + i\<close>.\<close>

definition eack_mask :: "utp_sock \<Rightarrow> u32" where
  "eack_mask s =
     (let window = min (14 + 16) (cb_size (inbuf s))
      in fold (\<lambda>i m. if cb_get (inbuf s) (unat (ack_nr s) + i + 2) \<noteq> None then m OR push_bit i 1 else m)
           [0..<window] 0)"

definition ack_packet_bytes :: "utp_sock \<Rightarrow> nat \<Rightarrow> bytes" where
  "ack_packet_bytes s rcv_win =
     (let b = replicate (HEADER_SIZE + 6) 0;
          b = set_version_type b 1 ST_STATE;
          b = set_conn_id b (ucast (conn_id_send s));
          b = set_ack_nr b (ack_nr s);
          b = set_seq_nr b (seq_nr s);
          b = set_window_size b (u32_of_usize rcv_win)
      in if reorder_count s \<noteq> 0 \<and> \<not> got_fin_reached s then
           take HEADER_SIZE (set_ext b 1) @ [0, 4] @ u32_to_le_bytes (eack_mask s)
         else take HEADER_SIZE b)"

definition send_ack :: "eng \<Rightarrow> eng" where
  "send_ack e =
     (let w = get_rcv_window e;
          e1 = e\<lparr>sk := (sk e)\<lparr>last_rcv_win := w\<rparr>\<rparr>
      in ack_list_remove (snd (send_data (ack_packet_bytes (sk e1) w) e1)))"

definition send_keep_alive :: "eng \<Rightarrow> eng" where
  "send_keep_alive e =
     (let e1 = send_ack (e\<lparr>sk := (sk e)\<lparr>ack_nr := ack_nr (sk e) - 1\<rparr>\<rparr>)
      in e1\<lparr>sk := (sk e1)\<lparr>ack_nr := ack_nr (sk e1) + 1\<rparr>\<rparr>)"

section \<open>Sending a queued packet\<close>

text \<open>Whether the packet of \<open>len\<close> bytes about to be sent becomes the MTU probe.\<close>

definition mtu_probe_ok :: "utp_sock \<Rightarrow> outgoing_packet \<Rightarrow> bool" where
  "mtu_probe_ok s p \<longleftrightarrow>
     mtu_floor s < mtu_ceiling s \<and> u32_of_usize (length (pkt_data p)) > mtu_floor s
     \<and> u32_of_usize (length (pkt_data p)) \<le> mtu_ceiling s \<and> mtu_probe_seq s = 0
     \<and> seq_nr s \<noteq> 1 \<and> pkt_transmissions p = 0"

text \<open>The packet enters the window, unless it is there already.\<close>

definition count_transmission :: "outgoing_packet \<Rightarrow> utp_sock \<Rightarrow> utp_sock" where
  "count_transmission p s =
     (if pkt_transmissions p = 0 \<or> pkt_need_resend p
      then s\<lparr>cur_window := cur_window s + pkt_payload p\<rparr> else s)"

text \<open>A due restart of MTU discovery, then the choice of the packet as the probe.\<close>

definition begin_probe :: "u64 \<Rightarrow> outgoing_packet \<Rightarrow> utp_sock \<Rightarrow> utp_sock" where
  "begin_probe cur_time p s =
     (let s1 = (if mtu_discover_time s < cur_time then mtu_reset cur_time s else s)
      in if mtu_probe_ok s1 p
         then s1\<lparr>mtu_probe_seq := ucast (seq_nr s1 - 1),
                 mtu_probe_size := u32_of_usize (length (pkt_data p))\<rparr> else s1)"

definition send_packet_at :: "u16 \<Rightarrow> eng \<Rightarrow> eng" where
  "send_packet_at q e =
     (case cb_take (outbuf (sk e)) (unat q) of
        (None, _) \<Rightarrow> e
      | (Some p, ob) \<Rightarrow>
          (let (cur_time, e1) = eng_millis (e\<lparr>sk := (sk e)\<lparr>outbuf := ob\<rparr>\<rparr>);
               s = count_transmission p (sk e1);
               (time, e2) = eng_micros (e1\<lparr>sk := s\<rparr>);
               p1 = p\<lparr>pkt_need_resend := False, pkt_data := set_ack_nr (pkt_data p) (ack_nr s),
                      pkt_time_sent := time\<rparr>;
               s1 = begin_probe cur_time p1 (sk e2);
               p2 = p1\<lparr>pkt_transmissions := pkt_transmissions p1 + 1\<rparr>;
               (buf, e3) = send_data (pkt_data p2) (e2\<lparr>sk := s1\<rparr>)
           in e3\<lparr>sk := (sk e3)\<lparr>outbuf := cb_put (outbuf (sk e3)) (unat q) (Some (p2\<lparr>pkt_data := buf\<rparr>))\<rparr>\<rparr>))"

section \<open>The window\<close>

definition max_send :: "utp_sock \<Rightarrow> nat" where
  "max_send s = min (min (max_window s) (opt_sndbuf s)) (max_window_user s)"

definition is_full :: "u64 \<Rightarrow> nat option \<Rightarrow> utp_sock \<Rightarrow> bool \<times> utp_sock" where
  "is_full now_ms want s =
     (let packet_size = get_packet_size s;
          n = (case want of None \<Rightarrow> packet_size | Some b \<Rightarrow> min b packet_size)
      in if unat (cur_window_packets s) \<ge> OUTGOING_BUFFER_MAX_SIZE - 1
         then (True, s\<lparr>last_maxed_out_window := now_ms\<rparr>)
         else if cur_window s + n > max_send s
         then (True, s\<lparr>last_maxed_out_window := now_ms\<rparr>)
         else (False, s))"

definition eng_is_full :: "nat option \<Rightarrow> eng \<Rightarrow> bool \<times> eng" where
  "eng_is_full want e =
     (let (b, s) = is_full (current_ms (cx e)) want (sk e) in (b, e\<lparr>sk := s\<rparr>))"

text \<open>No part of sending a packet moves \<open>seq_nr\<close>, which the loop below counts up to.\<close>

lemma eng_clock_sk [simp]: "sk (snd (eng_millis e)) = sk e" "sk (snd (eng_micros e)) = sk e"
  by (simp_all add: eng_millis_def eng_micros_def split_beta)

lemma sk_user_call [simp]: "sk (user_call f e) = sk e"
  by (simp add: user_call_def)

lemma sk_ack_list_remove: "sk (ack_list_remove e) = (sk e)\<lparr>in_ack_list := False\<rparr>"
  by (cases "in_ack_list (sk e)") (simp_all add: ack_list_remove_def)

lemma sk_send_data:
  "sk (snd (send_data b e)) = (sk e)\<lparr>last_sent_packet := current_ms (cx e), in_ack_list := False\<rparr>"
  by (simp add: send_data_def split_beta Let_def sk_ack_list_remove eng_micros_def ctx_micros_def
      split: option.splits)

lemma count_transmission_frame [simp]:
  "outbuf (count_transmission p s) = outbuf s" "seq_nr (count_transmission p s) = seq_nr s"
  "cur_window_packets (count_transmission p s) = cur_window_packets s"
  "fin_sent (count_transmission p s) = fin_sent s" "sock_key (count_transmission p s) = sock_key s"
  by (simp_all add: count_transmission_def)

lemma begin_probe_frame [simp]:
  "outbuf (begin_probe t p s) = outbuf s" "seq_nr (begin_probe t p s) = seq_nr s"
  "cur_window_packets (begin_probe t p s) = cur_window_packets s" "cur_window (begin_probe t p s) = cur_window s"
  "fin_sent (begin_probe t p s) = fin_sent s" "sock_key (begin_probe t p s) = sock_key s"
  by (simp_all add: begin_probe_def mtu_reset_def Let_def)

lemma send_packet_at_seq_nr [simp]: "seq_nr (sk (send_packet_at q e)) = seq_nr (sk e)"
  by (simp add: send_packet_at_def split_beta Let_def sk_send_data split: option.splits)

lemma is_full_seq_nr [simp]: "seq_nr (snd (is_full t w s)) = seq_nr s"
  by (simp add: is_full_def Let_def)

lemma eng_is_full_seq_nr [simp]: "seq_nr (sk (snd (eng_is_full w e))) = seq_nr (sk e)"
  by (simp add: eng_is_full_def split_beta)

lemma flush_measure: "i \<noteq> (n :: u16) \<Longrightarrow> unat (n - (i + 1)) < unat (n - i)"
proof -
  assume "i \<noteq> n"
  then have "n - i \<noteq> 0" by simp
  then have "unat (n - i - 1) < unat (n - i)" by (simp add: unat_minus_one unat_gt_0)
  then show ?thesis by (simp add: diff_diff_add)
qed

text \<open>The loop of \<^verbatim>\<open>flush_packets\<close>: the counter \<open>i\<close> wraps at 16 bits and runs up to \<open>seq_nr\<close>.\<close>

function flush_loop :: "nat \<Rightarrow> u16 \<Rightarrow> eng \<Rightarrow> bool \<times> eng" where
  "flush_loop packet_size i e =
     (if i = seq_nr (sk e) then (False, e)
      else
        (case cb_get (outbuf (sk e)) (unat i) of
           None \<Rightarrow> flush_loop packet_size (i + 1) e
         | Some p \<Rightarrow>
             if pkt_transmissions p = 0 \<or> pkt_need_resend p then
               (let (full, e1) = eng_is_full None e
                in if full then (True, e1)
                   else if i \<noteq> seq_nr (sk e1) - 1 \<or> cur_window_packets (sk e1) = 1
                           \<or> pkt_payload p \<ge> packet_size
                   then flush_loop packet_size (i + 1) (send_packet_at i e1)
                   else flush_loop packet_size (i + 1) e1)
             else flush_loop packet_size (i + 1) e))"
  by pat_completeness auto
termination
proof (relation "measure (\<lambda>(p, i, e). unat (seq_nr (sk e) - i))", goal_cases)
  case (3 p i e a x b y)
  then have "seq_nr (sk y) = seq_nr (sk e)" by (metis eng_is_full_seq_nr snd_conv)
  with 3 show ?case by (simp add: flush_measure)
next
  case (4 p i e a x b y)
  then have "seq_nr (sk y) = seq_nr (sk e)" by (metis eng_is_full_seq_nr snd_conv)
  with 4 show ?case by (simp add: flush_measure)
qed (simp_all add: flush_measure)

declare flush_loop.simps [simp del]

definition flush_packets :: "eng \<Rightarrow> bool \<times> eng" where
  "flush_packets e =
     flush_loop (get_packet_size (sk e)) (seq_nr (sk e) - cur_window_packets (sk e)) e"

section \<open>The packetiser\<close>

text \<open>The last packet of the window, when it has not been sent and has room left.\<close>

definition extend_last :: "nat \<Rightarrow> nat \<Rightarrow> utp_sock \<Rightarrow> outgoing_packet option" where
  "extend_last packet_size payload s =
     (if payload > 0 \<and> cur_window_packets s > 0 then
        (case cb_get (outbuf s) (unat (seq_nr s - 1)) of
           Some p \<Rightarrow> if pkt_transmissions p = 0 \<and> pkt_payload p < packet_size then Some p else None
         | None \<Rightarrow> None)
      else None)"

definition stamp_header :: "u8 \<Rightarrow> u16 \<Rightarrow> u32 \<Rightarrow> u16 \<Rightarrow> bytes \<Rightarrow> bytes" where
  "stamp_header flags conn_id win ack b =
     set_ack_nr (set_window_size (set_conn_id (set_ext (set_version_type b 1 flags) 0) conn_id) win) ack"

text \<open>
  One turn of the loop of \<^verbatim>\<open>write_outgoing_packet\<close>: the bytes taken, the rest of the data and the new
  state. Either the unsent last packet is filled up, or a new packet is queued.
\<close>

definition write_step :: "nat \<Rightarrow> u8 \<Rightarrow> nat \<Rightarrow> bytes \<Rightarrow> eng \<Rightarrow> nat \<times> bytes \<times> eng" where
  "write_step packet_size flags payload data e =
     (let w = get_rcv_window e;
          s = (sk e)\<lparr>last_rcv_win := w\<rparr>;
          stamp = stamp_header flags (ucast (conn_id_send s)) (u32_of_usize w) (ack_nr s)
      in case extend_last packet_size payload s of
           Some p \<Rightarrow>
             (let added = min (payload + pkt_payload p) (max packet_size (pkt_payload p)) - pkt_payload p;
                  n = min added (length data);
                  p1 = p\<lparr>pkt_data := stamp (pkt_data p @ take n data), pkt_payload := pkt_payload p + added\<rparr>
              in (added, drop n data,
                  e\<lparr>sk := s\<lparr>outbuf := cb_put (outbuf s) (unat (seq_nr s - 1)) (Some p1)\<rparr>\<rparr>))
         | None \<Rightarrow>
             (let n = min payload (length data);
                  p1 = \<lparr>pkt_payload = payload, pkt_time_sent = 0, pkt_transmissions = 0,
                        pkt_need_resend = False,
                        pkt_data = set_seq_nr (stamp (replicate HEADER_SIZE 0 @ take n data)) (seq_nr s)\<rparr>;
                  ob = cb_ensure_size (outbuf s) (unat (seq_nr s)) (unat (cur_window_packets s))
              in (payload, drop n data,
                  e\<lparr>sk := s\<lparr>outbuf := cb_put ob (unat (seq_nr s)) (Some p1),
                              seq_nr := seq_nr s + 1,
                              cur_window_packets := cur_window_packets s + 1\<rparr>\<rparr>)))"

lemma write_step_added: "0 < payload \<Longrightarrow> 0 < fst (write_step ps fl payload data e)"
  by (auto simp: write_step_def extend_last_def Let_def split: option.splits if_splits)

lemma drop_min_length: "drop (min k (length xs)) xs = drop k xs"
  by (simp add: min_def)

lemma write_step_rest:
  "fst (snd (write_step ps fl payload data e)) = drop (fst (write_step ps fl payload data e)) data"
  by (simp add: write_step_def Let_def drop_min_length split: option.splits)

lemma write_step_le: "fst (write_step ps fl payload data e) \<le> payload"
  by (auto simp: write_step_def Let_def split: option.splits)

function write_loop :: "nat \<Rightarrow> u8 \<Rightarrow> nat \<Rightarrow> bytes \<Rightarrow> eng \<Rightarrow> bytes \<times> eng" where
  "write_loop packet_size flags payload data e =
     (let (added, data1, e1) = write_step packet_size flags payload data e
      in if payload - added = 0 then (data1, e1)
         else write_loop packet_size flags (payload - added) data1 e1)"
  by pat_completeness auto
termination
proof (relation "measure (\<lambda>(ps, fl, payload, d, e). payload)", goal_cases)
  case (2 ps fl payload d e x added y d1 e1)
  then have "added = fst (write_step ps fl payload d e)" by (metis fst_conv)
  then show ?case using 2 write_step_added [of payload ps fl d e] by simp
qed simp

declare write_loop.simps [simp del]

definition write_outgoing_packet :: "nat \<Rightarrow> u8 \<Rightarrow> bytes \<Rightarrow> eng \<Rightarrow> bytes \<times> eng" where
  "write_outgoing_packet payload flags data e =
     (let e1 = (if cur_window_packets (sk e) = 0
                then e\<lparr>sk := (sk e)\<lparr>retransmit_timeout := rto (sk e),
                                    rto_timeout := current_ms (cx e) + ucast (rto (sk e))\<rparr>\<rparr>
                else e);
          (data1, e2) = write_loop (get_packet_size (sk e1)) flags payload data e1
      in (data1, snd (flush_packets e2)))"

lemma write_loop_rest: "fst (write_loop ps fl payload data e) = drop payload data"
proof (induction ps fl payload data e rule: write_loop.induct)
  case (1 ps fl payload data e)
  obtain added data1 e1 where st: "write_step ps fl payload data e = (added, data1, e1)"
    by (metis prod_cases3)
  have rest: "data1 = drop added data" "added \<le> payload"
    using write_step_rest [of ps fl payload data e] write_step_le [of ps fl payload data e] st by simp_all
  show ?case
  proof (cases "payload - added = 0")
    case True
    with rest st show ?thesis by (subst write_loop.simps) simp
  next
    case False
    then have "fst (write_loop ps fl (payload - added) data1 e1) = drop (payload - added) data1"
      using 1 st by simp
    with False rest st show ?thesis
      by (simp add: write_loop.simps [of ps fl payload data e])
  qed
qed

lemma write_outgoing_packet_rest: "fst (write_outgoing_packet payload fl data e) = drop payload data"
  by (simp add: write_outgoing_packet_def Let_def split_beta write_loop_rest)

section \<open>Writing, draining, closing\<close>

text \<open>
  The loop of \<^verbatim>\<open>write_engine\<close>: the bytes accepted so far, whether the loop ended because the data ran
  out (the early return), and the state.
\<close>

function write_engine_loop :: "nat \<Rightarrow> nat \<Rightarrow> nat \<Rightarrow> bytes \<Rightarrow> eng \<Rightarrow> nat \<times> bool \<times> eng" where
  "write_engine_loop packet_size num_to_send sent remaining e =
     (let (full, e1) = eng_is_full (Some num_to_send) e
      in if full then (sent, False, e1)
         else
           (let (remaining1, e2) = write_outgoing_packet num_to_send ST_DATA remaining e1;
                num1 = min (length remaining1) packet_size
            in if num1 = 0 then (sent + num_to_send, True, e2)
               else write_engine_loop packet_size num1 (sent + num_to_send) remaining1 e2))"
  by pat_completeness auto
termination
proof (relation "measures [\<lambda>(ps, n, st, r, e). length r, \<lambda>(ps, n, st, r, e). if n = 0 then 1 else 0]",
    goal_cases)
  case (2 ps n st r e x full e1 y r1 e2 num1)
  then have "r1 = drop n r" using write_outgoing_packet_rest [of n ST_DATA r e1] by (metis fst_conv)
  moreover from 2 have "num1 \<noteq> 0" "num1 = min (length r1) ps" by simp_all
  ultimately show ?case by auto
qed simp

declare write_engine_loop.simps [simp del]

definition write_engine :: "bytes \<Rightarrow> eng \<Rightarrow> nat \<times> eng" where
  "write_engine buf e =
     (if sock_state (sk e) \<noteq> Connected then (0, e)
      else if fin_sent (sk e) then (0, e)
      else
        (let e1 = set_current_ms e;
             packet_size = get_packet_size (sk e1);
             (sent, finished, e2) =
               write_engine_loop packet_size (min (length buf) packet_size) 0 buf e1
         in if finished then (sent, e2)
            else
              (let (full, e3) = eng_is_full None e2
               in if full then (sent, e3\<lparr>sk := (sk e3)\<lparr>sock_state := ConnectedFull\<rparr>\<rparr>) else (sent, e3))))"

definition read_drained :: "eng \<Rightarrow> eng" where
  "read_drained e =
     (let rcvwin = get_rcv_window e
      in if rcvwin > last_rcv_win (sk e) then
           (if last_rcv_win (sk e) = 0 then send_ack e else schedule_ack (set_current_ms e))
         else e)"

definition close_connected :: "eng \<Rightarrow> eng" where
  "close_connected e =
     (let e1 = e\<lparr>sk := (sk e)\<lparr>read_shutdown := True, close_requested := True\<rparr>\<rparr>
      in if \<not> fin_sent (sk e1) then
           snd (write_outgoing_packet 0 ST_FIN [] (e1\<lparr>sk := (sk e1)\<lparr>fin_sent := True\<rparr>\<rparr>))
         else if fin_sent_acked (sk e1) then e1\<lparr>sk := (sk e1)\<lparr>sock_state := Destroy\<rparr>\<rparr>
         else e1)"

definition close_engine :: "eng \<Rightarrow> eng" where
  "close_engine e =
     (case sock_state (sk e) of
        Connected \<Rightarrow> close_connected e
      | ConnectedFull \<Rightarrow> close_connected e
      | SynSent \<Rightarrow>
          (let (t, e1) = eng_millis e
           in e1\<lparr>sk := (sk e1)\<lparr>rto_timeout := t + ucast (min (rto (sk e1) * 2) 60), sock_state := Destroy\<rparr>\<rparr>)
      | _ \<Rightarrow> e\<lparr>sk := (sk e)\<lparr>sock_state := Destroy\<rparr>\<rparr>)"

end
