(* ===== verification/Float64.thy ===== *)
theory Float64
  imports Complex_Main Prelude "HOL-Library.Log_Nat"
begin

text \<open>
  The \<^verbatim>\<open>f64\<close> arithmetic of the congestion controller. A finite \<^verbatim>\<open>f64\<close> is the rational number it
  denotes, and every operation rounds its exact result to 53 significant bits, ties to even, as
  IEEE 754 prescribes. The controller only forms quotients and products of integers below
  $2^{64}$, so no result overflows or is subnormal, and no division by zero or NaN occurs:
  exponents are unbounded in the model. The lemmas used by the controller: rounding is monotone,
  odd, and exact on integers up to $2^{53}$.
\<close>

section \<open>Rounding\<close>

definition round_half_even :: "rat \<Rightarrow> int" where
  "round_half_even y =
     (let f = \<lfloor>y\<rfloor>; r = y - of_int f
      in if r < 1 / 2 then f else if r > 1 / 2 then f + 1 else if even f then f else f + 1)"

text \<open>The exponent of a positive number: the largest \<open>e\<close> with $2^e \leq x$.\<close>

definition f64_exponent :: "rat \<Rightarrow> int" where
  "f64_exponent x =
     (let (n, d) = quotient_of x; e = bitlen n - bitlen d
      in if 2 powi e \<le> x then e else e - 1)"

definition f64_round :: "rat \<Rightarrow> rat" where
  "f64_round x =
     (if x = 0 then 0
      else let s = 2 powi (52 - f64_exponent \<bar>x\<bar>) in of_int (round_half_even (x * s)) / s)"

definition f64_of_usize :: "nat \<Rightarrow> rat" where "f64_of_usize n = f64_round (of_nat n)"
definition f64_of_i32 :: "int \<Rightarrow> rat" where "f64_of_i32 k = f64_round (of_int k)"
definition f64_add :: "rat \<Rightarrow> rat \<Rightarrow> rat" where "f64_add x y = f64_round (x + y)"
definition f64_mul :: "rat \<Rightarrow> rat \<Rightarrow> rat" where "f64_mul x y = f64_round (x * y)"
definition f64_div :: "rat \<Rightarrow> rat \<Rightarrow> rat" where "f64_div x y = f64_round (x / y)"

text \<open>The cast to \<^verbatim>\<open>usize\<close> truncates towards zero and saturates.\<close>

definition f64_to_usize :: "rat \<Rightarrow> nat" where
  "f64_to_usize x = (if x \<le> 0 then 0 else min (nat \<lfloor>x\<rfloor>) (2 ^ 64 - 1))"

section \<open>Rounding to an integer\<close>

lemma round_half_even_of_int [simp]: "round_half_even (of_int k) = k"
  by (simp add: round_half_even_def)

lemma round_half_even_bounds:
  "\<lfloor>y\<rfloor> \<le> round_half_even y" "round_half_even y \<le> \<lfloor>y\<rfloor> + 1"
  by (simp_all add: round_half_even_def Let_def)

lemma round_half_even_mono: "x \<le> y \<Longrightarrow> round_half_even x \<le> round_half_even y"
proof (cases "\<lfloor>x\<rfloor> = \<lfloor>y\<rfloor>")
  case True
  assume "x \<le> y"
  with True show ?thesis by (auto simp: round_half_even_def Let_def)
next
  case False
  assume "x \<le> y"
  with False have "\<lfloor>x\<rfloor> + 1 \<le> \<lfloor>y\<rfloor>" using floor_mono [of x y] by linarith
  then show ?thesis using round_half_even_bounds(2) [of x] round_half_even_bounds(1) [of y] by linarith
qed

lemma round_half_even_uminus: "round_half_even (- y) = - round_half_even y"
proof (cases "of_int \<lfloor>y\<rfloor> = y")
  case True
  then show ?thesis by (metis of_int_minus round_half_even_of_int)
next
  case False
  then have "\<lfloor>- y\<rfloor> = - \<lfloor>y\<rfloor> - 1" by (simp add: floor_minus ceiling_altdef)
  then show ?thesis by (auto simp: round_half_even_def Let_def)
qed

section \<open>The exponent\<close>

lemma f64_exponent_spec:
  assumes "0 < x"
  shows "2 powi f64_exponent x \<le> x" and "x < 2 powi (f64_exponent x + 1)"
proof -
  obtain n d where q: "quotient_of x = (n, d)" by (cases "quotient_of x")
  then have d: "0 < d" and x: "x = of_int n / of_int d"
    by (auto intro: quotient_of_denom_pos quotient_of_div)
  then have n: "0 < n" using assms by (simp add: zero_less_divide_iff)
  have pow: "(of_int (2 ^ nat k) :: rat) = 2 powi k" if "0 \<le> k" for k
    using that by (simp add: power_int_def)
  have pos: "0 < bitlen n" "0 < bitlen d"
    using bitlen_bounds [OF n] bitlen_bounds [OF d] n d by (auto simp: not_less dest: leI intro: ccontr)
  have nb: "2 powi (bitlen n - 1) \<le> (of_int n :: rat)" "(of_int n :: rat) < 2 powi bitlen n"
    using bitlen_bounds [OF n] pos pow [of "bitlen n - 1"] pow [of "bitlen n"]
    by (metis (no_types, lifting) of_int_le_iff zle_diff1_eq diff_ge_0_iff_ge int_one_le_iff_zero_less
        of_int_less_iff order_less_imp_le)+
  have db: "2 powi (bitlen d - 1) \<le> (of_int d :: rat)" "(of_int d :: rat) < 2 powi bitlen d"
    using bitlen_bounds [OF d] pos pow [of "bitlen d - 1"] pow [of "bitlen d"]
    by (metis (no_types, lifting) of_int_le_iff zle_diff1_eq diff_ge_0_iff_ge int_one_le_iff_zero_less
        of_int_less_iff order_less_imp_le)+
  have d': "0 < (of_int d :: rat)" using d by simp
  have "2 powi (bitlen n - bitlen d - 1) = (2 powi (bitlen n - 1) / 2 powi bitlen d :: rat)"
    by (simp add: power_int_diff)
  also have "\<dots> \<le> x" unfolding x using nb db d' n by (intro frac_le) (auto simp: less_imp_le)
  finally have lo: "2 powi (bitlen n - bitlen d - 1) \<le> x" .
  have "x < 2 powi bitlen n / 2 powi (bitlen d - 1)"
    unfolding x using nb db d' n by (intro frac_less) auto
  also have "\<dots> = 2 powi (bitlen n - bitlen d + 1)" by (simp add: power_int_diff power_int_add)
  finally have hi: "x < 2 powi (bitlen n - bitlen d + 1)" .
  show "2 powi f64_exponent x \<le> x" using lo by (simp add: f64_exponent_def q Let_def)
  show "x < 2 powi (f64_exponent x + 1)" using hi by (simp add: f64_exponent_def q Let_def)
qed

lemma powi2_mono: "a \<le> b \<Longrightarrow> (2 :: rat) powi a \<le> 2 powi b"
  by (rule power_int_increasing) simp_all

lemma f64_exponent_mono:
  assumes "0 < x" and "x \<le> y"
  shows "f64_exponent x \<le> f64_exponent y"
proof (rule ccontr)
  assume "\<not> f64_exponent x \<le> f64_exponent y"
  then have "(2 :: rat) powi (f64_exponent y + 1) \<le> 2 powi f64_exponent x"
    by (intro powi2_mono) simp
  with f64_exponent_spec(1) [OF assms(1)] f64_exponent_spec(2) [of y] assms show False by simp
qed

section \<open>Properties of rounding\<close>

lemma f64_round_0 [simp]: "f64_round 0 = 0"
  by (simp add: f64_round_def)

lemma f64_round_uminus: "f64_round (- x) = - f64_round x"
  by (simp add: f64_round_def Let_def round_half_even_uminus)

lemma f64_round_pos_bounds:
  assumes "0 < x"
  shows "2 powi f64_exponent x \<le> f64_round x" and "f64_round x \<le> 2 powi (f64_exponent x + 1)"
proof -
  let ?e = "f64_exponent x" and ?s = "2 powi (52 - f64_exponent x) :: rat"
  have s: "0 < ?s" by simp
  have rnd: "f64_round x = of_int (round_half_even (x * ?s)) / ?s"
    using assms by (simp add: f64_round_def Let_def)
  have p: "2 powi ?e * ?s = of_int (2 ^ 52)" "2 powi (?e + 1) * ?s = of_int (2 ^ 53)"
    by (simp_all flip: power_int_add)
  have "2 powi ?e * ?s \<le> x * ?s" "x * ?s \<le> 2 powi (?e + 1) * ?s"
    using f64_exponent_spec [OF assms] s by (simp_all add: less_imp_le)
  then have "2 ^ 52 \<le> round_half_even (x * ?s)" "round_half_even (x * ?s) \<le> 2 ^ 53"
    unfolding p by (metis round_half_even_mono round_half_even_of_int)+
  then have "of_int (2 ^ 52) \<le> (of_int (round_half_even (x * ?s)) :: rat)"
    "(of_int (round_half_even (x * ?s)) :: rat) \<le> of_int (2 ^ 53)"
    by (simp_all only: of_int_le_iff)
  then show "2 powi ?e \<le> f64_round x" "f64_round x \<le> 2 powi (?e + 1)"
    unfolding rnd p [symmetric] using s by (simp_all add: field_simps)
qed

lemma f64_round_nonneg: "0 \<le> x \<Longrightarrow> 0 \<le> f64_round x"
  using f64_round_pos_bounds(1) [of x] by (cases "x = 0") (auto intro: order_trans [rotated])

lemma f64_round_mono_pos:
  assumes "0 < x" and "x \<le> y"
  shows "f64_round x \<le> f64_round y"
proof (cases "f64_exponent x = f64_exponent y")
  case True
  let ?s = "2 powi (52 - f64_exponent y) :: rat"
  have "round_half_even (x * ?s) \<le> round_half_even (y * ?s)"
    using assms by (intro round_half_even_mono mult_right_mono) simp_all
  then show ?thesis
    using assms True by (simp add: f64_round_def Let_def divide_right_mono)
next
  case False
  then have "f64_exponent x + 1 \<le> f64_exponent y" using f64_exponent_mono [OF assms] by simp
  then have "(2 :: rat) powi (f64_exponent x + 1) \<le> 2 powi f64_exponent y" by (rule powi2_mono)
  then show ?thesis
    using f64_round_pos_bounds(2) [OF assms(1)] f64_round_pos_bounds(1) [of y] assms by simp
qed

lemma f64_round_mono: "x \<le> y \<Longrightarrow> f64_round x \<le> f64_round y"
proof -
  assume le: "x \<le> y"
  consider "0 < x" | "x \<le> 0" "0 \<le> y" | "y < 0" using le by linarith
  then show ?thesis
  proof cases
    case 1
    then show ?thesis using le by (rule f64_round_mono_pos)
  next
    case 2
    then show ?thesis
      using f64_round_nonneg [of y] f64_round_nonneg [of "- x"] by (simp add: f64_round_uminus)
  next
    case 3
    then show ?thesis
      using le f64_round_mono_pos [of "- y" "- x"] by (simp add: f64_round_uminus)
  qed
qed

lemma f64_round_int_pos:
  assumes "0 < k" and "k \<le> 2 ^ 53"
  shows "f64_round (of_int k) = of_int k"
proof -
  let ?x = "of_int k :: rat"
  have pos: "0 < ?x" using assms by simp
  show ?thesis
  proof (cases "f64_exponent ?x \<le> 52")
    case True
    let ?n = "nat (52 - f64_exponent ?x)"
    have s: "(2 powi (52 - f64_exponent ?x) :: rat) = of_int (2 ^ ?n)"
      using True by (simp add: power_int_def)
    have "?x * of_int (2 ^ ?n) = of_int (k * 2 ^ ?n)" by simp
    then have "round_half_even (?x * of_int (2 ^ ?n)) = k * 2 ^ ?n"
      by (simp only: round_half_even_of_int)
    then show ?thesis using assms by (simp add: f64_round_def Let_def s)
  next
    case False
    then have "(2 :: rat) powi 53 \<le> 2 powi f64_exponent ?x" by (intro powi2_mono) simp
    also have "\<dots> \<le> ?x" by (rule f64_exponent_spec(1) [OF pos])
    finally have "(of_int (2 ^ 53) :: rat) \<le> ?x" by simp
    then have "k = 2 ^ 53" using assms by (simp only: of_int_le_iff)
    moreover have "f64_round (of_int (2 ^ 53)) = of_int (2 ^ 53)" by code_simp
    ultimately show ?thesis by simp
  qed
qed

lemma f64_round_int: "\<bar>k\<bar> \<le> 2 ^ 53 \<Longrightarrow> f64_round (of_int k) = of_int k"
  using f64_round_int_pos [of k] f64_round_int_pos [of "- k"] f64_round_uminus [of "of_int k"]
  by (cases "0 < k"; cases "k = 0") (auto simp: abs_if split: if_splits)

lemma f64_of_usize_exact [simp]: "n \<le> 2 ^ 53 \<Longrightarrow> f64_of_usize n = of_nat n"
  using f64_round_int [of "int n"] by (simp add: f64_of_usize_def)

lemma f64_of_i32_exact: "\<bar>k\<bar> \<le> 2 ^ 53 \<Longrightarrow> f64_of_i32 k = of_int k"
  by (simp add: f64_of_i32_def f64_round_int)

lemma f64_round_le_int: "x \<le> of_int k \<Longrightarrow> \<bar>k\<bar> \<le> 2 ^ 53 \<Longrightarrow> f64_round x \<le> of_int k"
  by (metis f64_round_int f64_round_mono)

lemma f64_round_ge_int: "of_int k \<le> x \<Longrightarrow> \<bar>k\<bar> \<le> 2 ^ 53 \<Longrightarrow> of_int k \<le> f64_round x"
  by (metis f64_round_int f64_round_mono)

lemma f64_to_usize_le: "x \<le> of_nat n \<Longrightarrow> f64_to_usize x \<le> n"
proof (cases "x \<le> 0")
  case False
  assume "x \<le> of_nat n"
  then have "\<lfloor>x\<rfloor> \<le> int n" using floor_mono [of x "of_nat n"] by simp
  then show ?thesis using False by (simp add: f64_to_usize_def)
qed (simp add: f64_to_usize_def)

lemma f64_exponent_powi: "f64_exponent (2 powi e) = e"
proof -
  let ?x = "2 powi e :: rat"
  have "0 < ?x" by simp
  note sp = f64_exponent_spec [OF this]
  have "f64_exponent ?x \<le> e"
  proof (rule ccontr)
    assume "\<not> f64_exponent ?x \<le> e"
    then have "?x < 2 powi f64_exponent ?x" by (intro power_int_strict_increasing) simp_all
    with sp(1) show False by simp
  qed
  moreover have "e \<le> f64_exponent ?x"
  proof (rule ccontr)
    assume "\<not> e \<le> f64_exponent ?x"
    then have "2 powi (f64_exponent ?x + 1) \<le> ?x" by (intro powi2_mono) simp
    with sp(2) show False by simp
  qed
  ultimately show ?thesis by simp
qed

lemma f64_round_powi: "f64_round (2 powi e) = 2 powi e"
proof -
  have "(2 :: rat) powi e * 2 powi (52 - e) = of_int (2 ^ 52)"
    by (simp add: power_int_diff)
  then have "f64_round (2 powi e) = of_int (2 ^ 52) / 2 powi (52 - e)"
    unfolding f64_round_def Let_def by (simp add: f64_exponent_powi del: of_int_power of_int_numeral)
  then show ?thesis by (simp add: power_int_diff)
qed

text \<open>Halving in floating point never rounds up past the number itself.\<close>

lemma f64_half_le: "f64_to_usize (f64_mul (f64_of_usize n) (1 / 2)) \<le> n"
proof (cases "n = 0")
  case False
  then have pos: "0 < (of_nat n :: rat)" by simp
  let ?e = "f64_exponent (of_nat n)"
  have "f64_of_usize n \<le> 2 powi (?e + 1)"
    unfolding f64_of_usize_def by (rule f64_round_pos_bounds(2) [OF pos])
  then have "f64_of_usize n * (1 / 2) \<le> 2 powi ?e" by (simp add: power_int_add)
  then have "f64_mul (f64_of_usize n) (1 / 2) \<le> 2 powi ?e"
    unfolding f64_mul_def by (metis f64_round_mono f64_round_powi)
  also have "\<dots> \<le> of_nat n" by (rule f64_exponent_spec(1) [OF pos])
  finally show ?thesis by (rule f64_to_usize_le)
qed (simp add: f64_of_usize_def f64_mul_def f64_to_usize_def)

section \<open>Halving\<close>

lemma powi2_Suc: "(2 :: rat) powi (k + 1) = 2 * 2 powi k"
  by (simp add: power_int_add)

lemma f64_exponent_half:
  assumes "0 < x"
  shows "f64_exponent (x / 2) = f64_exponent x - 1"
proof -
  have h: "0 < x / 2" using assms by simp
  note a = f64_exponent_spec [OF assms] and b = f64_exponent_spec [OF h]
  let ?e = "f64_exponent x" and ?f = "f64_exponent (x / 2)"
  have "(2 :: rat) powi (?f + 1) < 2 powi (?e + 1)" using a(2) b(1) by (simp add: powi2_Suc)
  then have "?f < ?e" using powi2_mono [of "?e + 1" "?f + 1"] by linarith
  moreover have "(2 :: rat) powi ?e < 2 * 2 powi (?f + 1)" using a(1) b(2) by linarith
  then have "(2 :: rat) powi ?e < 2 powi (?f + 1 + 1)" by (simp only: powi2_Suc)
  then have "?e < ?f + 2" using powi2_mono [of "?f + 1 + 1" "?e"] by linarith
  ultimately show ?thesis by simp
qed

lemma f64_round_half:
  assumes "0 < x"
  shows "f64_round (x / 2) = f64_round x / 2"
proof -
  have "(2 :: rat) powi (52 - (f64_exponent x - 1)) = 2 * 2 powi (52 - f64_exponent x)"
    using powi2_Suc [of "52 - f64_exponent x"] by (simp add: algebra_simps)
  then show ?thesis using assms by (simp add: f64_round_def Let_def f64_exponent_half abs_if)
qed

lemma half_window:
  assumes "n \<le> 2 ^ 53"
  shows "f64_to_usize (f64_mul (f64_of_usize n) (1 / 2)) = n div 2"
proof (cases "n = 0")
  case False
  have eq: "f64_mul (f64_of_usize n) (1 / 2) = of_nat n / 2"
    using assms False f64_round_half [of "of_nat n"] f64_of_usize_exact [OF assms]
    by (simp add: f64_mul_def f64_of_usize_def)
  have "\<lfloor>of_nat n / (2 :: rat)\<rfloor> = int (n div 2)"
    using floor_divide_of_nat_eq [of n 2, where ?'a = rat] by simp
  moreover have "n div 2 \<le> 2 ^ 64 - 1" using assms by simp
  ultimately show ?thesis unfolding eq using False by (simp add: f64_to_usize_def)
qed (simp add: f64_mul_def f64_of_usize_def f64_to_usize_def)

end
