(* ===== verification/Engine_Ack.thy ===== *)
theory Engine_Ack
  imports Engine_Send Float64
begin

unbundle bit_operations_syntax

text \<open>
  How \<^verbatim>\<open>UtpSock\<close> takes acknowledgements: retiring a packet and updating the round-trip estimate,
  selective acknowledgement and fast resend, and the LEDBAT congestion controller.
\<close>

section \<open>Retiring a packet\<close>

text \<open>The estimate after a sample of \<open>ertt\<close> milliseconds from a packet sent once.\<close>

definition update_rtt :: "u32 \<Rightarrow> u64 \<Rightarrow> utp_sock \<Rightarrow> utp_sock" where
  "update_rtt ertt now_ms s =
     (let s1 =
        (if rtt s = 0 then s\<lparr>rtt := ertt, rtt_var := ertt div 2\<rparr>
         else
           (let delta = as_i32 (sint (rtt s) - sint ertt);
                var = sint (rtt_var s);
                var1 = as_i32 (var + rust_div (as_i32 (as_i32 \<bar>delta\<bar> - var)) 4)
            in s\<lparr>rtt_var := word_of_int var1, rtt := rtt s - rtt s div 8 + ertt div 8,
                 rtt_hist := dh_add_sample ertt now_ms (rtt_hist s)\<rparr>))
      in s1\<lparr>rto := max (rtt s1 + rtt_var s1 * 4) 1000\<rparr>)"

definition ack_packet :: "u16 \<Rightarrow> eng \<Rightarrow> ack_result \<times> eng" where
  "ack_packet q e =
     (case cb_get (outbuf (sk e)) (unat q) of
        None \<Rightarrow> (AlreadyAcked, e)
      | Some p \<Rightarrow>
          if pkt_transmissions p = 0 then (NotSent, e)
          else
            (let e1 = e\<lparr>sk := (sk e)\<lparr>outbuf := snd (cb_take (outbuf (sk e)) (unat q))\<rparr>\<rparr>;
                 e2 = (if pkt_transmissions p = 1 then
                         (let (t, e') = eng_micros e1;
                              ertt = ucast ((t - pkt_time_sent p) div 1000)
                          in e'\<lparr>sk := update_rtt ertt (current_ms (cx e')) (sk e')\<rparr>)
                       else e1);
                 s = sk e2;
                 s1 = s\<lparr>retransmit_timeout := rto s, rto_timeout := current_ms (cx e2) + ucast (rto s)\<rparr>;
                 s2 = (if pkt_need_resend p then s1
                       else s1\<lparr>cur_window := usize_sub (cur_window s1) (pkt_payload p)\<rparr>)
             in (Acked, e2\<lparr>sk := s2\<lparr>retransmit_count := 0\<rparr>\<rparr>)))"

section \<open>Selective acknowledgement\<close>

text \<open>
  Bit \<open>bits\<close> of the mask stands for packet \<open>base + bits\<close>; the loops run from the highest bit down to
  -1. A packet counts when it lies in the window, the oldest packet excepted.
\<close>

definition sack_seq :: "u16 \<Rightarrow> int \<Rightarrow> u16" where
  "sack_seq base bits = base + word_of_int bits"

definition sack_skip :: "utp_sock \<Rightarrow> u16 \<Rightarrow> bool" where
  "sack_skip s v \<longleftrightarrow> unat (seq_nr s - v - 1) \<ge> unat (cur_window_packets s) - 1"

definition mask_bit :: "bytes \<Rightarrow> int \<Rightarrow> bool" where
  "mask_bit msk bits \<longleftrightarrow> bit (msk ! nat (bits div 8)) (nat (bits mod 8))"

definition packet_age :: "u64 \<Rightarrow> u64 \<Rightarrow> int" where
  "packet_age now time_sent = (if time_sent < now then sint (now - time_sent) else 50000)"

definition sack_bytes_step ::
  "utp_sock \<Rightarrow> u64 \<Rightarrow> u16 \<Rightarrow> bytes \<Rightarrow> int \<Rightarrow> nat \<times> int \<Rightarrow> nat \<times> int"
where
  "sack_bytes_step s now base msk bits acc =
     (let v = sack_seq base bits
      in if sack_skip s v then acc
         else
           (case cb_get (outbuf s) (unat v) of
              None \<Rightarrow> acc
            | Some p \<Rightarrow>
                if pkt_transmissions p > 0 \<and> 0 \<le> bits \<and> bits < int (length msk) * 8 \<and> mask_bit msk bits
                then (fst acc + pkt_payload p, min (snd acc) (packet_age now (pkt_time_sent p)))
                else acc))"

definition selective_ack_bytes :: "u16 \<Rightarrow> bytes \<Rightarrow> int \<Rightarrow> eng \<Rightarrow> nat \<times> int \<times> eng" where
  "selective_ack_bytes base msk min_rtt e =
     (if cur_window_packets (sk e) = 0 then (0, min_rtt, e)
      else
        (let (now, e1) = eng_micros e;
             (acked, m) = fold (sack_bytes_step (sk e1) now base msk)
                            (rev [-1..int (length msk) * 8]) (0, min_rtt)
         in (acked, m, e1)))"

definition can_decay_win :: "int \<Rightarrow> utp_sock \<Rightarrow> bool" where
  "can_decay_win msec s \<longleftrightarrow> as_i64 (msec - last_rwin_decay s) \<ge> MAX_WINDOW_DECAY"

definition maybe_decay_win :: "u64 \<Rightarrow> utp_sock \<Rightarrow> utp_sock" where
  "maybe_decay_win now_ms s =
     (if can_decay_win (sint now_ms) s then
        (let w = f64_to_usize (f64_mul (f64_of_usize (max_window s)) (1 / 2));
             w1 = (if w < MIN_WINDOW_SIZE then MIN_WINDOW_SIZE else w)
         in s\<lparr>max_window := w1, last_rwin_decay := sint now_ms, slow_start := False, ssthresh := w1\<rparr>)
      else s)"

text \<open>
  One bit of \<^verbatim>\<open>selective_ack\<close>. The state of the loop: the count of bits set, the stack of packets to
  resend (its top is the last element) and the engine.
\<close>

definition sack_step ::
  "u16 \<Rightarrow> bytes \<Rightarrow> int \<Rightarrow> u32 \<times> u16 list \<times> eng \<Rightarrow> u32 \<times> u16 list \<times> eng"
where
  "sack_step base msk bits st =
     (let (count, resends, e) = st; v = sack_seq base bits
      in if sack_skip (sk e) v then st
         else
           (let bit_set = (0 \<le> bits \<and> mask_bit msk bits);
                count = (if bit_set then count + 1 else count);
                sent = (case cb_get (outbuf (sk e)) (unat v) of None \<Rightarrow> False | Some p \<Rightarrow> pkt_transmissions p > 0)
            in if \<not> sent then (count, resends, e)
               else if bit_set then (count, resends, snd (ack_packet v e))
               else if unat (v - fast_resend_seq_nr (sk e)) \<le> OUTGOING_BUFFER_MAX_SIZE
                       \<and> count \<ge> DUPLICATE_ACKS_BEFORE_RESEND
               then (let rs = (if length resends \<ge> MAX_EACK - 2 then drop (MAX_EACK div 2) resends else resends)
                     in (count, rs @ [v], e))
               else (count, resends, e)))"

text \<open>The resend loop pops the stack; the list here has its top first. At most four packets.\<close>

fun sack_resend :: "nat \<Rightarrow> u16 list \<Rightarrow> bool \<Rightarrow> eng \<Rightarrow> bool \<times> eng" where
  "sack_resend i [] back_off e = (back_off, e)"
| "sack_resend i (v # vs) back_off e =
     (if cb_get (outbuf (sk e)) (unat v) = None then sack_resend i vs back_off e
      else
        (let e1 = send_packet_at v e;
             e2 = e1\<lparr>sk := (sk e1)\<lparr>fast_resend_seq_nr := v + 1\<rparr>\<rparr>
         in if i + 1 \<ge> 4 then (True, e2) else sack_resend (i + 1) vs True e2))"

definition selective_ack :: "u16 \<Rightarrow> bytes \<Rightarrow> eng \<Rightarrow> eng" where
  "selective_ack base msk e =
     (if cur_window_packets (sk e) = 0 then e
      else
        (let (count, resends, e1) =
               fold (sack_step base msk) (rev [-1..int (length msk) * 8 - 1]) (0, [], e);
             resends1 =
               (if unat (base - 1 - fast_resend_seq_nr (sk e1)) \<le> OUTGOING_BUFFER_MAX_SIZE
                   \<and> count \<ge> DUPLICATE_ACKS_BEFORE_RESEND
                then resends @ [base - 1] else resends);
             (back_off, e2) = sack_resend 0 (rev resends1) False e1;
             e3 = (if back_off then e2\<lparr>sk := maybe_decay_win (current_ms (cx e2)) (sk e2)\<rparr> else e2)
         in e3\<lparr>sk := (sk e3)\<lparr>duplicate_ack := ucast count\<rparr>\<rparr>))"

section \<open>Congestion control\<close>

definition cc_target :: "utp_sock \<Rightarrow> int" where
  "cc_target s = (let t = as_i32 (int (target_delay s)) in if t \<le> 0 then 100000 else t)"

definition cc_our_delay :: "int \<Rightarrow> utp_sock \<Rightarrow> int" where
  "cc_our_delay min_rtt s =
     (let d = as_i32 (sint (min (ucast (dh_get_value (our_hist s))) (word_of_int min_rtt) :: u64))
      in if clock_drift s < - 200000
         then as_i32 (d + rust_div (as_i32 (as_i32 (- clock_drift s) - 200000)) 7) else d)"

definition cc_window_factor :: "nat \<Rightarrow> utp_sock \<Rightarrow> rat" where
  "cc_window_factor bytes_acked s =
     f64_div (f64_of_usize (min bytes_acked (max_window s))) (f64_of_usize (max (max_window s) bytes_acked))"

definition cc_scaled_gain :: "u64 \<Rightarrow> nat \<Rightarrow> int \<Rightarrow> utp_sock \<Rightarrow> rat" where
  "cc_scaled_gain now_ms bytes_acked min_rtt s =
     (let target = cc_target s;
          off_target = f64_of_i32 (as_i32 (target - cc_our_delay min_rtt s));
          delay_factor = f64_div off_target (f64_of_i32 target);
          gain = f64_mul (f64_mul (f64_of_usize MAX_CWND_INCREASE_BYTES_PER_RTT)
                   (cc_window_factor bytes_acked s)) delay_factor
      in if gain > 0 \<and> now_ms - last_maxed_out_window s > 1000 then 0 else gain)"

definition ledbat_cwnd :: "u64 \<Rightarrow> nat \<Rightarrow> int \<Rightarrow> utp_sock \<Rightarrow> nat" where
  "ledbat_cwnd now_ms bytes_acked min_rtt s =
     (let w = f64_add (f64_of_usize (max_window s)) (cc_scaled_gain now_ms bytes_acked min_rtt s)
      in if w < f64_of_usize MIN_WINDOW_SIZE then MIN_WINDOW_SIZE else f64_to_usize w)"

definition ss_cwnd :: "nat \<Rightarrow> utp_sock \<Rightarrow> nat" where
  "ss_cwnd bytes_acked s =
     f64_to_usize (f64_add (f64_of_usize (max_window s))
       (f64_mul (cc_window_factor bytes_acked s) (f64_of_usize (get_packet_size s))))"

text \<open>\<^verbatim>\<open>usize::clamp\<close> panics when its bounds are crossed.\<close>

definition usize_clamp :: "nat \<Rightarrow> nat \<Rightarrow> nat \<Rightarrow> nat option" where
  "usize_clamp lo hi x = (if lo \<le> hi then Some (max lo (min hi x)) else None)"

definition apply_ccontrol :: "u64 \<Rightarrow> nat \<Rightarrow> int \<Rightarrow> utp_sock \<Rightarrow> utp_sock option" where
  "apply_ccontrol now_ms bytes_acked min_rtt s =
     (let target = cc_target s;
          our_delay = cc_our_delay min_rtt s;
          lb = ledbat_cwnd now_ms bytes_acked min_rtt s;
          s1 =
            (if slow_start s then
               (let ss = ss_cwnd bytes_acked s
                in if ss > ssthresh s then s\<lparr>slow_start := False\<rparr>
                   else if f64_of_i32 our_delay > f64_mul (f64_of_i32 target) (f64_round (9 / 10))
                   then s\<lparr>slow_start := False, ssthresh := max_window s\<rparr>
                   else s\<lparr>max_window := max ss lb\<rparr>)
             else s\<lparr>max_window := lb\<rparr>)
      in map_option (\<lambda>w. s1\<lparr>max_window := w\<rparr>)
           (usize_clamp MIN_WINDOW_SIZE (opt_sndbuf s1) (max_window s1)))"

end
