(* ===== verification/Engine_Incoming.thy ===== *)
theory Engine_Incoming
  imports Engine_Ack
begin

unbundle bit_operations_syntax

text \<open>
  \<^verbatim>\<open>UtpSock::process_incoming\<close>, the handler of one datagram for an existing connection. The source is
  one long function; the model has one definition per block of it, in the same order, and
  \<open>process_incoming\<close> composes them with the same early returns. \<open>None\<close> is a panic.
\<close>

section \<open>Acceptance of the acknowledgement number\<close>

definition bad_ack :: "u8 \<Rightarrow> u16 \<Rightarrow> utp_sock \<Rightarrow> bool" where
  "bad_ack flags pk_ack s \<longleftrightarrow>
     (let curr_window = max (cur_window_packets s + ACK_NR_ALLOWED_WINDOW) ACK_NR_ALLOWED_WINDOW
      in (flags \<noteq> ST_SYN \<or> sock_state s \<noteq> SynRecv)
         \<and> (wrapping_compare_less (ucast (seq_nr s - 1)) (ucast pk_ack) ACK_NR_MASK
            \<or> wrapping_compare_less (ucast pk_ack) (ucast (seq_nr s - 1 - curr_window)) ACK_NR_MASK))"

section \<open>Extension headers\<close>

text \<open>
  The loop over the extension headers. The result is the socket, whose \<open>extensions\<close> may have been
  set, and \<open>None\<close> for a malformed chain (the early return), or where the payload starts and where
  the selective acknowledgement lies.
\<close>

function ext_loop ::
  "bytes \<Rightarrow> nat \<Rightarrow> u8 \<Rightarrow> (nat \<times> nat) option \<Rightarrow> utp_sock \<Rightarrow> utp_sock \<times> (nat \<times> (nat \<times> nat) option) option"
where
  "ext_loop buf data_start extension selack s =
     (let ds = data_start + 2
      in if ds > length buf then (s, None)
         else
           (let elen = unat (buf ! (ds - 1))
            in if length buf - ds < elen then (s, None)
               else if extension = 2 \<and> elen \<noteq> 8 then (s, None)
               else
                 (let selack1 = (if extension = 1 then Some (ds, elen) else selack);
                      s1 = (if extension = 2 then s\<lparr>extensions := take 8 (drop ds buf)\<rparr> else s);
                      extension1 = buf ! (ds - 2)
                  in if extension1 = 0 then (s1, Some (ds + elen, selack1))
                     else ext_loop buf (ds + elen) extension1 selack1 s1)))"
  by pat_completeness auto
termination
  by (relation "measure (\<lambda>(buf, ds, ext, sel, s). length buf - ds)") auto

declare ext_loop.simps [simp del]

definition parse_extensions ::
  "bytes \<Rightarrow> u8 \<Rightarrow> utp_sock \<Rightarrow> utp_sock \<times> (nat \<times> (nat \<times> nat) option) option"
where
  "parse_extensions buf ext s =
     (if HEADER_SIZE > length buf then (s, None)
      else if ext = 0 then (s, Some (HEADER_SIZE, None))
      else ext_loop buf HEADER_SIZE ext None s)"

section \<open>Counting acknowledgements\<close>

definition count_acks :: "u16 \<Rightarrow> utp_sock \<Rightarrow> u16" where
  "count_acks pk_ack s =
     (let acks = pk_ack - (seq_nr s - 1 - cur_window_packets s)
      in if acks > cur_window_packets s then 0 else acks)"

definition dup_ack_update :: "u8 \<Rightarrow> u16 \<Rightarrow> eng \<Rightarrow> eng" where
  "dup_ack_update flags pk_ack e =
     (let s = sk e
      in if cur_window_packets s > 0 then
           (if pk_ack = seq_nr s - cur_window_packets s - 1 \<and> flags = ST_STATE then
              (let s1 = s\<lparr>duplicate_ack := duplicate_ack s + 1\<rparr>
               in if ucast (duplicate_ack s1) = DUPLICATE_ACKS_BEFORE_RESEND \<and> mtu_probe_seq s1 \<noteq> 0 then
                    (if ucast pk_ack = (mtu_probe_seq s1 - 1) AND ACK_NR_MASK
                     then mtu_search_update (e\<lparr>sk := s1\<lparr>mtu_ceiling := mtu_probe_size s1 - 1\<rparr>\<rparr>)
                     else e\<lparr>sk := s1\<lparr>mtu_probe_seq := 0, mtu_probe_size := 0\<rparr>\<rparr>)
                  else e\<lparr>sk := s1\<rparr>)
            else e\<lparr>sk := s\<lparr>duplicate_ack := 0\<rparr>\<rparr>)
         else e)"

definition count_acked_step :: "u64 \<Rightarrow> nat \<Rightarrow> nat \<times> int \<times> eng \<Rightarrow> nat \<times> int \<times> eng" where
  "count_acked_step now i st =
     (let (acked, min_rtt, e) = st;
          q = seq_nr (sk e) - cur_window_packets (sk e) + of_nat i
      in case cb_get (outbuf (sk e)) (unat q) of
           None \<Rightarrow> st
         | Some p \<Rightarrow>
             if pkt_transmissions p > 0 then
               (let e1 = (if mtu_probe_seq (sk e) \<noteq> 0 \<and> ucast q = mtu_probe_seq (sk e)
                          then mtu_search_update (e\<lparr>sk := (sk e)\<lparr>mtu_floor := mtu_probe_size (sk e)\<rparr>\<rparr>)
                          else e)
                in (acked + pkt_payload p, min min_rtt (packet_age now (pkt_time_sent p)), e1))
             else st)"

definition count_acked :: "u16 \<Rightarrow> u64 \<Rightarrow> eng \<Rightarrow> nat \<times> int \<times> eng" where
  "count_acked acks now e = fold (count_acked_step now) [0..<unat acks] (0, 2 ^ 63 - 1, e)"

section \<open>Delay measurement\<close>

definition their_delay_update :: "u64 \<Rightarrow> u32 \<Rightarrow> u64 \<Rightarrow> utp_sock \<Rightarrow> utp_sock" where
  "their_delay_update time tv now_ms s =
     (let their_delay = (if tv = 0 then 0 else ucast time - tv);
          prev_base = delay_base (their_hist s);
          s1 = s\<lparr>last_measured_delay := now_ms, reply_micro := their_delay,
                 their_hist := (if their_delay \<noteq> 0 then dh_add_sample their_delay now_ms (their_hist s)
                                else their_hist s)\<rparr>;
          base = delay_base (their_hist s1)
      in if prev_base \<noteq> 0 \<and> wrapping_compare_less base prev_base TIMESTAMP_MASK \<and> prev_base - base \<le> 10000
         then s1\<lparr>our_hist := dh_shift (prev_base - base) (our_hist s1)\<rparr> else s1)"

text \<open>Signed 64-bit division panics on a zero divisor and on overflow.\<close>

definition i64_div :: "int \<Rightarrow> int \<Rightarrow> int option" where
  "i64_div a b = (if b = 0 \<or> (a = - (2 ^ 63) \<and> b = -1) then None else Some (rust_div a b))"

text \<open>The signed distance of a sample from the base, clamped to what the average can hold.\<close>

definition average_delay_sample :: "u32 \<Rightarrow> u32 \<Rightarrow> int" where
  "average_delay_sample base actual =
     (let dist_down = base - actual; dist_up = actual - base
      in if dist_down > dist_up then uint (min dist_up MAX_AVERAGE_DELAY_SAMPLE)
         else - uint (min dist_down MAX_AVERAGE_DELAY_SAMPLE))"

text \<open>The slot change every five seconds: a new average, re-centred around zero, and the drift.\<close>

definition drift_update :: "int \<Rightarrow> utp_sock \<Rightarrow> utp_sock" where
  "drift_update avg s =
     (let prev = average_delay s;
          min_sample = min prev avg;
          max_sample = max prev avg;
          adjust = (if min_sample > 0 then as_i32 (- min_sample)
                    else if max_sample < 0 then as_i32 (- max_sample) else 0);
          base1 = (if adjust \<noteq> 0 then average_delay_base s - word_of_int adjust else average_delay_base s);
          avg1 = (if adjust \<noteq> 0 then as_i32 (avg + adjust) else avg);
          prev1 = (if adjust \<noteq> 0 then as_i32 (prev + adjust) else prev);
          drift = as_i32 (avg1 - prev1)
      in s\<lparr>average_delay := avg1, average_sample_time := average_sample_time s + 5000,
           current_delay_sum := 0, current_delay_samples := 0, average_delay_base := base1,
           clock_drift := as_i32 (rust_div (as_i64 (clock_drift s * 7 + drift)) 8),
           clock_drift_raw := drift\<rparr>)"

definition our_delay_update :: "u32 \<Rightarrow> u64 \<Rightarrow> utp_sock \<Rightarrow> utp_sock option" where
  "our_delay_update actual now_ms s =
     (if actual = 0 then Some s
      else
        (let base = (if average_delay_base s = 0 then actual else average_delay_base s);
             s1 = s\<lparr>our_hist := dh_add_sample actual now_ms (our_hist s), average_delay_base := base,
                    current_delay_sum := as_i64 (current_delay_sum s + average_delay_sample base actual),
                    current_delay_samples := as_i32 (current_delay_samples s + 1)\<rparr>
         in if now_ms > average_sample_time s1 then
              map_option (\<lambda>avg. drift_update (as_i32 avg) s1)
                (i64_div (current_delay_sum s1) (current_delay_samples s1))
            else Some s1))"

definition rtt_shift :: "int \<Rightarrow> utp_sock \<Rightarrow> utp_sock" where
  "rtt_shift min_rtt s =
     (let v = uint (dh_get_value (our_hist s))
      in if v > min_rtt then s\<lparr>our_hist := dh_shift (word_of_int (v - min_rtt)) (our_hist s)\<rparr> else s)"

section \<open>Taking the acknowledgements\<close>

definition connection_completion :: "u8 \<Rightarrow> u16 \<Rightarrow> eng \<Rightarrow> eng" where
  "connection_completion flags acks e =
     (let e1 = (if flags = ST_DATA \<and> sock_state (sk e) = SynRecv
                then user_call on_writable (e\<lparr>sk := (sk e)\<lparr>sock_state := Connected\<rparr>\<rparr>) else e)
      in if flags = ST_STATE \<and> sock_state (sk e1) = SynSent then
           snd (write_engine [] (user_call on_connect (e1\<lparr>sk := (sk e1)\<lparr>sock_state := Connected\<rparr>\<rparr>)))
         else if fin_sent (sk e1) \<and> cur_window_packets (sk e1) = acks then
           e1\<lparr>sk := (sk e1)\<lparr>fin_sent_acked := True,
                sock_state := (if close_requested (sk e1) then Destroy else sock_state (sk e1))\<rparr>\<rparr>
         else e1)"

fun ack_loop :: "nat \<Rightarrow> eng \<Rightarrow> eng" where
  "ack_loop 0 e = e"
| "ack_loop (Suc n) e =
     (let (r, e1) = ack_packet (seq_nr (sk e) - cur_window_packets (sk e)) e
      in if r = NotSent then e1
         else ack_loop n (e1\<lparr>sk := (sk e1)\<lparr>cur_window_packets := cur_window_packets (sk e1) - 1\<rparr>\<rparr>))"

text \<open>Packets at the front that a selective acknowledgement has retired already.\<close>

function shrink_window :: "utp_sock \<Rightarrow> utp_sock" where
  "shrink_window s =
     (if cur_window_packets s > 0
         \<and> cb_get (outbuf s) (unat (seq_nr s - cur_window_packets s)) = None
      then shrink_window (s\<lparr>cur_window_packets := cur_window_packets s - 1\<rparr>) else s)"
  by pat_completeness auto
termination
  by (relation "measure (\<lambda>s. unat (cur_window_packets s))") (auto simp: unat_minus_one unat_gt_0 word_neq_0_conv)

declare shrink_window.simps [simp del]

definition flush_nagle :: "eng \<Rightarrow> eng" where
  "flush_nagle e =
     (if cur_window_packets (sk e) = 1 then
        (let q = seq_nr (sk e) - 1
         in case cb_get (outbuf (sk e)) (unat q) of
              Some p \<Rightarrow> if pkt_transmissions p = 0 then send_packet_at q e else e
            | None \<Rightarrow> e)
      else e)"

definition fast_timeout_retry :: "eng \<Rightarrow> eng" where
  "fast_timeout_retry e =
     (if fast_timeout (sk e) then
        (let q = seq_nr (sk e) - cur_window_packets (sk e)
         in if q \<noteq> fast_resend_seq_nr (sk e) then e\<lparr>sk := (sk e)\<lparr>fast_timeout := False\<rparr>\<rparr>
            else
              (case cb_get (outbuf (sk e)) (unat q) of
                 Some p \<Rightarrow>
                   if pkt_transmissions p > 0
                   then send_packet_at q (e\<lparr>sk := (sk e)\<lparr>fast_resend_seq_nr := fast_resend_seq_nr (sk e) + 1\<rparr>\<rparr>)
                   else e
               | None \<Rightarrow> e))
      else e)"

definition process_acks :: "u8 \<Rightarrow> u16 \<Rightarrow> u16 \<Rightarrow> u32 \<Rightarrow> eng \<Rightarrow> eng" where
  "process_acks flags pk_ack acks win e =
     (if acks \<le> cur_window_packets (sk e) then
        (let e = e\<lparr>sk := (sk e)\<lparr>max_window_user := unat win,
                     zerowindow_time := (if win = 0 then current_ms (cx e) + 15000 else zerowindow_time (sk e))\<rparr>\<rparr>;
             e = connection_completion flags acks e;
             e = (if wrapping_compare_less (ucast (fast_resend_seq_nr (sk e))) (ucast (pk_ack + 1)) ACK_NR_MASK
                  then e\<lparr>sk := (sk e)\<lparr>fast_resend_seq_nr := pk_ack + 1\<rparr>\<rparr> else e);
             e = ack_loop (unat acks) e;
             e = e\<lparr>sk := shrink_window (sk e)\<rparr>
         in fast_timeout_retry (flush_nagle e))
      else e)"

definition mark_writable :: "eng \<Rightarrow> eng" where
  "mark_writable e =
     (if sock_state (sk e) = ConnectedFull then
        (let (full, e1) = eng_is_full None e
         in if full then e1
            else user_call on_writable (e1\<lparr>sk := (sk e1)\<lparr>sock_state := Connected\<rparr>\<rparr>))
      else e)"

section \<open>Delivering data\<close>

definition note_fin :: "u8 \<Rightarrow> u16 \<Rightarrow> utp_sock \<Rightarrow> utp_sock" where
  "note_fin flags pk_seq s =
     (if flags = ST_FIN \<and> \<not> got_fin s then s\<lparr>got_fin := True, eof_pkt := pk_seq\<rparr> else s)"

text \<open>Post bytes to the upper layer, unless there are none or the read side is shut down.\<close>

definition post_bytes :: "bytes \<Rightarrow> eng \<Rightarrow> eng" where
  "post_bytes d e = (if d \<noteq> [] \<and> \<not> read_shutdown (sk e) then user_call (on_read d) e else e)"

definition reach_eof :: "eng \<Rightarrow> eng" where
  "reach_eof e =
     (if \<not> got_fin_reached (sk e) \<and> got_fin (sk e) \<and> eof_pkt (sk e) = ack_nr (sk e) then
        (let e1 = e\<lparr>sk := (sk e)\<lparr>got_fin_reached := True,
                      rto_timeout := current_ms (cx e) + ucast (min (rto (sk e) * 3) 60)\<rparr>\<rparr>;
             e2 = send_ack (user_call on_eof e1)
         in e2\<lparr>sk := (sk e2)\<lparr>reorder_count := 0\<rparr>\<rparr>)
      else e)"

lemma sk_send_ack:
  "sk (send_ack e) = (sk e)\<lparr>last_rcv_win := get_rcv_window e, last_sent_packet := current_ms (cx e),
     in_ack_list := False\<rparr>"
  by (simp add: send_ack_def Let_def sk_ack_list_remove sk_send_data)

lemma reach_eof_reorder: "reorder_count (sk (reach_eof e)) \<le> reorder_count (sk e)"
  by (simp add: reach_eof_def Let_def)

lemma sk_post_bytes [simp]: "sk (post_bytes d e) = sk e"
  by (simp add: post_bytes_def)

text \<open>The loop that drains the reorder buffer after an in-order packet.\<close>

function reorder_loop :: "eng \<Rightarrow> eng" where
  "reorder_loop e0 =
     (let e = reach_eof e0
      in if reorder_count (sk e) = 0 then e
         else
           (case cb_take (inbuf (sk e)) (unat (ack_nr (sk e)) + 1) of
              (None, _) \<Rightarrow> e
            | (Some p, ib) \<Rightarrow>
                (let e1 = post_bytes p (e\<lparr>sk := (sk e)\<lparr>inbuf := ib\<rparr>\<rparr>)
                 in reorder_loop (e1\<lparr>sk := (sk e1)\<lparr>ack_nr := ack_nr (sk e1) + 1,
                                       reorder_count := reorder_count (sk e1) - 1\<rparr>\<rparr>))))"
  by pat_completeness auto
termination
proof (relation "measure (\<lambda>e. unat (reorder_count (sk e)))", goal_cases)
  case (2 e0 e x a ib p)
  have "reorder_count (sk e) \<noteq> 0" using 2 by simp
  then have "unat (reorder_count (sk e) - 1) < unat (reorder_count (sk e))"
    by (simp add: unat_minus_one unat_gt_0)
  also have "\<dots> \<le> unat (reorder_count (sk e0))"
    using reach_eof_reorder [of e0] 2 by (simp add: word_le_nat_alt)
  finally show ?case using 2 by simp
qed simp

declare reorder_loop.simps [simp del]

definition deliver_in_order :: "bytes \<Rightarrow> eng \<Rightarrow> nat \<times> eng" where
  "deliver_in_order d e =
     (let e1 = post_bytes d e;
          e2 = reorder_loop (e1\<lparr>sk := (sk e1)\<lparr>ack_nr := ack_nr (sk e1) + 1\<rparr>\<rparr>)
      in (length d, schedule_ack e2))"

definition deliver_out_of_order :: "u16 \<Rightarrow> nat \<Rightarrow> bytes \<Rightarrow> eng \<Rightarrow> nat \<times> eng" where
  "deliver_out_of_order pk_seq seqnr d e =
     (if got_fin (sk e) \<and> pk_seq > eof_pkt (sk e) then (0, e)
      else if seqnr > 0x3ff then (0, e)
      else
        (let e1 = e\<lparr>sk := (sk e)\<lparr>inbuf := cb_ensure_size (inbuf (sk e)) (unat pk_seq + 1) (seqnr + 1)\<rparr>\<rparr>
         in if cb_get (inbuf (sk e1)) (unat pk_seq) \<noteq> None then (0, e1)
            else
              (length d,
               schedule_ack (e1\<lparr>sk := (sk e1)\<lparr>inbuf := cb_put (inbuf (sk e1)) (unat pk_seq) (Some d),
                                               reorder_count := reorder_count (sk e1) + 1\<rparr>\<rparr>))))"

definition deliver :: "u8 \<Rightarrow> u16 \<Rightarrow> nat \<Rightarrow> bytes \<Rightarrow> eng \<Rightarrow> nat \<times> eng" where
  "deliver flags pk_seq seqnr d e =
     (if flags = ST_STATE then (0, e)
      else if sock_state (sk e) \<noteq> Connected \<and> sock_state (sk e) \<noteq> ConnectedFull then (0, e)
      else
        (let e1 = e\<lparr>sk := note_fin flags pk_seq (sk e)\<rparr>
         in if seqnr = 0 then deliver_in_order d e1 else deliver_out_of_order pk_seq seqnr d e1))"

section \<open>The handler\<close>

text \<open>The bytes an accepted packet acknowledges, and the smallest round-trip time among its segments.\<close>

definition measure_acked ::
  "bytes \<Rightarrow> u16 \<Rightarrow> u16 \<Rightarrow> (nat \<times> nat) option \<Rightarrow> eng \<Rightarrow> nat \<times> int \<times> eng"
where
  "measure_acked buf pk_ack acks selack e0 =
     (let (now, e1) = eng_micros e0;
          (acked, min_rtt, e2) = count_acked acks now e1
      in case selack of
           None \<Rightarrow> (acked, min_rtt, e2)
         | Some (off, len) \<Rightarrow>
             (let (n, m, e3) = selective_ack_bytes (pk_ack + 2) (take len (drop off buf)) min_rtt e2
              in (acked + n, m, e3)))"

text \<open>The delay samples it carries, up to the congestion controller.\<close>

definition measure_delay :: "bytes \<Rightarrow> u64 \<Rightarrow> nat \<Rightarrow> int \<Rightarrow> u64 \<Rightarrow> utp_sock \<Rightarrow> utp_sock option" where
  "measure_delay buf time acked min_rtt now_ms s = do {
     tv \<leftarrow> hdr_tv_usec buf;
     rm \<leftarrow> hdr_reply_micro buf;
     let actual = (if rm = 0x7fffffff then 0 else rm);
     s1 \<leftarrow> our_delay_update actual now_ms (their_delay_update time tv now_ms s);
     let s2 = rtt_shift min_rtt s1;
     if actual \<noteq> 0 \<and> acked \<ge> 1 then apply_ccontrol now_ms acked min_rtt s2 else Some s2 }"

definition measure_packet ::
  "bytes \<Rightarrow> u64 \<Rightarrow> u16 \<Rightarrow> u16 \<Rightarrow> (nat \<times> nat) option \<Rightarrow> eng \<Rightarrow> eng option"
where
  "measure_packet buf time pk_ack acks selack e0 =
     (let (acked, min_rtt, e) = measure_acked buf pk_ack acks selack e0
      in map_option (\<lambda>s. e\<lparr>sk := s\<rparr>) (measure_delay buf time acked min_rtt (current_ms (cx e)) (sk e)))"

definition incoming_body ::
  "bytes \<Rightarrow> u8 \<Rightarrow> u16 \<Rightarrow> u16 \<Rightarrow> u64 \<Rightarrow> nat \<Rightarrow> (nat \<times> nat) option \<Rightarrow> eng \<Rightarrow> (nat \<times> eng) option"
where
  "incoming_body buf flags pk_seq pk_ack time data_start selack e =
     (let seqnr = unat (pk_seq - ack_nr (sk e) - 1)
      in if seqnr \<ge> REORDER_BUFFER_MAX_SIZE then
           Some (0, if seqnr \<ge> 0x10000 - REORDER_BUFFER_MAX_SIZE \<and> flags \<noteq> ST_STATE
                    then schedule_ack e else e)
         else do {
           let acks = count_acks pk_ack (sk e);
           e1 \<leftarrow> measure_packet buf time pk_ack acks selack (dup_ack_update flags pk_ack e);
           win \<leftarrow> hdr_window_size buf;
           let e2 = process_acks flags pk_ack acks win e1;
           let e3 = (case selack of
                       None \<Rightarrow> e2
                     | Some (off, len) \<Rightarrow> selective_ack (pk_ack + 2) (take len (drop off buf)) e2);
           Some (deliver flags pk_seq seqnr (drop data_start buf) (mark_writable e3))
         })"

text \<open>The first packet of the accepting side fixes where its sequence numbers start.\<close>

definition note_packet :: "u16 \<Rightarrow> u64 \<Rightarrow> utp_sock \<Rightarrow> utp_sock" where
  "note_packet pk_seq now_ms s =
     (if sock_state s = SynSent then s\<lparr>ack_nr := pk_seq - 1\<rparr> else s)\<lparr>last_got_packet := now_ms\<rparr>"

definition process_incoming :: "bytes \<Rightarrow> bool \<Rightarrow> eng \<Rightarrow> (nat \<times> eng) option" where
  "process_incoming buf syn e0 = do {
     let e = set_current_ms e0;
     pk_seq \<leftarrow> hdr_seq_nr buf;
     pk_ack \<leftarrow> hdr_ack_nr buf;
     flags \<leftarrow> hdr_packet_type buf;
     if flags \<ge> ST_NUM_STATES then Some (0, e)
     else do {
       let (time, e) = eng_micros e;
       if bad_ack flags pk_ack (sk e) then Some (0, e)
       else do {
         ext \<leftarrow> hdr_ext buf;
         let (s, parsed) = parse_extensions buf ext (sk e);
         (case parsed of
            None \<Rightarrow> Some (0, e\<lparr>sk := s\<rparr>)
          | Some (data_start, selack) \<Rightarrow>
              (let e1 = e\<lparr>sk := note_packet pk_seq (current_ms (cx e)) s\<rparr>
               in if syn then Some (0, e1)
                  else incoming_body buf flags pk_seq pk_ack time data_start selack e1))
       } } }"

end
