(* ===== verification/Engine_Timeouts.thy ===== *)
theory Engine_Timeouts
  imports Engine_Incoming
begin

text \<open>
  \<^verbatim>\<open>UtpSock::check_timeouts\<close>: the retransmission timer with its back-off and give-up rules, the MTU probe
  that is lost alone, the zero-window probe, and keepalives.
\<close>

text \<open>Every packet in flight is considered lost: one turn of the marking loop.\<close>

definition mark_lost_step :: "nat \<Rightarrow> utp_sock \<Rightarrow> utp_sock" where
  "mark_lost_step i s =
     (let q = seq_nr s - of_nat i - 1
      in case cb_get (outbuf s) (unat q) of
           None \<Rightarrow> s
         | Some p \<Rightarrow>
             if pkt_transmissions p = 0 \<or> pkt_need_resend p then s
             else s\<lparr>outbuf := cb_put (outbuf s) (unat q) (Some (p\<lparr>pkt_need_resend := True\<rparr>)),
                    cur_window := usize_sub (cur_window s) (pkt_payload p)\<rparr>)"

definition mark_all_lost :: "utp_sock \<Rightarrow> utp_sock" where
  "mark_all_lost s = fold mark_lost_step [0..<unat (cur_window_packets s)] s"

text \<open>The MTU probe timed out as the only packet outstanding: not a sign of congestion.\<close>

definition probe_timeout :: "eng \<Rightarrow> bool \<times> eng" where
  "probe_timeout e =
     (let s = sk e;
          lost = (cur_window_packets s = 1 \<and> ucast (seq_nr s - 1) = mtu_probe_seq s \<and> mtu_probe_seq s \<noteq> 0);
          e1 = (if lost then mtu_search_update (e\<lparr>sk := s\<lparr>mtu_ceiling := mtu_probe_size s - 1\<rparr>\<rparr>) else e)
      in (lost, e1\<lparr>sk := (sk e1)\<lparr>mtu_probe_seq := 0, mtu_probe_size := 0\<rparr>\<rparr>))"

definition timeout_window :: "utp_sock \<Rightarrow> utp_sock" where
  "timeout_window s =
     (let s1 = s\<lparr>duplicate_ack := 0\<rparr>; packet_size = get_packet_size s1
      in if cur_window_packets s1 = 0 \<and> max_window s1 > packet_size
         then s1\<lparr>max_window := max (max_window s1 * 2 div 3) packet_size\<rparr>
         else s1\<lparr>max_window := packet_size, slow_start := True\<rparr>)"

definition resend_oldest :: "eng \<Rightarrow> eng" where
  "resend_oldest e =
     (if cur_window_packets (sk e) > 0 then
        (let e1 = e\<lparr>sk := (sk e)\<lparr>retransmit_count := retransmit_count (sk e) + 1, fast_timeout := True,
                      timeout_seq_nr := seq_nr (sk e)\<rparr>\<rparr>
         in send_packet_at (seq_nr (sk e1) - cur_window_packets (sk e1)) e1)
      else e)"

text \<open>The retransmission timer has expired. The flag says that the source returns here.\<close>

definition rto_expired :: "eng \<Rightarrow> bool \<times> eng" where
  "rto_expired e =
     (let (ignore_loss, e1) = probe_timeout e;
          s = sk e1;
          new_timeout = (if ignore_loss then retransmit_timeout s else retransmit_timeout s * 2)
      in if sock_state s = SynRecv then
           (True, user_call (on_error TimedOut) (e1\<lparr>sk := s\<lparr>sock_state := Destroy\<rparr>\<rparr>))
         else if retransmit_count s \<ge> 4 \<or> (sock_state s = SynSent \<and> retransmit_count s \<ge> 2) then
           (True, user_call (on_error TimedOut)
              (e1\<lparr>sk := s\<lparr>sock_state := (if close_requested s then Destroy else Reset)\<rparr>\<rparr>))
         else
           (let s1 = s\<lparr>retransmit_timeout := new_timeout,
                       rto_timeout := current_ms (cx e1) + ucast new_timeout\<rparr>;
                s2 = (if ignore_loss then s1 else timeout_window s1);
                s3 = mark_all_lost s2
            in (False, resend_oldest (e1\<lparr>sk := s3\<rparr>))))"

definition keep_alive :: "eng \<Rightarrow> eng" where
  "keep_alive e =
     (if (sock_state (sk e) = Connected \<or> sock_state (sk e) = ConnectedFull) \<and> \<not> fin_sent (sk e)
         \<and> elapsed_i32 (current_ms (cx e)) (last_sent_packet (sk e)) \<ge> KEEPALIVE_INTERVAL
      then send_keep_alive e else e)"

definition timeouts_active :: "eng \<Rightarrow> eng" where
  "timeouts_active e =
     (let e1 = (if ms_elapsed (current_ms (cx e)) (zerowindow_time (sk e)) \<and> max_window_user (sk e) = 0
                then e\<lparr>sk := (sk e)\<lparr>max_window_user := PACKET_SIZE\<rparr>\<rparr> else e);
          (stop, e2) = (if ms_elapsed (current_ms (cx e1)) (rto_timeout (sk e1)) \<and> rto_timeout (sk e1) > 0
                        then rto_expired e1 else (False, e1))
      in if stop then e2 else keep_alive (mark_writable e2))"

definition sock_check_timeouts :: "eng \<Rightarrow> eng" where
  "sock_check_timeouts e =
     (let e1 = (if sock_state (sk e) \<noteq> Destroy then snd (flush_packets e) else e)
      in case sock_state (sk e1) of
           SynSent \<Rightarrow> timeouts_active e1
         | SynRecv \<Rightarrow> timeouts_active e1
         | ConnectedFull \<Rightarrow> timeouts_active e1
         | Connected \<Rightarrow> timeouts_active e1
         | _ \<Rightarrow> e1)"

end
