(* ===== verification/Engine_Frame.thy ===== *)
theory Engine_Frame
  imports Engine_Timeouts
begin

text \<open>
  Frame facts of the engine. A change is quiet when it leaves the transmission window, the congestion
  and MTU state and the receive state of the socket alone, and of the context only reads the clock,
  reorders the acknowledgement list, hands datagrams to the transport or raises a flag in a user
  cell. Most of the code between two interesting assignments is quiet, and the invariants of the
  later theories are insensitive to it.
\<close>

section \<open>Quiet changes\<close>

text \<open>The fields the invariants speak of.\<close>

definition core_tx :: "utp_sock \<Rightarrow> _" where
  "core_tx s = ((sock_key s, sock_user s, conn_id_recv s, conn_id_send s),
     (cur_window_packets s, cur_window s, seq_nr s, outbuf s, fin_sent s),
     (max_window s, opt_sndbuf s, opt_rcvbuf s),
     (mtu_floor s, mtu_ceiling s, mtu_last s, mtu_probe_seq s, mtu_probe_size s))"

definition core_rx :: "utp_sock \<Rightarrow> _" where
  "core_rx s = (ack_nr s, inbuf s, reorder_count s, got_fin s, got_fin_reached s, eof_pkt s, read_shutdown s)"

definition core :: "utp_sock \<Rightarrow> _" where
  "core s = (core_tx s, core_rx s)"

lemmas core_defs = core_def core_tx_def core_rx_def

definition sent_count :: "utp_context \<Rightarrow> nat" where
  "sent_count c = length (tr_sent (ctx_transport c))"

definition quiet_ctx :: "utp_context \<Rightarrow> utp_context \<Rightarrow> bool" where
  "quiet_ctx c c' \<longleftrightarrow> sockets c' = sockets c \<and> sent_count c \<le> sent_count c'
     \<and> next_cell c' = next_cell c \<and> ctx_opt_sndbuf c' = ctx_opt_sndbuf c
     \<and> rst_infos c' = rst_infos c \<and> last_check c' = last_check c
     \<and> (\<forall>u. read_buf (cells c' u) = read_buf (cells c u) \<and> signalled (cells c u) (cells c' u))"

text \<open>A connection does not become writable without a notification of its cell.\<close>

definition opened :: "eng \<Rightarrow> eng \<Rightarrow> bool" where
  "opened e e' \<longleftrightarrow> (sock_state (sk e') = Connected \<longrightarrow> sock_state (sk e) = Connected
     \<or> notified (cells (cx e) (sock_user (sk e))) < notified (cells (cx e') (sock_user (sk e))))"

text \<open>The datagrams that have left the port, and a step that sends no more than acknowledgements.\<close>

definition sent_log :: "utp_context \<Rightarrow> (bytes \<times> socket_addr) list" where
  "sent_log c = tr_sent (ctx_transport c)"

definition acks_sent :: "utp_context \<Rightarrow> utp_context \<Rightarrow> bool" where
  "acks_sent c c' \<longleftrightarrow> (\<exists>new. sent_log c' = sent_log c @ new \<and> (\<forall>x \<in> set new. hdr_packet_type (fst x) = Some ST_STATE))"

definition quiet :: "eng \<Rightarrow> eng \<Rightarrow> bool" where
  "quiet e e' \<longleftrightarrow> core (sk e') = core (sk e) \<and> quiet_ctx (cx e) (cx e') \<and> opened e e' \<and> acks_sent (cx e) (cx e')"

lemma acks_sent_same: "sent_log c' = sent_log c \<Longrightarrow> acks_sent c c'"
  by (simp add: acks_sent_def)

lemma acks_sent_refl [simp]: "acks_sent c c"
  by (simp add: acks_sent_same)

lemma acks_sent_trans: "acks_sent a b \<Longrightarrow> acks_sent b c \<Longrightarrow> acks_sent a c"
  by (fastforce simp: acks_sent_def)

lemma quiet_ctx_refl [simp]: "quiet_ctx c c"
  by (simp add: quiet_ctx_def)

lemma quiet_ctx_trans: "quiet_ctx a b \<Longrightarrow> quiet_ctx b c \<Longrightarrow> quiet_ctx a c"
  using signalled_trans by (fastforce simp: quiet_ctx_def)

lemma quiet_ctx_notified: "quiet_ctx c c' \<Longrightarrow> notified (cells c u) \<le> notified (cells c' u)"
  by (simp add: quiet_ctx_def signalled_def)

lemma opened_same: "sock_state (sk e') = sock_state (sk e) \<Longrightarrow> opened e e'"
  by (simp add: opened_def)

lemma opened_trans:
  assumes "opened a b" "opened b c" "sock_user (sk b) = sock_user (sk a)"
    and "\<And>u. notified (cells (cx a) u) \<le> notified (cells (cx b) u)"
    and "\<And>u. notified (cells (cx b) u) \<le> notified (cells (cx c) u)"
  shows "opened a c"
  using assms(1-3) assms(4,5) [of "sock_user (sk a)"] by (auto simp: opened_def)

lemma quiet_refl [simp]: "quiet e e"
  by (simp add: quiet_def opened_def)

lemma quiet_trans:
  assumes "quiet a b" "quiet b c"
  shows "quiet a c"
proof -
  have "sock_user (sk b) = sock_user (sk a)" using assms(1) by (simp add: quiet_def core_defs)
  then have "opened a c" using assms quiet_ctx_notified by (intro opened_trans [of a b c]) (simp_all add: quiet_def)
  then show ?thesis using assms by (auto simp: quiet_def intro: quiet_ctx_trans acks_sent_trans)
qed

lemma quiet_core:
  "core s' = core (sk e) \<Longrightarrow> (sock_state s' = Connected \<longrightarrow> sock_state (sk e) = Connected) \<Longrightarrow> quiet e (e\<lparr>sk := s'\<rparr>)"
  by (auto simp: quiet_def opened_def)

lemma quiet_millis [simp]: "quiet e (snd (eng_millis e))"
  by (simp add: quiet_def opened_def quiet_ctx_def eng_millis_def ctx_millis_def sent_count_def acks_sent_same sent_log_def split_beta)

lemma quiet_micros [simp]: "quiet e (snd (eng_micros e))"
  by (simp add: quiet_def opened_def quiet_ctx_def eng_micros_def ctx_micros_def sent_count_def acks_sent_same sent_log_def split_beta)

lemma quiet_set_current_ms [simp]: "quiet e (set_current_ms e)"
  by (simp add: quiet_def opened_def quiet_ctx_def set_current_ms_def eng_millis_def ctx_millis_def sent_count_def acks_sent_same sent_log_def
      split_beta Let_def)

lemma quiet_user_call:
  "(\<And>c. read_buf (f c) = read_buf c) \<Longrightarrow> (\<And>c. signalled c (f c)) \<Longrightarrow> quiet e (user_call f e)"
  by (simp add: quiet_def opened_def quiet_ctx_def user_call_def ctx_cell_def sent_count_def acks_sent_same sent_log_def)

lemma quiet_open:
  assumes "\<And>c. read_buf (f c) = read_buf c" "\<And>c. signalled c (f c)" "\<And>c. notified c < notified (f c)"
  shows "quiet e (user_call f (e\<lparr>sk := (sk e)\<lparr>sock_state := Connected\<rparr>\<rparr>))"
  using assms by (simp add: quiet_def opened_def quiet_ctx_def user_call_def ctx_cell_def sent_count_def acks_sent_same sent_log_def core_defs)

lemma quiet_callbacks [simp]:
  "quiet e (user_call on_writable e)" "quiet e (user_call on_connect e)" "quiet e (user_call on_eof e)"
  "quiet e (user_call (on_error k) e)" "quiet e (user_call on_destroying e)"
  by (simp_all add: quiet_user_call)

lemma quiet_opens [simp]:
  "quiet e (user_call on_writable (e\<lparr>sk := (sk e)\<lparr>sock_state := Connected\<rparr>\<rparr>))"
  "quiet e (user_call on_connect (e\<lparr>sk := (sk e)\<lparr>sock_state := Connected\<rparr>\<rparr>))"
  by (simp_all add: quiet_open callbacks_notify)

lemma quiet_ack_list_remove [simp]: "quiet e (ack_list_remove e)"
  by (simp add: quiet_def opened_def quiet_ctx_def ack_list_remove_def core_defs sent_count_def acks_sent_same sent_log_def)

lemma quiet_schedule_ack [simp]: "quiet e (schedule_ack e)"
  by (simp add: quiet_def opened_def quiet_ctx_def schedule_ack_def core_defs sent_count_def acks_sent_same sent_log_def)

lemma sent_log_send_data:
  "sent_log (cx (snd (send_data b e))) = sent_log (cx e) @ [(fst (send_data b e), key_addr (sock_key (sk e)))]"
  by (simp add: send_data_def split_beta Let_def send_to_addr_def transport_send_to_def
        ack_list_remove_def user_call_def ctx_cell_def eng_micros_def ctx_micros_def
        sent_log_def split: option.split)

lemma send_data_frame:
  "core (sk (snd (send_data b e))) = core (sk e)" "quiet_ctx (cx e) (cx (snd (send_data b e)))"
  by (simp_all add: sk_send_data core_defs send_data_def split_beta Let_def send_to_addr_def transport_send_to_def
        ack_list_remove_def user_call_def ctx_cell_def eng_micros_def ctx_micros_def
        quiet_ctx_def sent_count_def split: option.split)

lemma sent_count_send_data: "sent_count (cx (snd (send_data b e))) = Suc (sent_count (cx e))"
  using arg_cong [OF sent_log_send_data, of length b e] by (simp add: sent_log_def sent_count_def)

lemma ack_packet_type: "hdr_packet_type (ack_packet_bytes s w) = Some ST_STATE"
proof -
  have front: "hdr_packet_type (take HEADER_SIZE b @ r) = hdr_packet_type b" if "HEADER_SIZE \<le> length b" for b r
    using that by (cases b) (simp_all add: hdr_packet_type_def byte_at_def HEADER_SIZE_def)
  show ?thesis
    using front [of _ "[]"] by (simp add: ack_packet_bytes_def Let_def front wire_simps ST_STATE_def)
qed

lemma quiet_send_ack_data:
  assumes "hdr_packet_type b = Some ST_STATE"
  shows "quiet e (snd (send_data b e))"
proof -
  have "hdr_packet_type (fst (send_data b e)) = Some ST_STATE"
    using assms by (simp add: send_data_def split_beta Let_def wire_simps)
  then have "acks_sent (cx e) (cx (snd (send_data b e)))" by (simp add: acks_sent_def sent_log_send_data)
  then show ?thesis using send_data_frame(1) [of b e] send_data_frame(2) [of e b] by (simp add: quiet_def opened_def) (simp add: sk_send_data)
qed

lemma quiet_send_ack [simp]: "quiet e (send_ack e)"
proof -
  let ?e = "e\<lparr>sk := (sk e)\<lparr>last_rcv_win := get_rcv_window e\<rparr>\<rparr>"
  have "quiet e ?e" by (rule quiet_core) (simp_all add: core_defs)
  then show ?thesis
    unfolding send_ack_def Let_def
    by (rule quiet_trans) (rule quiet_trans [OF quiet_send_ack_data [OF ack_packet_type] quiet_ack_list_remove])
qed

lemma core_is_full [simp]: "core (snd (is_full t w s)) = core s" "sock_state (snd (is_full t w s)) = sock_state s"
  by (simp_all add: is_full_def Let_def core_defs)

lemma quiet_is_full [simp]: "quiet e (snd (eng_is_full w e))"
  by (simp add: eng_is_full_def split_beta quiet_core)

lemma is_full_bound: "\<not> fst (eng_is_full w e) \<Longrightarrow> unat (cur_window_packets (sk e)) < 1023"
  by (auto simp: eng_is_full_def is_full_def Let_def split_beta OUTGOING_BUFFER_MAX_SIZE_def
      split: if_splits)



definition cwnd_ok :: "utp_sock \<Rightarrow> nat \<Rightarrow> bool" where
  "cwnd_ok s w \<longleftrightarrow> (MIN_WINDOW_SIZE \<le> w \<or> get_packet_size s \<le> w)
     \<and> (w = MIN_WINDOW_SIZE \<or> w \<le> max_window s \<or> w \<le> opt_sndbuf s \<or> w \<le> get_packet_size s)"

definition send_room :: "eng \<Rightarrow> bool" where
  "send_room e \<longleftrightarrow> unat (cur_window_packets (sk e)) < 1023 + of_bool (fin_sent (sk e))"


text \<open>The number of queued packets never shrinks while the user writes.\<close>

lemma cwp_send_packet_at [simp]: "cur_window_packets (sk (send_packet_at q e)) = cur_window_packets (sk e)"
  by (simp add: send_packet_at_def split_beta Let_def sk_send_data split: option.splits)

lemma cwp_is_full [simp]: "cur_window_packets (sk (snd (eng_is_full w e))) = cur_window_packets (sk e)"
  by (simp add: eng_is_full_def is_full_def Let_def split_beta)

lemma cwp_flush_loop [simp]: "cur_window_packets (sk (snd (flush_loop ps i e))) = cur_window_packets (sk e)"
proof (induction ps i e rule: flush_loop.induct)
  case (1 ps i e)
  obtain b e1 where f: "eng_is_full None e = (b, e1)" by (cases "eng_is_full None e")
  then have "cur_window_packets (sk e1) = cur_window_packets (sk e)" using cwp_is_full [of None e] by simp
  with 1 f show ?case by (subst flush_loop.simps) (auto split: option.split)
qed

lemma cwp_write_step:
  assumes "send_room e"
  shows "cur_window_packets (sk e) \<le> cur_window_packets (sk (snd (snd (write_step ps fl n d e))))"
proof -
  have "unat (cur_window_packets (sk e)) < 1024"
    using assms by (auto simp: send_room_def of_bool_def split: if_splits)
  then have "cur_window_packets (sk e) \<le> cur_window_packets (sk e) + 1"
    by (simp add: word_le_nat_alt unat_word_ariths)
  then show ?thesis by (simp add: write_step_def Let_def split: option.split)
qed

lemma write_step_room:
  assumes "send_room e" and "write_step ps fl payload data e = (added, data1, e1)" and "payload - added \<noteq> 0"
  shows "send_room e1"
  using assms by (auto simp: write_step_def Let_def send_room_def split: option.splits)

lemma cwp_write_loop:
  "send_room e \<Longrightarrow> cur_window_packets (sk e) \<le> cur_window_packets (sk (snd (write_loop ps fl n d e)))"
proof (induction ps fl n d e rule: write_loop.induct)
  case (1 ps fl n d e)
  obtain added d1 e1 where st: "write_step ps fl n d e = (added, d1, e1)" by (metis prod_cases3)
  have le: "cur_window_packets (sk e) \<le> cur_window_packets (sk e1)"
    using cwp_write_step [OF 1(2), of ps fl n d] st by simp
  show ?case
  proof (cases "n - added = 0")
    case True
    then show ?thesis using st le by (subst write_loop.simps) simp
  next
    case False
    then have "cur_window_packets (sk e1) \<le> cur_window_packets (sk (snd (write_loop ps fl (n - added) d1 e1)))"
      using 1(1) st write_step_room [OF 1(2) st False] by simp
    then show ?thesis using st le False by (subst write_loop.simps) simp
  qed
qed

lemma cwp_write_outgoing_packet:
  "send_room e \<Longrightarrow> cur_window_packets (sk e) \<le> cur_window_packets (sk (snd (write_outgoing_packet n fl d e)))"
  using cwp_write_loop [of e "get_packet_size (sk e)" fl n d]
  by (simp add: write_outgoing_packet_def flush_packets_def split_beta Let_def)

lemma room_of_not_full: "eng_is_full w e = (False, e1) \<Longrightarrow> send_room e1"
  using is_full_bound [of w e] quiet_is_full [of e w] by (simp add: send_room_def quiet_def core_defs)

lemma cwp_write_engine_loop:
  "cur_window_packets (sk e) \<le> cur_window_packets (sk (snd (snd (write_engine_loop ps n st r e))))"
proof (induction ps n st r e rule: write_engine_loop.induct)
  case (1 ps n st r e)
  obtain full e1 where f: "eng_is_full (Some n) e = (full, e1)" by (cases "eng_is_full (Some n) e")
  then have eq: "cur_window_packets (sk e1) = cur_window_packets (sk e)" using cwp_is_full [of "Some n" e] by simp
  show ?case
  proof (cases full)
    case True
    then show ?thesis using f eq by (subst write_engine_loop.simps) simp
  next
    case False
    obtain r1 e2 where w: "write_outgoing_packet n ST_DATA r e1 = (r1, e2)"
      by (cases "write_outgoing_packet n ST_DATA r e1")
    have "cur_window_packets (sk e1) \<le> cur_window_packets (sk e2)"
      using cwp_write_outgoing_packet [of e1 n ST_DATA r] room_of_not_full f False w by auto
    then show ?thesis
      using 1 [OF f [symmetric] refl False w [symmetric] refl] f False w eq
      by (subst write_engine_loop.simps) (auto simp: Let_def)
  qed
qed

lemma cwp_write_engine: "cur_window_packets (sk e) \<le> cur_window_packets (sk (snd (write_engine buf e)))"
proof -
  let ?e1 = "set_current_ms e"
  have "cur_window_packets (sk ?e1) = cur_window_packets (sk e)"
    using quiet_set_current_ms [of e] by (simp add: quiet_def core_defs)
  with cwp_write_engine_loop [of ?e1] show ?thesis
    by (simp add: write_engine_def Let_def split_beta)
qed

text \<open>The congestion window the two controllers choose.\<close>

lemma maybe_decay_core:
  "\<exists>w. core (maybe_decay_win t s) = core (s\<lparr>max_window := w\<rparr>) \<and> (w = max_window s \<or> cwnd_ok s w)"
proof (cases "can_decay_win (sint t) s")
  case True
  let ?w = "max MIN_WINDOW_SIZE (f64_to_usize (f64_mul (f64_of_usize (max_window s)) (1 / 2)))"
  have "core (maybe_decay_win t s) = core (s\<lparr>max_window := ?w\<rparr>)"
    using True by (auto simp: maybe_decay_win_def Let_def core_defs)
  moreover have "cwnd_ok s ?w" using f64_half_le [of "max_window s"] by (auto simp: cwnd_ok_def max_def)
  ultimately show ?thesis by blast
next
  case False
  then have "core (maybe_decay_win t s) = core (s\<lparr>max_window := max_window s\<rparr>)"
    by (simp add: maybe_decay_win_def)
  then show ?thesis by blast
qed

lemma usize_clamp_Some: "usize_clamp lo hi x = Some w \<Longrightarrow> lo \<le> w \<and> w \<le> hi"
  by (auto simp: usize_clamp_def split: if_splits)

lemma apply_ccontrol_core:
  assumes "apply_ccontrol now n m s = Some s'"
  shows "core s' = core (s\<lparr>max_window := max_window s'\<rparr>)"
    and "MIN_WINDOW_SIZE \<le> max_window s'" "max_window s' \<le> opt_sndbuf s" "sock_state s' = sock_state s"
  using assms
  by (auto simp: apply_ccontrol_def Let_def core_defs dest!: usize_clamp_Some split: if_splits)

lemma state_window_cuts [simp]:
  "sock_state (maybe_decay_win t s) = sock_state s" "sock_state (timeout_window s) = sock_state s"
  by (simp_all add: maybe_decay_win_def timeout_window_def Let_def)

lemma core_delay_updates:
  "core (their_delay_update time tv now s) = core s" "core (drift_update avg s) = core s"
  "core (rtt_shift m s) = core s" "sock_state (their_delay_update time tv now s) = sock_state s"
  "sock_state (drift_update avg s) = sock_state s" "sock_state (rtt_shift m s) = sock_state s"
  by (simp_all add: their_delay_update_def drift_update_def rtt_shift_def core_defs Let_def)

lemma core_our_delay_update:
  assumes "our_delay_update actual now s = Some s'"
  shows "core s' = core s" "sock_state s' = sock_state s"
proof -
  define s1 where "s1 = s\<lparr>our_hist := dh_add_sample actual now (our_hist s),
      average_delay_base := (if average_delay_base s = 0 then actual else average_delay_base s),
      current_delay_sum := as_i64 (current_delay_sum s + average_delay_sample
          (if average_delay_base s = 0 then actual else average_delay_base s) actual),
      current_delay_samples := as_i32 (current_delay_samples s + 1)\<rparr>"
  have s1: "core s1 = core s" "sock_state s1 = sock_state s" by (simp_all add: s1_def core_defs)
  have "s' = s \<or> s' = s1 \<or> (\<exists>avg. s' = drift_update avg s1)"
    using assms unfolding our_delay_update_def Let_def s1_def [symmetric]
    by (auto split: if_splits)
  with s1 show "core s' = core s" "sock_state s' = sock_state s" by (auto simp: core_delay_updates)
qed

text \<open>Retiring a packet.\<close>

lemma core_update_rtt [simp]: "core (update_rtt r t s) = core s"
  by (simp add: update_rtt_def Let_def core_defs)

lemma update_rtt_frame [simp]:
  "outbuf (update_rtt r t s) = outbuf s" "cur_window_packets (update_rtt r t s) = cur_window_packets s"
  "seq_nr (update_rtt r t s) = seq_nr s" "cur_window (update_rtt r t s) = cur_window s"
  "fin_sent (update_rtt r t s) = fin_sent s"
  using core_update_rtt [of r t s] by (simp_all only: core_defs prod.inject)

lemma ack_packet_frame:
  "cur_window_packets (sk (snd (ack_packet q e))) = cur_window_packets (sk e)"
  "seq_nr (sk (snd (ack_packet q e))) = seq_nr (sk e)"
  "fin_sent (sk (snd (ack_packet q e))) = fin_sent (sk e)"
  by (simp_all add: ack_packet_def Let_def split_beta split: option.split)

lemma ack_packet_retires:
  assumes "cb_wf (outbuf (sk e))" and "ack_packet q e = (r, e1)" and "r \<noteq> NotSent"
  shows "cb_get (outbuf (sk e1)) (unat q) = None"
proof (cases "cb_get (outbuf (sk e)) (unat q)")
  case None
  with assms show ?thesis by (simp add: ack_packet_def)
next
  case (Some p)
  with assms have "pkt_transmissions p \<noteq> 0" by (auto simp: ack_packet_def)
  then have "outbuf (sk (snd (ack_packet q e))) = cb_put (outbuf (sk e)) (unat q) None"
    using Some by (simp add: ack_packet_def Let_def split_beta)
  with assms show ?thesis by (simp add: cb_get_put)
qed

lemma cwp_connection_completion:
  "cur_window_packets (sk e) \<le> cur_window_packets (sk (connection_completion fl acks e))"
proof -
  define e1 where "e1 = (if fl = ST_DATA \<and> sock_state (sk e) = SynRecv
                then user_call on_writable (e\<lparr>sk := (sk e)\<lparr>sock_state := Connected\<rparr>\<rparr>) else e)"
  have "cur_window_packets (sk e1) = cur_window_packets (sk e)" by (simp add: e1_def)
  with cwp_write_engine [of "user_call on_connect (e1\<lparr>sk := (sk e1)\<lparr>sock_state := Connected\<rparr>\<rparr>)" "[]"]
  show ?thesis unfolding connection_completion_def Let_def e1_def [symmetric] by simp
qed

text \<open>Extension headers, and the window after a timeout.\<close>

lemma core_ext_loop [simp]: "core (fst (ext_loop buf ds ext sel s)) = core s"
proof (induction buf ds ext sel s rule: ext_loop.induct)
  case (1 buf ds ext sel s)
  then show ?case by (subst ext_loop.simps) (auto simp: Let_def core_defs)
qed

lemma core_parse_extensions [simp]: "core (fst (parse_extensions buf ext s)) = core s"
  by (simp add: parse_extensions_def)

lemma state_ext_loop [simp]: "sock_state (fst (ext_loop buf ds ext sel s)) = sock_state s"
proof (induction buf ds ext sel s rule: ext_loop.induct)
  case (1 buf ds ext sel s)
  then show ?case by (subst ext_loop.simps) (auto simp: Let_def)
qed

lemma state_parse [simp]: "sock_state (fst (parse_extensions buf ext s)) = sock_state s"
  by (simp add: parse_extensions_def)

lemma timeout_window_core:
  "\<exists>w. core (timeout_window s) = core (s\<lparr>max_window := w\<rparr>) \<and> cwnd_ok s w"
proof -
  let ?p = "get_packet_size s"
  have ps: "get_packet_size (s\<lparr>duplicate_ack := 0\<rparr>) = ?p" by (simp add: get_packet_size_def)
  show ?thesis
  proof (cases "cur_window_packets s = 0 \<and> max_window s > ?p")
    case True
    then have "core (timeout_window s) = core (s\<lparr>max_window := max (max_window s * 2 div 3) ?p\<rparr>)"
      by (simp add: timeout_window_def Let_def ps core_defs)
    moreover have "cwnd_ok s (max (max_window s * 2 div 3) ?p)" by (auto simp: cwnd_ok_def)
    ultimately show ?thesis by blast
  next
    case False
    then have "core (timeout_window s) = core (s\<lparr>max_window := ?p\<rparr>)"
      by (auto simp: timeout_window_def Let_def ps core_defs)
    moreover have "cwnd_ok s ?p" by (simp add: cwnd_ok_def)
    ultimately show ?thesis by blast
  qed
qed

lemma core_tx_note_packet: "core_tx (note_packet q t s) = core_tx s"
  by (simp add: note_packet_def core_tx_def)

lemma state_note_packet [simp]: "sock_state (note_packet q t s) = sock_state s"
  by (simp add: note_packet_def)

text \<open>The ways in which the packet handler returns.\<close>

lemma process_incoming_cases:
  fixes e e' :: eng
  assumes "process_incoming buf syn e = Some (n, e')"
  defines "e1 \<equiv> set_current_ms e"
  defines "e2 \<equiv> snd (eng_micros e1)"
  shows "e' = e1 \<or> e' = e2 \<or> (\<exists>ext. e' = e2\<lparr>sk := fst (parse_extensions buf ext (sk e2))\<rparr>)
    \<or> (\<exists>ext q t. e' = e2\<lparr>sk := note_packet q t (fst (parse_extensions buf ext (sk e2)))\<rparr>)
    \<or> (\<exists>ext fl q a ds sel t. incoming_body buf fl q a (fst (eng_micros e1)) ds sel
         (e2\<lparr>sk := note_packet q t (fst (parse_extensions buf ext (sk e2)))\<rparr>) = Some (n, e'))"
proof -
  from assms obtain q a fl where h: "hdr_seq_nr buf = Some q" "hdr_ack_nr buf = Some a" "hdr_packet_type buf = Some fl"
    by (auto simp: process_incoming_def Let_def bind_eq_Some_conv)
  show ?thesis
  proof (cases "fl \<ge> ST_NUM_STATES \<or> bad_ack fl a (sk e2)")
    case True
    with assms(1) h show ?thesis
      by (auto simp: process_incoming_def Let_def split_beta e1_def e2_def split: if_splits)
  next
    case False
    with assms(1) h obtain ext where ext: "hdr_ext buf = Some ext"
      by (auto simp: process_incoming_def Let_def split_beta e1_def e2_def bind_eq_Some_conv)
    obtain s pr where p: "parse_extensions buf ext (sk e2) = (s, pr)" by fastforce
    with False assms(1) h ext have "(case pr of None \<Rightarrow> Some (0, e2\<lparr>sk := s\<rparr>)
          | Some (ds, sel) \<Rightarrow> if syn then Some (0, e2\<lparr>sk := note_packet q (current_ms (cx e2)) s\<rparr>)
              else incoming_body buf fl q a (fst (eng_micros e1)) ds sel
                (e2\<lparr>sk := note_packet q (current_ms (cx e2)) s\<rparr>)) = Some (n, e')"
      by (simp add: process_incoming_def Let_def split_beta e1_def e2_def cong: option.case_cong if_cong)
    moreover have "s = fst (parse_extensions buf ext (sk e2))" using p by simp
    ultimately consider "e' = e2\<lparr>sk := fst (parse_extensions buf ext (sk e2))\<rparr>"
      | "e' = e2\<lparr>sk := note_packet q (current_ms (cx e2)) (fst (parse_extensions buf ext (sk e2)))\<rparr>"
      | ds sel where "incoming_body buf fl q a (fst (eng_micros e1)) ds sel
          (e2\<lparr>sk := note_packet q (current_ms (cx e2)) (fst (parse_extensions buf ext (sk e2)))\<rparr>) = Some (n, e')"
      by (cases pr) (auto split: if_splits)
    then show ?thesis by cases blast+
  qed
qed

end
