(* ===== verification/Engine_Invariant.thy ===== *)
theory Engine_Invariant
  imports Engine_Frame
begin

text \<open>
  What it takes to be an invariant of a connection. The engine changes the state of a connection
  through a handful of primitive moves: sending a queued packet, retiring one, queueing data,
  marking packets lost, choosing a congestion window, resolving an MTU probe; everything else is
  quiet. The locale \<open>flush_invariant\<close> needs only the first of them. \<open>write_invariant\<close> adds queueing, for predicates
  that follow the bytes written, and reaches the user's write. \<open>send_invariant\<close> has all the primitive
  moves of the sending side as its laws and proves once that the loops and handlers built from them
  keep the invariant, and \<open>conn_invariant\<close> adds the receiving side and reaches the packet handler, the
  timer and closing. They are interpreted in \<open>Flight\<close>, \<open>Calm\<close>, \<open>Send_Queue\<close>, \<open>Sent_Stream\<close> and \<open>Context_Invariant\<close>.
\<close>

section \<open>The contract of an invariant\<close>

locale flush_invariant =
  fixes I :: "eng \<Rightarrow> bool"
  assumes quiet: "I e \<Longrightarrow> quiet e e' \<Longrightarrow> I e'"
    and send: "I e \<Longrightarrow> I (send_packet_at q e)"
begin

lemma upd:
  "I e \<Longrightarrow> core s' = core (sk e) \<Longrightarrow> (sock_state s' = Connected \<longrightarrow> sock_state (sk e) = Connected) \<Longrightarrow>
   I (e\<lparr>sk := s'\<rparr>)"
  by (rule quiet [OF _ quiet_core])

lemma flush_loop_inv: "I e \<Longrightarrow> I (snd (flush_loop ps i e))"
proof (induction ps i e rule: flush_loop.induct)
  case (1 ps i e)
  obtain b e1 where f: "eng_is_full None e = (b, e1)" by (cases "eng_is_full None e")
  have "I e1" using 1(5) quiet_is_full [of e None] f by (auto intro: quiet)
  with 1 f send show ?case
    by (subst flush_loop.simps) (auto split: option.split)
qed

lemma flush_packets_inv: "I e \<Longrightarrow> I (snd (flush_packets e))"
  by (simp add: flush_packets_def flush_loop_inv)

end

text \<open>
  Writing. The predicate \<open>J W\<close> speaks of the bytes \<open>W\<close> that have been queued so far; its law is that one turn of
  the packetiser queues the bytes it reports, and the lemmas carry this up to the user's write.
\<close>

locale write_invariant =
  fixes J :: "bytes \<Rightarrow> eng \<Rightarrow> bool"
  assumes quiet: "J W e \<Longrightarrow> quiet e e' \<Longrightarrow> J W e'"
    and send: "J W e \<Longrightarrow> J W (send_packet_at q e)"
    and queue: "J W e \<Longrightarrow> send_room e \<Longrightarrow> payload \<le> length data \<Longrightarrow> fl = ST_DATA \<or> fl = ST_FIN \<Longrightarrow>
      write_step ps fl payload data e = (added, data1, e1) \<Longrightarrow> J (W @ take added data) e1"
begin

sublocale flush: flush_invariant "J W" for W
  by unfold_locales (rule quiet send, assumption+)+

lemma write_loop_inv:
  "J W e \<Longrightarrow> send_room e \<Longrightarrow> payload \<le> length data \<Longrightarrow> fl = ST_DATA \<or> fl = ST_FIN \<Longrightarrow>
   J (W @ take payload data) (snd (write_loop ps fl payload data e))"
proof (induction ps fl payload data e arbitrary: W rule: write_loop.induct)
  case (1 ps fl payload data e)
  obtain added data1 e1 where st: "write_step ps fl payload data e = (added, data1, e1)"
    by (metis prod_cases3)
  have d: "data1 = drop added data" "added \<le> payload"
    using write_step_rest [of ps fl payload data e] write_step_le [of ps fl payload data e] st by simp_all
  have J1: "J (W @ take added data) e1" by (rule queue [OF 1(2-5) st])
  show ?case
  proof (cases "payload - added = 0")
    case True
    then show ?thesis using st J1 d by (subst write_loop.simps) simp
  next
    case False
    have "J ((W @ take added data) @ take (payload - added) data1) (snd (write_loop ps fl (payload - added) data1 e1))"
      using 1(1) [OF st [symmetric] refl refl False J1 write_step_room [OF 1(3) st False]] 1(4,5) d by simp
    moreover have "take added data @ take (payload - added) data1 = take payload data"
      using d take_add [of added "payload - added" data] by simp
    ultimately show ?thesis using st False by (subst write_loop.simps) simp
  qed
qed

lemma write_outgoing_packet_inv:
  assumes "J W e" "send_room e" "payload \<le> length data" "fl = ST_DATA \<or> fl = ST_FIN"
  shows "J (W @ take payload data) (snd (write_outgoing_packet payload fl data e))"
proof -
  let ?e1 = "if cur_window_packets (sk e) = 0
                then e\<lparr>sk := (sk e)\<lparr>retransmit_timeout := rto (sk e),
                                    rto_timeout := current_ms (cx e) + ucast (rto (sk e))\<rparr>\<rparr>
                else e"
  have "J W ?e1" using assms(1) by (auto intro!: flush.upd simp: core_defs)
  moreover have "send_room ?e1" using assms(2) by (simp add: send_room_def)
  ultimately show ?thesis
    using assms(3,4) by (simp add: write_outgoing_packet_def Let_def split_beta write_loop_inv flush.flush_packets_inv)
qed

lemma write_engine_loop_inv:
  assumes "J W e" "num \<le> length remaining" "write_engine_loop ps num st remaining e = (sent, fin, e')"
  shows "\<exists>k\<le>length remaining. sent = st + k \<and> J (W @ take k remaining) e'"
  using assms
proof (induction ps num st remaining e arbitrary: W rule: write_engine_loop.induct)
  case (1 ps num st remaining e)
  obtain full e1 where f: "eng_is_full (Some num) e = (full, e1)" by (cases "eng_is_full (Some num) e")
  have J1: "J W e1" using 1(2) quiet_is_full [of e "Some num"] f by (auto intro: quiet)
  show ?case
  proof (cases full)
    case True
    then show ?thesis using 1(4) f J1 by (subst (asm) write_engine_loop.simps) auto
  next
    case False
    obtain r1 e2 where w: "write_outgoing_packet num ST_DATA remaining e1 = (r1, e2)"
      by (cases "write_outgoing_packet num ST_DATA remaining e1")
    have "send_room e1" using f False by (auto intro: room_of_not_full)
    then have J2: "J (W @ take num remaining) e2"
      using write_outgoing_packet_inv [OF J1, of num remaining ST_DATA] 1(3) w by simp
    have r1: "r1 = drop num remaining" using write_outgoing_packet_rest [of num ST_DATA remaining e1] w by simp
    define m where "m = min (length r1) ps"
    have "write_engine_loop ps num st remaining e
        = (if m = 0 then (st + num, True, e2) else write_engine_loop ps m (st + num) r1 e2)"
      using f False w by (subst write_engine_loop.simps) (simp add: Let_def flip: m_def)
    with 1(4) have eq: "(if m = 0 then (st + num, True, e2) else write_engine_loop ps m (st + num) r1 e2) = (sent, fin, e')"
      by simp
    show ?thesis
    proof (cases "m = 0")
      case True
      then show ?thesis using 1(3) eq J2 by auto
    next
      case nz: False
      then have "write_engine_loop ps m (st + num) r1 e2 = (sent, fin, e')" using eq by simp
      from 1(1) [OF f [symmetric] refl False w [symmetric] refl m_def nz J2 _ this]
      obtain k where k: "k \<le> length r1" "sent = st + num + k" "J ((W @ take num remaining) @ take k r1) e'"
        by (auto simp: m_def)
      then show ?thesis
        using 1(3) r1 take_add [of num k remaining] by (intro exI [of _ "num + k"]) auto
    qed
  qed
qed

lemma write_engine_inv:
  assumes "J W e" "write_engine buf e = (n, e')"
  shows "n \<le> length buf" "J (W @ take n buf) e'"
proof -
  have "n \<le> length buf \<and> J (W @ take n buf) e'"
  proof (cases "sock_state (sk e) \<noteq> Connected \<or> fin_sent (sk e)")
    case True
    then have "write_engine buf e = (0, e)" by (auto simp: write_engine_def)
    then show ?thesis using assms by simp
  next
    case False
    let ?e1 = "set_current_ms e" and ?n = "min (length buf) (get_packet_size (sk (set_current_ms e)))"
    obtain sent fin e2 where r: "write_engine_loop (get_packet_size (sk ?e1)) ?n 0 buf ?e1 = (sent, fin, e2)"
      by (metis prod_cases3)
    have "J W ?e1" using assms(1) by (rule quiet) simp
    from write_engine_loop_inv [OF this _ r] have J2: "sent \<le> length buf" "J (W @ take sent buf) e2" by auto
    obtain full e3 where f: "eng_is_full None e2 = (full, e3)" by fastforce
    have J3: "J (W @ take sent buf) e3" using quiet [OF J2(2) quiet_is_full, of None] f by simp
    then have J4: "J (W @ take sent buf) (e3\<lparr>sk := (sk e3)\<lparr>sock_state := ConnectedFull\<rparr>\<rparr>)"
      by (rule flush.upd) (simp_all add: core_defs)
    have "write_engine buf e
        = (if fin then (sent, e2) else if full then (sent, e3\<lparr>sk := (sk e3)\<lparr>sock_state := ConnectedFull\<rparr>\<rparr>) else (sent, e3))"
      using False r f by (simp add: write_engine_def Let_def)
    with assms(2) J2 J3 J4 show ?thesis by (simp split: if_splits)
  qed
  then show "n \<le> length buf" "J (W @ take n buf) e'" by blast+
qed

lemma write_engine_any: "J W e \<Longrightarrow> \<exists>V. J V (snd (write_engine buf e))"
  using write_engine_inv(2) by (metis surj_pair snd_conv)

end

text \<open>
  The moves of acknowledging, congestion control and MTU discovery. The engine itself only ever queues
  empty packets; the law \<open>queue_empty\<close> makes a \<open>write_invariant\<close> of it.
\<close>

locale send_invariant = flush_invariant +
  assumes ring: "I e \<Longrightarrow> cb_wf (outbuf (sk e))"
    and window: "I e \<Longrightarrow> unat (cur_window_packets (sk e)) \<le> 1023 + of_bool (fin_sent (sk e))"
    and ack: "I e \<Longrightarrow> I (snd (ack_packet q e))"
    and retire: "I e \<Longrightarrow> cur_window_packets (sk e) > 0 \<Longrightarrow>
      cb_get (outbuf (sk e)) (unat (seq_nr (sk e) - cur_window_packets (sk e))) = None \<Longrightarrow>
      I (e\<lparr>sk := (sk e)\<lparr>cur_window_packets := cur_window_packets (sk e) - 1\<rparr>\<rparr>)"
    and queue_empty: "I e \<Longrightarrow> send_room e \<Longrightarrow> fl = ST_DATA \<or> fl = ST_FIN \<Longrightarrow> I (snd (snd (write_step ps fl 0 data e)))"
    and cwnd: "I e \<Longrightarrow> cwnd_ok (sk e) w \<Longrightarrow> I (e\<lparr>sk := (sk e)\<lparr>max_window := w\<rparr>\<rparr>)"
    and arrived: "I e \<Longrightarrow> mtu_probe_seq (sk e) \<noteq> 0 \<Longrightarrow> I (probe_arrived e)"
    and lost: "I e \<Longrightarrow> mtu_probe_seq (sk e) \<noteq> 0 \<Longrightarrow> I (probe_lost e)"
    and forget: "I e \<Longrightarrow> I (e\<lparr>sk := (sk e)\<lparr>mtu_probe_seq := 0, mtu_probe_size := 0\<rparr>\<rparr>)"
    and mark: "I e \<Longrightarrow> I (e\<lparr>sk := mark_lost_step i (sk e)\<rparr>)"
begin

sublocale idle: write_invariant "\<lambda>W e. W = [] \<longrightarrow> I e"
proof (unfold_locales, goal_cases)
  case (3 W e payload data fl ps added data1 e1)
  show ?case
  proof
    assume "W @ take added data = []"
    moreover from this have "payload = 0" using write_step_added [of payload ps fl data e] 3(3,5) by auto
    ultimately show "I e1" using queue_empty [of e fl ps data] 3 by auto
  qed
qed (auto intro: quiet send)

lemma write_nothing_inv: "I e \<Longrightarrow> I (snd (write_engine [] e))"
  using idle.write_engine_inv(2) [of "[]" e "[]"] by (metis append_Nil take_Nil surj_pair snd_conv)

lemma write_empty_packet_inv: "I e \<Longrightarrow> send_room e \<Longrightarrow> fl = ST_DATA \<or> fl = ST_FIN \<Longrightarrow> I (snd (write_outgoing_packet 0 fl [] e))"
  using idle.write_outgoing_packet_inv [of "[]" e 0 "[]" fl] by simp

lemma dup_ack_update_inv: "I e \<Longrightarrow> I (dup_ack_update fl pk_ack e)"
proof -
  assume I: "I e"
  let ?e1 = "e\<lparr>sk := (sk e)\<lparr>duplicate_ack := duplicate_ack (sk e) + 1\<rparr>\<rparr>"
  have "I ?e1" "I (e\<lparr>sk := (sk e)\<lparr>duplicate_ack := 0\<rparr>\<rparr>)"
    using I by (rule upd, simp_all add: core_defs)+
  with I lost [of ?e1] forget [of ?e1] show ?thesis
    by (simp add: dup_ack_update_def Let_def probe_lost_def)
qed

lemma count_acked_step_inv: "I (snd (snd st)) \<Longrightarrow> I (snd (snd (count_acked_step now i st)))"
  using arrived [of "snd (snd st)"]
  by (auto simp: count_acked_step_def Let_def split_beta probe_arrived_def split: option.split)

lemma count_acked_inv:
  assumes "I e"
  shows "I (snd (snd (count_acked acks now e)))"
proof -
  have "I (snd (snd (fold (count_acked_step now) is st)))" if "I (snd (snd st))" for "is" st
    using that by (induction "is" arbitrary: st) (simp_all add: count_acked_step_inv)
  with assms show ?thesis by (simp add: count_acked_def)
qed

lemma selective_ack_bytes_inv: "I e \<Longrightarrow> I (snd (snd (selective_ack_bytes base msk m e)))"
  using quiet [OF _ quiet_micros [of e]] by (simp add: selective_ack_bytes_def split_beta Let_def)

lemma apply_ccontrol_inv:
  assumes "I (e\<lparr>sk := s\<rparr>)" and "apply_ccontrol now n m s = Some s'"
  shows "I (e\<lparr>sk := s'\<rparr>)"
proof -
  note a = apply_ccontrol_core [OF assms(2)]
  have "I ((e\<lparr>sk := s\<rparr>)\<lparr>sk := s\<lparr>max_window := max_window s'\<rparr>\<rparr>)"
    using cwnd [OF assms(1), of "max_window s'"] a(2,3) by (simp add: cwnd_ok_def)
  then show ?thesis using upd [of "e\<lparr>sk := s\<lparr>max_window := max_window s'\<rparr>\<rparr>" s'] a(1,4) by simp
qed

lemma measure_acked_inv:
  assumes "I e"
  shows "I (snd (snd (measure_acked buf pk_ack acks selack e)))"
proof -
  obtain now e1 where m: "eng_micros e = (now, e1)" by (cases "eng_micros e")
  obtain a m0 e2 where c: "count_acked acks now e1 = (a, m0, e2)" by (metis prod_cases3)
  have "I e1" using quiet [OF assms quiet_micros] m by simp
  from count_acked_inv [OF this, of acks now] c have "I e2" by simp
  then have "I (snd (snd (selective_ack_bytes base msk m0 e2)))" for base msk
    by (rule selective_ack_bytes_inv)
  with \<open>I e2\<close> show ?thesis
    by (simp add: measure_acked_def m c split_beta Let_def split: option.split)
qed

lemma measure_delay_inv:
  assumes "I e" and "measure_delay buf time n m t (sk e) = Some s'"
  shows "I (e\<lparr>sk := s'\<rparr>)"
proof -
  from assms(2) obtain tv rm s1 where
    s1: "our_delay_update rm t (their_delay_update time tv t (sk e)) = Some s1"
    and s': "s' = rtt_shift m s1 \<or> apply_ccontrol t n m (rtt_shift m s1) = Some s'"
    by (auto simp: measure_delay_def bind_eq_Some_conv Let_def split: if_splits)
  have "I (e\<lparr>sk := rtt_shift m s1\<rparr>)"
    using assms(1) by (rule upd) (simp_all add: core_delay_updates core_our_delay_update [OF s1])
  then show ?thesis using s' apply_ccontrol_inv by auto
qed

lemma measure_packet_inv:
  assumes "I e" and "measure_packet buf time pk_ack acks selack e = Some e'"
  shows "I e'"
  using assms(2) measure_delay_inv [OF measure_acked_inv [OF assms(1)]]
  by (auto simp: measure_packet_def split_beta)

lemma connection_completion_inv: "I e \<Longrightarrow> I (connection_completion fl acks e)"
proof -
  assume I: "I e"
  define e1 where "e1 = (if fl = ST_DATA \<and> sock_state (sk e) = SynRecv
                then user_call on_writable (e\<lparr>sk := (sk e)\<lparr>sock_state := Connected\<rparr>\<rparr>) else e)"
  have "I e1" unfolding e1_def using I quiet [OF I quiet_opens(1)] by simp
  moreover from this have "I (snd (write_engine [] (user_call on_connect (e1\<lparr>sk := (sk e1)\<lparr>sock_state := Connected\<rparr>\<rparr>))))"
    by (intro write_nothing_inv quiet [OF _ quiet_opens(2)])
  moreover have "I (e1\<lparr>sk := (sk e1)\<lparr>fin_sent_acked := True,
      sock_state := (if close_requested (sk e1) then Destroy else sock_state (sk e1))\<rparr>\<rparr>)"
    using \<open>I e1\<close> by (rule upd) (simp_all add: core_defs)
  ultimately show ?thesis unfolding connection_completion_def Let_def e1_def [symmetric] by simp
qed

lemma ack_loop_inv: "I e \<Longrightarrow> n \<le> unat (cur_window_packets (sk e)) \<Longrightarrow> I (ack_loop n e)"
proof (induction n arbitrary: e)
  case (Suc n)
  obtain r e1 where a: "ack_packet (seq_nr (sk e) - cur_window_packets (sk e)) e = (r, e1)"
    by (cases "ack_packet (seq_nr (sk e) - cur_window_packets (sk e)) e")
  note I1 = ack [OF Suc(2), of "seq_nr (sk e) - cur_window_packets (sk e)", unfolded a snd_conv]
  show ?case
  proof (cases "r = NotSent")
    case True
    with a I1 show ?thesis by simp
  next
    case False
    have w: "cur_window_packets (sk e1) = cur_window_packets (sk e)" "seq_nr (sk e1) = seq_nr (sk e)"
      using ack_packet_frame [of "seq_nr (sk e) - cur_window_packets (sk e)" e] a by simp_all
    have none: "cb_get (outbuf (sk e1)) (unat (seq_nr (sk e1) - cur_window_packets (sk e1))) = None"
      using ack_packet_retires [OF ring [OF Suc(2)] a False] w by simp
    have pos: "cur_window_packets (sk e) > 0" using Suc(3) by (simp add: word_less_nat_alt)
    then have "n \<le> unat (cur_window_packets (sk e) - 1)"
      using Suc(3) by (simp add: unat_minus_one word_neq_0_conv)
    with Suc(1) [OF retire [OF I1 _ none]] pos w a False show ?thesis by simp
  qed
qed simp

lemma shrink_window_inv: "I (e\<lparr>sk := s\<rparr>) \<Longrightarrow> I (e\<lparr>sk := shrink_window s\<rparr>)"
proof (induction s rule: shrink_window.induct)
  case (1 s)
  then show ?case
    using retire [of "e\<lparr>sk := s\<rparr>"] by (subst shrink_window.simps) auto
qed

lemma flush_nagle_inv: "I e \<Longrightarrow> I (flush_nagle e)"
  using send by (simp add: flush_nagle_def Let_def split: option.split)

lemma fast_timeout_retry_inv: "I e \<Longrightarrow> I (fast_timeout_retry e)"
proof -
  assume I: "I e"
  have "I (e\<lparr>sk := (sk e)\<lparr>fast_timeout := False\<rparr>\<rparr>)"
    "I (e\<lparr>sk := (sk e)\<lparr>fast_resend_seq_nr := fast_resend_seq_nr (sk e) + 1\<rparr>\<rparr>)"
    using I by (rule upd, simp_all add: core_defs)+
  with I send show ?thesis by (simp add: fast_timeout_retry_def Let_def split: option.split)
qed

lemma process_acks_inv:
  assumes "I e"
  shows "I (process_acks fl pk_ack acks win e)"
proof (cases "acks \<le> cur_window_packets (sk e)")
  case True
  define e1 where "e1 = e\<lparr>sk := (sk e)\<lparr>max_window_user := unat win,
      zerowindow_time := (if win = 0 then current_ms (cx e) + 15000 else zerowindow_time (sk e))\<rparr>\<rparr>"
  define e2 where "e2 = connection_completion fl acks e1"
  define e3 where "e3 = (if wrapping_compare_less (ucast (fast_resend_seq_nr (sk e2))) (ucast (pk_ack + 1)) ACK_NR_MASK
                  then e2\<lparr>sk := (sk e2)\<lparr>fast_resend_seq_nr := pk_ack + 1\<rparr>\<rparr> else e2)"
  have "I e1" unfolding e1_def using assms by (rule upd) (simp_all add: core_defs)
  then have I2: "I e2" unfolding e2_def by (rule connection_completion_inv)
  have "I (e2\<lparr>sk := (sk e2)\<lparr>fast_resend_seq_nr := pk_ack + 1\<rparr>\<rparr>)" using I2 by (rule upd) (simp_all add: core_defs)
  with I2 have "I e3" by (simp add: e3_def)
  moreover have "acks \<le> cur_window_packets (sk e3)"
    using order_trans [OF True] cwp_connection_completion [of e1 fl acks] by (simp add: e1_def e2_def e3_def)
  ultimately have "I (ack_loop (unat acks) e3)"
    by (intro ack_loop_inv) (simp_all add: word_le_nat_alt)
  then have "I ((ack_loop (unat acks) e3)\<lparr>sk := shrink_window (sk (ack_loop (unat acks) e3))\<rparr>)"
    by (intro shrink_window_inv) simp
  with True show ?thesis
    unfolding process_acks_def Let_def e1_def [symmetric] e2_def [symmetric] e3_def [symmetric]
    by (simp add: flush_nagle_inv fast_timeout_retry_inv)
qed (use assms in \<open>simp add: process_acks_def\<close>)

lemma mark_writable_inv: "I e \<Longrightarrow> I (mark_writable e)"
proof -
  assume I: "I e"
  then have I1: "I (snd (eng_is_full None e))" by (rule quiet) simp
  from quiet [OF I1 quiet_opens(1)] I I1 show ?thesis by (simp add: mark_writable_def split_beta)
qed

lemma sack_step_inv: "I (snd (snd st)) \<Longrightarrow> I (snd (snd (sack_step base msk i st)))"
  using ack by (simp add: sack_step_def split_beta Let_def)

lemma sack_fold_inv: "I (snd (snd st)) \<Longrightarrow> I (snd (snd (fold (sack_step base msk) is st)))"
  by (induction "is" arbitrary: st) (simp_all add: sack_step_inv)

lemma sack_resend_inv: "I e \<Longrightarrow> I (snd (sack_resend i vs b e))"
proof (induction i vs b e rule: sack_resend.induct)
  case (2 i v vs b e)
  have "I ((send_packet_at v e)\<lparr>sk := (sk (send_packet_at v e))\<lparr>fast_resend_seq_nr := v + 1\<rparr>\<rparr>)"
    using send [OF 2(3)] by (rule upd) (simp_all add: core_defs)
  with 2 show ?case by (simp add: Let_def)
qed simp

lemma maybe_decay_inv:
  assumes "I e"
  shows "I (e\<lparr>sk := maybe_decay_win t (sk e)\<rparr>)"
proof -
  obtain w where w: "core (maybe_decay_win t (sk e)) = core ((sk e)\<lparr>max_window := w\<rparr>)"
      "w = max_window (sk e) \<or> cwnd_ok (sk e) w"
    using maybe_decay_core by blast
  then have "I (e\<lparr>sk := (sk e)\<lparr>max_window := w\<rparr>\<rparr>)" using assms cwnd by auto
  with w(1) show ?thesis using upd [of "e\<lparr>sk := (sk e)\<lparr>max_window := w\<rparr>\<rparr>" "maybe_decay_win t (sk e)"] by simp
qed

lemma selective_ack_inv:
  assumes "I e"
  shows "I (selective_ack base msk e)"
proof -
  have dup: "I (x\<lparr>sk := (sk x)\<lparr>duplicate_ack := y\<rparr>\<rparr>)" if "I x" for x y
    using that by (rule upd) (simp_all add: core_defs)
  obtain count rs e1 where f: "fold (sack_step base msk) (rev [-1..int (length msk) * 8 - 1]) (0, [], e) = (count, rs, e1)"
    by (metis prod_cases3)
  have "I e1" using sack_fold_inv [of "(0, [], e)" base msk "rev [-1..int (length msk) * 8 - 1]"] f assms by simp
  from sack_resend_inv [OF this] have I2: "I (snd (sack_resend 0 xs False e1))" for xs .
  from dup [OF I2] dup [OF maybe_decay_inv [OF I2]] assms show ?thesis
    by (simp add: selective_ack_def f Let_def split_beta)
qed

lemma mark_all_lost_inv:
  assumes "I (e\<lparr>sk := s\<rparr>)"
  shows "I (e\<lparr>sk := mark_all_lost s\<rparr>)"
proof -
  have "I (e\<lparr>sk := fold mark_lost_step is s\<rparr>)" if "I (e\<lparr>sk := s\<rparr>)" for "is" s
    using that
  proof (induction "is" arbitrary: s)
    case (Cons i js)
    then show ?case using mark [of "e\<lparr>sk := s\<rparr>" i] by simp
  qed simp
  with assms show ?thesis by (simp add: mark_all_lost_def)
qed

lemma probe_timeout_inv: "I e \<Longrightarrow> I (snd (probe_timeout e))"
  using lost [of e] forget by (simp add: probe_timeout_def Let_def probe_lost_def)

lemma timeout_window_inv:
  assumes "I (e\<lparr>sk := s\<rparr>)"
  shows "I (e\<lparr>sk := timeout_window s\<rparr>)"
proof -
  obtain w where w: "core (timeout_window s) = core (s\<lparr>max_window := w\<rparr>)" "cwnd_ok s w"
    using timeout_window_core by blast
  then have "I (e\<lparr>sk := s\<lparr>max_window := w\<rparr>\<rparr>)" using cwnd [OF assms] by simp
  with w(1) show ?thesis using upd [of "e\<lparr>sk := s\<lparr>max_window := w\<rparr>\<rparr>" "timeout_window s"] by simp
qed

lemma resend_oldest_inv:
  assumes "I e"
  shows "I (resend_oldest e)"
proof -
  have "I (e\<lparr>sk := (sk e)\<lparr>retransmit_count := retransmit_count (sk e) + 1, fast_timeout := True,
      timeout_seq_nr := seq_nr (sk e)\<rparr>\<rparr>)"
    using assms by (rule upd) (simp_all add: core_defs)
  with assms send show ?thesis by (simp add: resend_oldest_def Let_def)
qed

lemma rto_expired_inv:
  assumes "I e"
  shows "I (snd (rto_expired e))"
proof -
  obtain b e1 where p: "probe_timeout e = (b, e1)" by (cases "probe_timeout e")
  have I1: "I e1" using probe_timeout_inv [OF assms] p by simp
  have st: "I (user_call (on_error TimedOut) (e1\<lparr>sk := (sk e1)\<lparr>sock_state := y\<rparr>\<rparr>))" if "y \<noteq> Connected" for y
    by (rule quiet [OF upd [OF I1] quiet_callbacks(4)]) (simp_all add: core_defs that)
  have r: "I (e1\<lparr>sk := (sk e1)\<lparr>retransmit_timeout := y, rto_timeout := z\<rparr>\<rparr>)" for y z
    using I1 by (rule upd) (simp_all add: core_defs)
  have r': "I (e1\<lparr>sk := (sk e1)\<lparr>rto_timeout := z\<rparr>\<rparr>)" for z
    using I1 by (rule upd) (simp_all add: core_defs)
  show ?thesis
    using st resend_oldest_inv [OF mark_all_lost_inv [OF r']]
      resend_oldest_inv [OF mark_all_lost_inv [OF timeout_window_inv [OF r]]]
    by (simp add: rto_expired_def p Let_def)
qed

end

text \<open>
  Invariants that do not mention what has been received are kept by the whole packet handler, by
  the timer and by closing.
\<close>

locale conn_invariant = send_invariant +
  assumes rx: "I e \<Longrightarrow> core_tx s' = core_tx (sk e) \<Longrightarrow>
      (sock_state s' = Connected \<longrightarrow> sock_state (sk e) = Connected) \<Longrightarrow> I (e\<lparr>sk := s'\<rparr>)"
    and read: "I e \<Longrightarrow> I (user_call (on_read d) e)"
    and fin: "I e \<Longrightarrow> \<not> fin_sent (sk e) \<Longrightarrow> I (e\<lparr>sk := (sk e)\<lparr>fin_sent := True\<rparr>\<rparr>)"
begin

lemma post_bytes_inv: "I e \<Longrightarrow> I (post_bytes d e)"
  by (simp add: post_bytes_def read)

lemma reach_eof_inv: "I e \<Longrightarrow> I (reach_eof e)"
proof -
  assume I: "I e"
  let ?e1 = "e\<lparr>sk := (sk e)\<lparr>got_fin_reached := True,
      rto_timeout := current_ms (cx e) + ucast (min (rto (sk e) * 3) 60)\<rparr>\<rparr>"
  have "I ?e1" using I by (rule rx) (simp_all add: core_defs)
  then have "I (send_ack (user_call on_eof ?e1))"
    by (intro quiet [OF quiet [OF _ quiet_callbacks(3)] quiet_send_ack])
  then have "I ((send_ack (user_call on_eof ?e1))\<lparr>sk := (sk (send_ack (user_call on_eof ?e1)))\<lparr>reorder_count := 0\<rparr>\<rparr>)"
    by (rule rx) (simp_all add: core_defs)
  with I show ?thesis unfolding reach_eof_def Let_def by simp
qed

lemma reorder_loop_inv: "I e \<Longrightarrow> I (reorder_loop e)"
proof (induction e rule: reorder_loop.induct)
  case (1 e)
  let ?r = "reach_eof e"
  have I1: "I ?r" using 1(2) by (rule reach_eof_inv)
  have "I (?r\<lparr>sk := (sk ?r)\<lparr>inbuf := b\<rparr>\<rparr>)" for b using I1 by (rule rx) (simp_all add: core_defs)
  then have I2: "I (post_bytes p (?r\<lparr>sk := (sk ?r)\<lparr>inbuf := b\<rparr>\<rparr>))" for b p by (rule post_bytes_inv)
  have I3: "I ((post_bytes p (?r\<lparr>sk := (sk ?r)\<lparr>inbuf := b\<rparr>\<rparr>))\<lparr>sk := (sk ?r)\<lparr>inbuf := b, ack_nr := y, reorder_count := z\<rparr>\<rparr>)" for b p y z
    using I2 by (rule rx) (simp_all add: core_defs)
  show ?case
    using 1(1) I1 I3 by (subst reorder_loop.simps) (auto simp: Let_def split: option.split)
qed

lemma deliver_inv:
  assumes "I e"
  shows "I (snd (deliver fl pk_seq seqnr d e))"
proof -
  have any: "I (x\<lparr>sk := s'\<rparr>)" if "I x" "core_tx s' = core_tx (sk x)" "sock_state s' = sock_state (sk x)" for x s'
    using that by (intro rx) simp_all
  let ?e1 = "e\<lparr>sk := note_fin fl pk_seq (sk e)\<rparr>"
  have I1: "I ?e1" using assms by (rule any) (simp_all add: note_fin_def core_defs)
  have "I ((post_bytes d ?e1)\<lparr>sk := (sk (post_bytes d ?e1))\<lparr>ack_nr := y\<rparr>\<rparr>)" for y
    using post_bytes_inv [OF I1] by (rule any) (simp_all add: core_defs)
  then have a: "I (snd (deliver_in_order d ?e1))"
    unfolding deliver_in_order_def Let_def snd_conv by (intro quiet [OF reorder_loop_inv quiet_schedule_ack])
  have i: "I (?e1\<lparr>sk := (sk ?e1)\<lparr>inbuf := y\<rparr>\<rparr>)" for y
    using I1 by (rule any) (simp_all add: core_defs)
  have "I (?e1\<lparr>sk := (sk ?e1)\<lparr>inbuf := y, reorder_count := z\<rparr>\<rparr>)" for y z
    using I1 by (rule any) (simp_all add: core_defs)
  from quiet [OF this quiet_schedule_ack] i I1
  have b: "I (snd (deliver_out_of_order pk_seq seqnr d ?e1))"
    by (simp add: deliver_out_of_order_def Let_def)
  from a b assms show ?thesis by (simp add: deliver_def Let_def)
qed

lemma incoming_body_inv:
  assumes "I e" and "incoming_body buf fl pk_seq pk_ack time ds sel e = Some (n, e')"
  shows "I e'"
proof (cases "unat (pk_seq - ack_nr (sk e) - 1) \<ge> REORDER_BUFFER_MAX_SIZE")
  case True
  with assms(2) have "e' = schedule_ack e \<or> e' = e" by (auto simp: incoming_body_def Let_def split: if_splits)
  then show ?thesis using assms(1) quiet [OF _ quiet_schedule_ack] by auto
next
  case False
  with assms(2) obtain e1 win where
    m: "measure_packet buf time pk_ack (count_acks pk_ack (sk e)) sel (dup_ack_update fl pk_ack e) = Some e1"
    and d: "deliver fl pk_seq (unat (pk_seq - ack_nr (sk e) - 1)) (drop ds buf)
          (mark_writable (case sel of None \<Rightarrow> process_acks fl pk_ack (count_acks pk_ack (sk e)) win e1
             | Some (off, len) \<Rightarrow> selective_ack (pk_ack + 2) (take len (drop off buf))
                 (process_acks fl pk_ack (count_acks pk_ack (sk e)) win e1))) = (n, e')"
    by (auto simp: incoming_body_def Let_def bind_eq_Some_conv)
  have "I e1" by (rule measure_packet_inv [OF dup_ack_update_inv [OF assms(1)] m])
  then have "I (process_acks fl pk_ack (count_acks pk_ack (sk e)) win e1)" by (rule process_acks_inv)
  with selective_ack_inv [OF this] have "I (case sel of None \<Rightarrow> process_acks fl pk_ack (count_acks pk_ack (sk e)) win e1
             | Some (off, len) \<Rightarrow> selective_ack (pk_ack + 2) (take len (drop off buf))
                 (process_acks fl pk_ack (count_acks pk_ack (sk e)) win e1))"
    by (simp split: option.split)
  from deliver_inv [OF mark_writable_inv [OF this], of fl pk_seq _ "drop ds buf"] show ?thesis
    by (metis d snd_conv)
qed

lemma process_incoming_inv:
  assumes "I e" and "process_incoming buf syn e = Some (n, e')"
  shows "I e'"
proof -
  let ?e1 = "set_current_ms e"
  let ?e2 = "snd (eng_micros ?e1)"
  have I1: "I ?e1" using assms(1) by (rule quiet) simp
  then have I2: "I ?e2" by (rule quiet) simp
  have I3: "I (?e2\<lparr>sk := fst (parse_extensions buf ext (sk ?e2))\<rparr>)" for ext
    using I2 by (rule upd) simp_all
  have I4: "I (?e2\<lparr>sk := note_packet q t (fst (parse_extensions buf ext (sk ?e2)))\<rparr>)" for ext q t
    using rx [OF I3 [of ext], of "note_packet q t (fst (parse_extensions buf ext (sk ?e2)))"]
    by (simp add: core_tx_note_packet)
  from process_incoming_cases [OF assms(2)] show ?thesis
    by (elim disjE exE) (auto simp del: eng_clock_sk intro: I1 I2 I3 I4 incoming_body_inv [OF I4])
qed

lemma send_keep_alive_inv: "I e \<Longrightarrow> I (send_keep_alive e)"
proof -
  assume "I e"
  then have "I (e\<lparr>sk := (sk e)\<lparr>ack_nr := ack_nr (sk e) - 1\<rparr>\<rparr>)" by (rule rx) (simp_all add: core_defs)
  from quiet [OF this quiet_send_ack] show ?thesis
    unfolding send_keep_alive_def Let_def by (rule rx) (simp_all add: core_defs)
qed

lemma timeouts_active_inv:
  assumes "I e"
  shows "I (timeouts_active e)"
proof -
  define e1 where "e1 = (if ms_elapsed (current_ms (cx e)) (zerowindow_time (sk e)) \<and> max_window_user (sk e) = 0
                then e\<lparr>sk := (sk e)\<lparr>max_window_user := PACKET_SIZE\<rparr>\<rparr> else e)"
  define r where "r = (if ms_elapsed (current_ms (cx e1)) (rto_timeout (sk e1)) \<and> rto_timeout (sk e1) > 0
                        then rto_expired e1 else (False, e1))"
  have "I (e\<lparr>sk := (sk e)\<lparr>max_window_user := PACKET_SIZE\<rparr>\<rparr>)"
    using assms by (rule upd) (simp_all add: core_defs)
  with assms have "I e1" by (simp add: e1_def)
  with rto_expired_inv [OF this] have Ir: "I (snd r)" by (simp add: r_def)
  then have Im: "I (mark_writable (snd r))" by (rule mark_writable_inv)
  with send_keep_alive_inv [OF this] Ir show ?thesis
    unfolding timeouts_active_def Let_def e1_def [symmetric] r_def [symmetric]
    by (simp add: split_beta keep_alive_def)
qed

lemma sock_check_timeouts_inv:
  assumes "I e"
  shows "I (sock_check_timeouts e)"
proof -
  define e1 where "e1 = (if sock_state (sk e) \<noteq> Destroy then snd (flush_packets e) else e)"
  have "I e1" using assms flush_packets_inv by (simp add: e1_def)
  with timeouts_active_inv [OF this] show ?thesis
    unfolding sock_check_timeouts_def Let_def e1_def [symmetric] by (simp split: conn_state.split)
qed

lemma close_connected_inv:
  assumes "I e"
  shows "I (close_connected e)"
proof -
  let ?e1 = "e\<lparr>sk := (sk e)\<lparr>read_shutdown := True, close_requested := True\<rparr>\<rparr>"
  have I1: "I ?e1" using assms by (rule rx) (simp_all add: core_defs)
  have "I (?e1\<lparr>sk := (sk ?e1)\<lparr>sock_state := Destroy\<rparr>\<rparr>)" using I1 by (rule upd) (simp_all add: core_defs)
  moreover have "I (snd (write_outgoing_packet 0 ST_FIN [] (?e1\<lparr>sk := (sk ?e1)\<lparr>fin_sent := True\<rparr>\<rparr>)))"
    if "\<not> fin_sent (sk e)"
  proof (rule write_empty_packet_inv)
    show "I (?e1\<lparr>sk := (sk ?e1)\<lparr>fin_sent := True\<rparr>\<rparr>)" using I1 that by (intro fin) simp_all
    show "send_room (?e1\<lparr>sk := (sk ?e1)\<lparr>fin_sent := True\<rparr>\<rparr>)"
      using window [OF assms] that by (simp add: send_room_def)
  qed simp
  ultimately show ?thesis using I1 by (simp add: close_connected_def Let_def)
qed

lemma close_engine_inv:
  assumes "I e"
  shows "I (close_engine e)"
proof -
  have d: "I (e\<lparr>sk := (sk e)\<lparr>sock_state := Destroy\<rparr>\<rparr>)" using assms by (rule upd) (simp_all add: core_defs)
  have "I (snd (eng_millis e))" using assms by (rule quiet) simp
  then have "I ((snd (eng_millis e))\<lparr>sk := (sk (snd (eng_millis e)))\<lparr>rto_timeout := t, sock_state := Destroy\<rparr>\<rparr>)" for t
    by (rule upd) (simp_all add: core_defs)
  with d close_connected_inv [OF assms] show ?thesis
    by (simp add: close_engine_def split_beta split: conn_state.split)
qed

lemma read_drained_inv: "I e \<Longrightarrow> I (read_drained e)"
  using quiet [OF _ quiet_send_ack [of e]]
    quiet [OF quiet [OF _ quiet_set_current_ms [of e]] quiet_schedule_ack]
  by (simp add: read_drained_def Let_def)

end

end
