(* ===== verification/Flight.thy ===== *)
theory Flight
  imports Engine_Invariant
begin

text \<open>
  The sending side of a connection: the ring of unacknowledged packets, the byte count of what is in
  flight, the congestion window and the MTU in use. The invariant \<open>conn_inv\<close> joins them; interpreting
  \<open>conn_invariant\<close> on it shows that every operation of the engine keeps it.
\<close>

section \<open>The transmission window\<close>

text \<open>The payload bytes a slot counts for: sent, not acknowledged and not considered lost.\<close>

definition inflight :: "outgoing_packet option \<Rightarrow> nat" where
  "inflight x = (case x of None \<Rightarrow> 0
     | Some p \<Rightarrow> if pkt_transmissions p = 0 \<or> pkt_need_resend p then 0 else pkt_payload p)"

definition window_inv :: "utp_sock \<Rightarrow> bool" where
  "window_inv s \<longleftrightarrow> cb_wf (outbuf s)
     \<and> unat (cur_window_packets s) \<le> cb_size (outbuf s)
     \<and> unat (cur_window_packets s) \<le> 1023 + of_bool (fin_sent s)
     \<and> (\<forall>j. unat (cur_window_packets s) \<le> j \<and> j < cb_size (outbuf s) \<longrightarrow>
          cb_get (outbuf s) (unat (seq_nr s - cur_window_packets s) + j) = None)
     \<and> (\<forall>i p. cb_get (outbuf s) i = Some p \<longrightarrow> length (pkt_data p) = HEADER_SIZE + pkt_payload p)"

text \<open>
  The byte count of the window. A transmission counter has 32 bits, so the count is exact as long
  as fewer than $2^{32}$ datagrams have left the port.
\<close>

definition accounted :: "nat \<Rightarrow> utp_sock \<Rightarrow> bool" where
  "accounted n s \<longleftrightarrow> cur_window s = ring_total inflight (cb_size (outbuf s)) (cb_get (outbuf s))
     \<and> (\<forall>i p. cb_get (outbuf s) i = Some p \<longrightarrow> unat (pkt_transmissions p) \<le> n)"

definition flight_inv :: "nat \<Rightarrow> utp_sock \<Rightarrow> bool" where
  "flight_inv n s \<longleftrightarrow> window_inv s \<and> (n < 2 ^ 32 \<longrightarrow> accounted n s)"

lemma accounted_mono: "accounted n s \<Longrightarrow> n \<le> n' \<Longrightarrow> accounted n' s"
  unfolding accounted_def by (meson order_trans)

lemma flight_inv_cong:
  "outbuf s' = outbuf s \<Longrightarrow> cur_window_packets s' = cur_window_packets s \<Longrightarrow> seq_nr s' = seq_nr s \<Longrightarrow>
   fin_sent s' = fin_sent s \<Longrightarrow> cur_window s' = cur_window s \<Longrightarrow> flight_inv n s \<Longrightarrow> n \<le> n' \<Longrightarrow> flight_inv n' s'"
  using accounted_mono [of n s n'] by (auto simp: flight_inv_def window_inv_def accounted_def)

lemma inflight_le_total:
  assumes "cb_wf b" and "cb_get b i = v"
  shows "inflight v \<le> ring_total inflight (cb_size b) (cb_get b)"
proof -
  have "cb_get b (i mod cb_size b) = v" using assms cb_get_cong [OF assms(1), of "i mod cb_size b" i] by simp
  then have "inflight v = inflight (cb_get b (i mod cb_size b))" by simp
  also have "\<dots> \<le> (\<Sum>j < cb_size b. inflight (cb_get b j))"
    by (rule member_le_sum) simp_all
  finally show ?thesis by (simp add: ring_total_def)
qed

text \<open>Replacing the packet of one occupied slot.\<close>

lemma flight_replace:
  assumes "flight_inv n s" and "cb_get (outbuf s) i = Some p" and "n \<le> n'"
    and "case v of None \<Rightarrow> True | Some p' \<Rightarrow> length (pkt_data p') = HEADER_SIZE + pkt_payload p'"
    and "n' < 2 ^ 32 \<Longrightarrow> case v of None \<Rightarrow> True | Some p' \<Rightarrow> unat (pkt_transmissions p') \<le> n'"
    and "n' < 2 ^ 32 \<Longrightarrow> inflight (Some p) \<le> cur_window s \<Longrightarrow> cw = cur_window s + inflight v - inflight (Some p)"
    and s': "outbuf s' = cb_put (outbuf s) i v" "cur_window s' = cw"
      "cur_window_packets s' = cur_window_packets s" "seq_nr s' = seq_nr s" "fin_sent s' = fin_sent s"
  shows "flight_inv n' s'"
proof -
  have wf: "cb_wf (outbuf s)" using assms(1) by (simp add: flight_inv_def window_inv_def)
  note get = cb_get_put [OF wf, of i v]
  have occ: "cb_get (outbuf s) j \<noteq> None" if "i mod cb_size (outbuf s) = j mod cb_size (outbuf s)" for j
    using cb_get_cong [OF wf that] assms(2) by (metis option.discI)
  have w: "window_inv s" using assms(1) by (simp add: flight_inv_def)
  have "cb_get (outbuf s') (unat (seq_nr s - cur_window_packets s) + j) = None"
    if "unat (cur_window_packets s) \<le> j" "j < cb_size (outbuf s)" for j
  proof -
    have none: "cb_get (outbuf s) (unat (seq_nr s - cur_window_packets s) + j) = None"
      using w that by (simp add: window_inv_def)
    with occ [of "unat (seq_nr s - cur_window_packets s) + j"] show ?thesis unfolding s' get by auto
  qed
  moreover have "length (pkt_data p') = HEADER_SIZE + pkt_payload p'"
    if "cb_get (outbuf s') j = Some p'" for j p'
    using that w assms(4) unfolding s' get window_inv_def by (auto split: if_splits)
  ultimately have "window_inv s'" using w by (auto simp: window_inv_def s')
  moreover have "accounted n' s'" if n': "n' < 2 ^ 32"
  proof -
    have acc: "accounted n s" using assms(1,3) n' by (simp add: flight_inv_def)
    note tot = ring.total_put [OF wf, of inflight i v, unfolded assms(2)]
    have "inflight (Some p) \<le> cur_window s"
      using acc wf assms(2) by (simp add: accounted_def inflight_le_total)
    then have "cw = cur_window s + inflight v - inflight (Some p)" by (rule assms(6) [OF n'])
    then have "cur_window s' = ring_total inflight (cb_size (outbuf s')) (cb_get (outbuf s'))"
      using tot acc unfolding s' accounted_def by simp
    moreover have "unat (pkt_transmissions p') \<le> n'" if "cb_get (outbuf s') j = Some p'" for j p'
      using that acc assms(3) assms(5) [OF n'] unfolding s' get accounted_def
      by (auto split: if_splits intro: order_trans)
    ultimately show ?thesis by (simp add: accounted_def)
  qed
  ultimately show ?thesis by (simp add: flight_inv_def)
qed

section \<open>Sending and retiring packets\<close>

lemma cb_put_twice [simp]: "cb_put (cb_put b i u) i v = cb_put b i v"
  by (simp add: cb_put_def)

lemma length_send_data [simp]: "length (fst (send_data b e)) = length b"
  by (simp add: send_data_def split_beta Let_def length_set)

text \<open>What sending a queued packet does to the connection.\<close>

lemma send_packet_at_effect:
  assumes "cb_get (outbuf (sk e)) (unat q) = Some p"
  obtains p' where "outbuf (sk (send_packet_at q e)) = cb_put (outbuf (sk e)) (unat q) (Some p')"
      "pkt_payload p' = pkt_payload p" "pkt_transmissions p' = pkt_transmissions p + 1"
      "\<not> pkt_need_resend p'" "length (pkt_data p') = length (pkt_data p)"
    and "cur_window (sk (send_packet_at q e)) =
      cur_window (sk e) + (if pkt_transmissions p = 0 \<or> pkt_need_resend p then pkt_payload p else 0)"
    and "sent_count (cx (send_packet_at q e)) = Suc (sent_count (cx e))"
proof -
  let ?e0 = "e\<lparr>sk := (sk e)\<lparr>outbuf := cb_put (outbuf (sk e)) (unat q) None\<rparr>\<rparr>"
  define e1 where "e1 = snd (eng_millis ?e0)"
  define e2 where "e2 = snd (eng_micros (e1\<lparr>sk := count_transmission p (sk e1)\<rparr>))"
  define p2 where "p2 = p\<lparr>pkt_need_resend := False, pkt_data := set_ack_nr (pkt_data p) (ack_nr (count_transmission p (sk e1))),
      pkt_time_sent := fst (eng_micros (e1\<lparr>sk := count_transmission p (sk e1)\<rparr>)),
      pkt_transmissions := pkt_transmissions p + 1\<rparr>"
  define e3 where "e3 = e2\<lparr>sk := begin_probe (fst (eng_millis ?e0)) (p2\<lparr>pkt_transmissions := pkt_transmissions p\<rparr>) (sk e2)\<rparr>"
  define d where "d = send_data (pkt_data p2) e3"
  have eq: "send_packet_at q e = (snd d)\<lparr>sk := (sk (snd d))\<lparr>outbuf :=
      cb_put (outbuf (sk (snd d))) (unat q) (Some (p2\<lparr>pkt_data := fst d\<rparr>))\<rparr>\<rparr>"
    using assms by (simp add: send_packet_at_def split_beta Let_def d_def e3_def e2_def e1_def p2_def)
  have "sent_count (cx e3) = sent_count (cx e)"
    by (simp add: e3_def e2_def e1_def eng_millis_def eng_micros_def ctx_millis_def ctx_micros_def
        sent_count_def split_beta)
  moreover have "outbuf (sk (send_packet_at q e)) = cb_put (outbuf (sk e)) (unat q) (Some (p2\<lparr>pkt_data := fst d\<rparr>))"
    by (simp add: eq d_def sk_send_data e3_def e2_def e1_def)
  moreover have "cur_window (sk (send_packet_at q e)) =
      cur_window (sk e) + (if pkt_transmissions p = 0 \<or> pkt_need_resend p then pkt_payload p else 0)"
    by (simp add: eq d_def sk_send_data e3_def e2_def e1_def count_transmission_def)
  ultimately show ?thesis
    by (intro that [of "p2\<lparr>pkt_data := fst d\<rparr>"]) (simp_all add: eq p2_def d_def sent_count_send_data)
qed

lemma send_packet_at_frame [simp]:
  "fin_sent (sk (send_packet_at q e)) = fin_sent (sk e)"
  "sock_key (sk (send_packet_at q e)) = sock_key (sk e)"
  by (simp_all add: send_packet_at_def split_beta Let_def sk_send_data split: option.split)

lemma flight_send:
  assumes "flight_inv (sent_count (cx e)) (sk e)"
  shows "flight_inv (sent_count (cx (send_packet_at q e))) (sk (send_packet_at q e))"
proof (cases "cb_get (outbuf (sk e)) (unat q)")
  case None
  with assms show ?thesis by (simp add: send_packet_at_def)
next
  case (Some p)
  obtain p' where eff: "outbuf (sk (send_packet_at q e)) = cb_put (outbuf (sk e)) (unat q) (Some p')"
      "pkt_payload p' = pkt_payload p" "pkt_transmissions p' = pkt_transmissions p + 1"
      "\<not> pkt_need_resend p'" "length (pkt_data p') = length (pkt_data p)"
      "cur_window (sk (send_packet_at q e)) =
        cur_window (sk e) + (if pkt_transmissions p = 0 \<or> pkt_need_resend p then pkt_payload p else 0)"
      "sent_count (cx (send_packet_at q e)) = Suc (sent_count (cx e))"
    using send_packet_at_effect [OF Some] by metis
  have len: "length (pkt_data p) = HEADER_SIZE + pkt_payload p"
    using assms Some by (auto simp: flight_inv_def window_inv_def)
  have tr: "unat (pkt_transmissions p') = Suc (unat (pkt_transmissions p))"
    "unat (pkt_transmissions p) \<le> sent_count (cx e)" if "Suc (sent_count (cx e)) < 2 ^ 32"
  proof -
    show le: "unat (pkt_transmissions p) \<le> sent_count (cx e)"
      using assms Some that by (auto simp: flight_inv_def accounted_def)
    then show "unat (pkt_transmissions p') = Suc (unat (pkt_transmissions p))"
      unfolding eff(3) using that by (simp add: unat_word_ariths)
  qed
  have cw: "cur_window (sk (send_packet_at q e)) = cur_window (sk e) + inflight (Some p') - inflight (Some p)"
    if "Suc (sent_count (cx e)) < 2 ^ 32"
  proof -
    have "pkt_transmissions p' \<noteq> 0" using tr(1) [OF that] by auto
    then show ?thesis using eff by (simp add: inflight_def)
  qed
  show ?thesis
    unfolding eff(7)
    by (rule flight_replace [OF assms Some _ _ _ _ eff(1) refl]) (use eff len tr cw in simp_all)
qed

lemma flight_ack:
  assumes "flight_inv (sent_count (cx e)) (sk e)"
  shows "flight_inv (sent_count (cx (snd (ack_packet q e)))) (sk (snd (ack_packet q e)))"
proof (cases "cb_get (outbuf (sk e)) (unat q)")
  case (Some p)
  show ?thesis
  proof (cases "pkt_transmissions p = 0")
    case False
    let ?e = "snd (ack_packet q e)"
    have eff: "outbuf (sk ?e) = cb_put (outbuf (sk e)) (unat q) None"
        "cur_window (sk ?e) = (if pkt_need_resend p then cur_window (sk e)
           else usize_sub (cur_window (sk e)) (pkt_payload p))"
        "sent_count (cx ?e) = sent_count (cx e)"
      using Some False
      by (simp_all add: ack_packet_def split_beta Let_def eng_micros_def ctx_micros_def sent_count_def)
    show ?thesis
      unfolding eff(3)
      by (rule flight_replace [OF assms Some _ _ _ _ eff(1) refl])
        (use eff False ack_packet_frame in \<open>simp_all add: inflight_def split: if_splits\<close>)
  qed (use Some assms in \<open>simp add: ack_packet_def\<close>)
qed (use assms in \<open>simp add: ack_packet_def\<close>)

lemma flight_mark:
  assumes "flight_inv n s"
  shows "flight_inv n (mark_lost_step i s)"
proof (cases "cb_get (outbuf s) (unat (seq_nr s - of_nat i - 1))")
  case (Some p)
  let ?q = "seq_nr s - of_nat i - 1"
  show ?thesis
  proof (cases "pkt_transmissions p = 0 \<or> pkt_need_resend p")
    case False
    let ?s = "mark_lost_step i s"
    have eff: "outbuf ?s = cb_put (outbuf s) (unat ?q) (Some (p\<lparr>pkt_need_resend := True\<rparr>))"
      "cur_window ?s = usize_sub (cur_window s) (pkt_payload p)"
      "cur_window_packets ?s = cur_window_packets s" "seq_nr ?s = seq_nr s" "fin_sent ?s = fin_sent s"
      using Some False by (simp_all add: mark_lost_step_def Let_def)
    have "length (pkt_data p) = HEADER_SIZE + pkt_payload p" "n < 2 ^ 32 \<Longrightarrow> unat (pkt_transmissions p) \<le> n"
      using assms Some by (auto simp: flight_inv_def window_inv_def accounted_def)
    then show ?thesis
      using False by (intro flight_replace [OF assms Some _ _ _ _ eff(1) refl eff(3-5)]) (simp_all add: inflight_def eff(2))
  qed (use Some assms in \<open>simp add: mark_lost_step_def Let_def\<close>)
qed (use assms in \<open>simp add: mark_lost_step_def Let_def\<close>)

lemma flight_retire:
  assumes "flight_inv n s" and pos: "cur_window_packets s > 0"
    and none: "cb_get (outbuf s) (unat (seq_nr s - cur_window_packets s)) = None"
  shows "flight_inv n (s\<lparr>cur_window_packets := cur_window_packets s - 1\<rparr>)"
proof -
  let ?c = "cur_window_packets s" and ?b = "outbuf s"
  have w: "window_inv s" using assms(1) by (simp add: flight_inv_def)
  then have wf: "cb_wf ?b" by (simp add: window_inv_def)
  have c: "unat (?c - 1) = unat ?c - 1" "0 < unat ?c"
    using pos by (simp_all add: unat_minus_one word_neq_0_conv word_less_nat_alt)
  have "cb_get ?b (unat (seq_nr s - (?c - 1)) + j) = None" if j: "unat ?c - 1 \<le> j" "j < cb_size ?b" for j
  proof -
    have "cb_get ?b (unat (seq_nr s - (?c - 1)) + j) = cb_get ?b (unat (seq_nr s - ?c) + (1 + j))"
      using ring.get_u16 [OF wf, of "seq_nr s - (?c - 1)" j] ring.get_u16 [OF wf, of "seq_nr s - ?c" "1 + j"]
      by (simp add: algebra_simps)
    also have "\<dots> = None"
    proof (cases "1 + j < cb_size ?b")
      case True
      moreover have "unat ?c \<le> 1 + j" using j(1) by simp
      ultimately show ?thesis using w unfolding window_inv_def by blast
    next
      case False
      with j have "1 + j = cb_size ?b" by simp
      then have "cb_get ?b (unat (seq_nr s - ?c) + (1 + j)) = cb_get ?b (unat (seq_nr s - ?c))"
        using wf by (intro cb_get_cong) simp_all
      with none show ?thesis by simp
    qed
    finally show ?thesis .
  qed
  with w c have "window_inv (s\<lparr>cur_window_packets := ?c - 1\<rparr>)" by (auto simp: window_inv_def)
  with assms(1) show ?thesis by (simp add: flight_inv_def accounted_def)
qed

section \<open>Queueing packets\<close>

lemma mod_add_surj:
  fixes n :: nat
  assumes "0 < n"
  obtains j where "j < n" "(base + j) mod n = i mod n"
proof (rule that)
  let ?j = "(i + (n - base mod n)) mod n"
  show "?j < n" using assms by simp
  have "(base + ?j) mod n = (base mod n + (i + (n - base mod n))) mod n"
    by (simp add: mod_add_left_eq mod_add_right_eq)
  also have "base mod n + (i + (n - base mod n)) = i + n"
    using mod_less_divisor [OF assms, of base] by linarith
  finally show "(base + ?j) mod n = i mod n" by simp
qed


text \<open>A new packet takes the slot right after the window, which is empty once there is room for it.\<close>

lemma flight_append:
  assumes "flight_inv n s" and room: "unat (cur_window_packets s) < 1023 + of_bool (fin_sent s)"
    and p: "length (pkt_data p) = HEADER_SIZE + pkt_payload p" "pkt_transmissions p = 0"
    and s': "outbuf s' = cb_put (cb_ensure_size (outbuf s) (unat (seq_nr s)) (unat (cur_window_packets s)))
               (unat (seq_nr s)) (Some p)"
      "seq_nr s' = seq_nr s + 1" "cur_window_packets s' = cur_window_packets s + 1"
      "fin_sent s' = fin_sent s" "cur_window s' = cur_window s"
  shows "flight_inv n s'"
proof -
  let ?c = "cur_window_packets s" and ?b = "outbuf s"
  let ?e = "cb_ensure_size ?b (unat (seq_nr s)) (unat ?c)" and ?base = "unat (seq_nr s - ?c)"
  have w: "window_inv s" using assms(1) by (simp add: flight_inv_def)
  then have wf: "cb_wf ?b" by (simp add: window_inv_def)
  have lt: "unat ?c < 2 ^ 15" using room by (auto simp: of_bool_def split: if_splits)
  then have c1: "unat (?c + 1) = Suc (unat ?c)" by (simp add: unat_word_ariths)
  have item: "(?base + unat ?c) mod 2 ^ 16 = unat (seq_nr s) mod 2 ^ 16"
    using unat_u16_add_mod [of "2 ^ 16" "seq_nr s - ?c" "unat ?c"] by simp
  have wfe: "cb_wf ?e" and roome: "unat ?c < cb_size ?e" and mono: "cb_size ?b \<le> cb_size ?e"
    using ring.ensure_wf [OF wf lt] ring.ensure_room [OF wf lt] ring.ensure_mono [OF wf lt] by blast+
  have eget: "cb_get ?e (?base + j) = (if j < cb_size ?b then cb_get ?b (?base + j) else None)" if "j < cb_size ?e" for j
    by (rule ring.ensure_get [OF wf lt item that])
  have outside: "cb_get ?e (?base + j) = None" if "unat ?c \<le> j" "j < cb_size ?e" for j
    using eget [OF that(2)] w that(1) by (auto simp: window_inv_def)
  have slot: "(?base + unat ?c) mod cb_size ?e = unat (seq_nr s) mod cb_size ?e"
    using unat_u16_add_mod [OF cb_size_dvd [OF wfe], of "seq_nr s - ?c" "unat ?c"] by simp
  have seq_none: "cb_get ?e (unat (seq_nr s)) = None"
    using cb_get_cong [OF wfe slot] outside [OF order_refl roome] by simp
  have get: "cb_get (outbuf s') (?base + j) = (if j = unat ?c then Some p else cb_get ?e (?base + j))"
    if "j < cb_size ?e" for j
    using cb_get_put [OF wfe, of "unat (seq_nr s)" "Some p" "?base + j"] slot
      mod_add_inj [of ?base j "cb_size ?e" "unat ?c"] that roome unfolding s'(1) by auto
  have origin: "\<exists>k. cb_get ?b k = Some p'" if "cb_get ?e i = Some p'" for i p'
  proof -
    obtain j where "j < cb_size ?e" "(?base + j) mod cb_size ?e = i mod cb_size ?e"
      using mod_add_surj [OF cb_size_pos] by metis
    with cb_get_cong [OF wfe this(2)] eget [OF this(1)] that show ?thesis by (auto split: if_splits)
  qed
  have packets: "P p'" if "cb_get (outbuf s') i = Some p'" "P p" "\<And>k p'. cb_get ?b k = Some p' \<Longrightarrow> P p'" for P i p'
  proof (cases "unat (seq_nr s) mod cb_size ?e = i mod cb_size ?e")
    case True
    then have "cb_get (outbuf s') i = Some p" unfolding s'(1) cb_get_put [OF wfe] by simp
    with that show ?thesis by simp
  next
    case False
    then have "cb_get ?e i = Some p'" using that(1) unfolding s'(1) cb_get_put [OF wfe] by simp
    from origin [OF this] that(3) show ?thesis by blast
  qed
  have "window_inv s'"
    unfolding window_inv_def
  proof (intro conjI allI impI)
    show "cb_wf (outbuf s')" "unat (cur_window_packets s') \<le> cb_size (outbuf s')"
      "unat (cur_window_packets s') \<le> 1023 + of_bool (fin_sent s')"
      using wfe roome room c1 by (simp_all add: s')
    show "cb_get (outbuf s') (unat (seq_nr s' - cur_window_packets s') + j) = None"
      if "unat (cur_window_packets s') \<le> j \<and> j < cb_size (outbuf s')" for j
      using that get [of j] outside [of j] c1 by (simp add: s')
    show "length (pkt_data p') = HEADER_SIZE + pkt_payload p'" if "cb_get (outbuf s') i = Some p'" for i p'
      by (rule packets [OF that]) (use w p(1) in \<open>auto simp: window_inv_def\<close>)
  qed
  moreover have "accounted n s'" if n: "n < 2 ^ 32"
  proof -
    have acc: "accounted n s" using assms(1) n by (simp add: flight_inv_def)
    have "ring_total inflight (cb_size (outbuf s')) (cb_get (outbuf s')) = ring_total inflight (cb_size ?e) (cb_get ?e)"
      using ring.total_put [OF wfe, of inflight "unat (seq_nr s)" "Some p"] seq_none p(2)
      unfolding s'(1) by (simp add: inflight_def)
    also have "\<dots> = ring_total inflight (cb_size ?b) (cb_get ?b)"
      by (rule ring.total_ensure [OF wf lt]) (simp add: inflight_def)
    finally have "cur_window s' = ring_total inflight (cb_size (outbuf s')) (cb_get (outbuf s'))"
      using acc by (simp add: accounted_def s'(5))
    moreover have "unat (pkt_transmissions p') \<le> n" if "cb_get (outbuf s') i = Some p'" for i p'
      by (rule packets [OF that]) (use acc p(2) in \<open>auto simp: accounted_def\<close>)
    ultimately show ?thesis by (simp add: accounted_def)
  qed
  ultimately show ?thesis by (simp add: flight_inv_def)
qed

lemma flight_queue:
  assumes "flight_inv n (sk e)" and "send_room e" and "payload \<le> length data"
  shows "flight_inv n (sk (snd (snd (write_step ps fl payload data e))))"
proof -
  let ?s = "(sk e)\<lparr>last_rcv_win := get_rcv_window e\<rparr>"
  have inv: "flight_inv n ?s" by (rule flight_inv_cong [OF _ _ _ _ _ assms(1)]) simp_all
  show ?thesis
  proof (cases "extend_last ps payload ?s")
    case None
    let ?stamp = "stamp_header fl (ucast (conn_id_send ?s)) (u32_of_usize (get_rcv_window e)) (ack_nr ?s)"
    let ?p = "\<lparr>pkt_payload = payload, pkt_time_sent = 0, pkt_transmissions = 0, pkt_need_resend = False,
        pkt_data = set_seq_nr (?stamp (replicate HEADER_SIZE 0 @ take (min payload (length data)) data)) (seq_nr ?s)\<rparr>"
    show ?thesis
      by (rule flight_append [OF inv, of ?p])
        (use None assms in \<open>simp_all add: write_step_def Let_def stamp_header_def send_room_def\<close>)
  next
    case (Some p)
    then have p: "cb_get (outbuf ?s) (unat (seq_nr ?s - 1)) = Some p" "pkt_transmissions p = 0"
      by (auto simp: extend_last_def split: if_splits option.splits)
    have len: "length (pkt_data p) = HEADER_SIZE + pkt_payload p"
      using inv p(1) by (auto simp: flight_inv_def window_inv_def)
    define added where "added = min (payload + pkt_payload p) (max ps (pkt_payload p)) - pkt_payload p"
    have ad: "added \<le> length data" using assms(3) by (auto simp: added_def)
    define p1 where "p1 = p\<lparr>pkt_data := stamp_header fl (ucast (conn_id_send ?s)) (u32_of_usize (get_rcv_window e))
        (ack_nr ?s) (pkt_data p @ take added data), pkt_payload := pkt_payload p + added\<rparr>"
    have eff: "sk (snd (snd (write_step ps fl payload data e))) =
        ?s\<lparr>outbuf := cb_put (outbuf ?s) (unat (seq_nr ?s - 1)) (Some p1)\<rparr>"
      using Some ad by (simp add: write_step_def Let_def p1_def added_def)
    show ?thesis
      unfolding eff
      by (rule flight_replace [OF inv p(1), where v = "Some p1" and cw = "cur_window ?s"])
        (use p len ad in \<open>simp_all add: p1_def stamp_header_def inflight_def\<close>)
  qed
qed

section \<open>Congestion window and MTU\<close>

text \<open>
  The congestion window is at least \<open>MIN_WINDOW_SIZE\<close> and at most the send buffer, or one packet
  when the send buffer is smaller than that.
\<close>

definition cwnd_inv :: "utp_sock \<Rightarrow> bool" where
  "cwnd_inv s \<longleftrightarrow> mtu_inv s \<and> MIN_WINDOW_SIZE \<le> max_window s \<and> max_window s \<le> max (opt_sndbuf s) 1382"

definition core_cc :: "utp_sock \<Rightarrow> _" where
  "core_cc s = (sock_key s, max_window s, opt_sndbuf s,
     (mtu_floor s, mtu_ceiling s, mtu_last s, mtu_probe_seq s, mtu_probe_size s))"

lemma cwnd_inv_cong: "core_cc s' = core_cc s \<Longrightarrow> cwnd_inv s' = cwnd_inv s"
  unfolding cwnd_inv_def core_cc_def using mtu_inv_cong [of s' s] by simp

lemma core_cc_of_core: "core s' = core s \<Longrightarrow> core_cc s' = core_cc s"
  by (simp add: core_defs core_cc_def)

lemma core_cc_moves [simp]:
  "core_cc (sk (snd (ack_packet q e))) = core_cc (sk e)"
  "core_cc (sk (snd (snd (write_step ps fl n d e)))) = core_cc (sk e)"
  "core_cc (mark_lost_step i s) = core_cc s"
  "core_cc (s\<lparr>cur_window_packets := w\<rparr>) = core_cc s"
  "core_cc (count_transmission p s) = core_cc s"
  "core_cc (s\<lparr>last_sent_packet := x, in_ack_list := y\<rparr>) = core_cc s"
  "core_cc (s\<lparr>outbuf := b\<rparr>) = core_cc s"
proof -
  have rtt: "core_cc (update_rtt r t s) = core_cc s" for r t s
    by (rule core_cc_of_core) simp
  show "core_cc (sk (snd (ack_packet q e))) = core_cc (sk e)"
    using rtt by (simp add: ack_packet_def core_cc_def split_beta Let_def split: option.split)
qed (simp_all add: write_step_def mark_lost_step_def count_transmission_def core_cc_def Let_def
      split: option.split)

lemma mtu_inv_begin_probe:
  assumes "mtu_inv s"
  shows "mtu_inv (begin_probe t p s)"
proof -
  define s1 where "s1 = (if mtu_discover_time s < t then mtu_reset t s else s)"
  have "mtu_inv s1" using assms mtu_reset_inv by (simp add: s1_def)
  then show ?thesis
    unfolding begin_probe_def Let_def s1_def [symmetric]
    by (auto simp: mtu_inv_def mtu_probe_ok_def get_udp_mtu_def)
qed

lemma cwnd_inv_send: "cwnd_inv (sk e) \<Longrightarrow> cwnd_inv (sk (send_packet_at q e))"
proof (cases "cb_get (outbuf (sk e)) (unat q)")
  case (Some p)
  assume inv: "cwnd_inv (sk e)"
  have "\<exists>t p' s. core_cc s = core_cc (sk e) \<and> core_cc (sk (send_packet_at q e)) = core_cc (begin_probe t p' s)"
    using Some
    by (simp add: send_packet_at_def split_beta Let_def sk_send_data)
      (intro exI, rule conjI [rotated], rule refl, simp)
  then obtain t p' s where s: "core_cc s = core_cc (sk e)"
      and r: "core_cc (sk (send_packet_at q e)) = core_cc (begin_probe t p' s)" by blast
  from s inv have "cwnd_inv s" using cwnd_inv_cong by blast
  then have "cwnd_inv (begin_probe t p' s)"
    using mtu_inv_begin_probe [of s t p'] by (simp add: cwnd_inv_def begin_probe_def mtu_reset_def Let_def)
  with r show ?thesis using cwnd_inv_cong by blast
qed (simp add: send_packet_at_def)

lemma cwnd_inv_choose: "cwnd_inv s \<Longrightarrow> cwnd_ok s w \<Longrightarrow> cwnd_inv (s\<lparr>max_window := w\<rparr>)"
proof -
  assume inv: "cwnd_inv s" and ok: "cwnd_ok s w"
  then have m: "mtu_inv s" by (simp add: cwnd_inv_def)
  have "mtu_inv (s\<lparr>max_window := w\<rparr>)" using m mtu_inv_cong [of "s\<lparr>max_window := w\<rparr>" s] by simp
  with inv ok mtu_inv_packet_size [OF m] show ?thesis
    by (auto simp: cwnd_inv_def cwnd_ok_def MIN_WINDOW_SIZE_def)
qed

lemma max_window_search [simp]:
  "max_window (sk (mtu_search_update e)) = max_window (sk e)"
  "opt_sndbuf (sk (mtu_search_update e)) = opt_sndbuf (sk e)"
  by (simp_all add: mtu_search_update_def mtu_repair_def Let_def split_beta)

lemma cwnd_inv_probe:
  assumes "cwnd_inv (sk e)" "mtu_probe_seq (sk e) \<noteq> 0"
  shows "cwnd_inv (sk (probe_arrived e))" "cwnd_inv (sk (probe_lost e))"
  using assms probe_arrived_gap(1) [of e] probe_lost_gap(1) [of e]
  by (simp_all add: cwnd_inv_def) (simp_all add: probe_arrived_def probe_lost_def)

section \<open>The invariant of a connection\<close>

definition conn_inv :: "eng \<Rightarrow> bool" where
  "conn_inv e \<longleftrightarrow> flight_inv (sent_count (cx e)) (sk e) \<and> cwnd_inv (sk e)"

lemma flight_core_tx:
  "core_tx s' = core_tx s \<Longrightarrow> flight_inv n s \<Longrightarrow> n \<le> n' \<Longrightarrow> flight_inv n' s'"
  by (rule flight_inv_cong) (simp_all add: core_tx_def)

lemma cwnd_core_tx: "core_tx s' = core_tx s \<Longrightarrow> cwnd_inv s' = cwnd_inv s"
  by (rule cwnd_inv_cong) (simp add: core_tx_def core_cc_def)

lemma flight_probe:
  assumes "flight_inv n (sk e)"
  shows "flight_inv n (sk (probe_arrived e))" "flight_inv n (sk (probe_lost e))"
  by (rule flight_inv_cong [OF _ _ _ _ _ assms];
      simp add: probe_arrived_def probe_lost_def mtu_search_update_def mtu_repair_def Let_def split_beta)+

lemma sent_count_probe [simp]:
  "sent_count (cx (probe_arrived e)) = sent_count (cx e)" "sent_count (cx (probe_lost e)) = sent_count (cx e)"
  by (simp_all add: probe_arrived_def probe_lost_def mtu_search_update_def eng_millis_def ctx_millis_def
      sent_count_def Let_def split_beta)

lemma conn_inv_quiet: "conn_inv e \<Longrightarrow> quiet e e' \<Longrightarrow> conn_inv e'"
  using flight_core_tx [of "sk e'" "sk e"] cwnd_core_tx [of "sk e'" "sk e"]
  by (auto simp: conn_inv_def quiet_def quiet_ctx_def core_def)

lemma conn_inv_queue:
  assumes "conn_inv e" "send_room e" "payload \<le> length data"
  shows "conn_inv (snd (snd (write_step ps fl payload data e)))"
proof -
  have "sent_count (cx (snd (snd (write_step ps fl payload data e)))) = sent_count (cx e)"
    by (simp add: write_step_def Let_def split: option.split)
  with assms show ?thesis using cwnd_inv_cong [OF core_cc_moves(2)] by (simp add: conn_inv_def flight_queue)
qed

interpretation conn: conn_invariant conn_inv
proof (unfold_locales, goal_cases)
  case (1 e e') then show ?case by (rule conn_inv_quiet)
next
  case (3 e) then show ?case by (simp add: conn_inv_def flight_inv_def window_inv_def)
next
  case (4 e) then show ?case by (simp add: conn_inv_def flight_inv_def window_inv_def)
next
  case (2 e q) then show ?case by (simp add: conn_inv_def flight_send cwnd_inv_send)
next
  case (5 e q) then show ?case using cwnd_inv_cong [OF core_cc_moves(1)] by (simp add: conn_inv_def flight_ack)
next
  case (6 e) then show ?case using cwnd_inv_cong [OF core_cc_moves(4)] by (simp add: conn_inv_def flight_retire)
next
  case (7 e fl ps d) show ?case by (rule conn_inv_queue [OF 7(1,2)]) simp
next
  case (8 e w)
  then show ?case
    using flight_inv_cong [of "(sk e)\<lparr>max_window := w\<rparr>" "sk e" "sent_count (cx e)" "sent_count (cx e)"]
    by (simp add: conn_inv_def cwnd_inv_choose)
next
  case (9 e) then show ?case by (simp add: conn_inv_def flight_probe cwnd_inv_probe)
next
  case (10 e) then show ?case by (simp add: conn_inv_def flight_probe cwnd_inv_probe)
next
  case (11 e)
  then show ?case
    using flight_inv_cong [of "(sk e)\<lparr>mtu_probe_seq := 0, mtu_probe_size := 0\<rparr>" "sk e" "sent_count (cx e)" "sent_count (cx e)"]
    by (simp add: conn_inv_def cwnd_inv_def mtu_inv_def get_udp_mtu_def)
next
  case (12 e i) then show ?case using cwnd_inv_cong [OF core_cc_moves(3)] by (simp add: conn_inv_def flight_mark)
next
  case (13 e s') then show ?case
    using cwnd_core_tx [of s' "sk e"] flight_core_tx [of s' "sk e" "sent_count (cx e)" "sent_count (cx e)"]
    by (simp add: conn_inv_def)
next
  case (14 e d) then show ?case by (simp add: conn_inv_def user_call_def ctx_cell_def sent_count_def)
next
  case (15 e)
  then have "flight_inv (sent_count (cx e)) ((sk e)\<lparr>fin_sent := True\<rparr>)"
    by (auto simp: conn_inv_def flight_inv_def window_inv_def accounted_def)
  moreover have "cwnd_inv ((sk e)\<lparr>fin_sent := True\<rparr>) = cwnd_inv (sk e)"
    by (rule cwnd_inv_cong) (simp add: core_cc_def)
  ultimately show ?case using 15 by (simp add: conn_inv_def)
qed

end
