(* ===== verification/Calm.thy ===== *)
theory Calm
  imports Flight
begin

text \<open>
  A change is calm when it leaves the receiving side of the connection and its identity alone:
  sequence numbers, the reorder buffer, end of stream, the bytes the user has not read yet. All that
  the packet handler does before it delivers the payload is calm: a second interpretation of the
  interface \<open>send_invariant\<close>, on the invariant joined with \<open>calm\<close>, shows it operation by operation.
\<close>

section \<open>Moves that leave the receiving side alone\<close>

definition calm :: "eng \<Rightarrow> eng \<Rightarrow> bool" where
  "calm e e' \<longleftrightarrow> quiet_ctx (cx e) (cx e') \<and> core_rx (sk e') = core_rx (sk e)
     \<and> sock_key (sk e') = sock_key (sk e) \<and> sock_user (sk e') = sock_user (sk e)
     \<and> conn_id_recv (sk e') = conn_id_recv (sk e) \<and> conn_id_send (sk e') = conn_id_send (sk e)
     \<and> opt_sndbuf (sk e') = opt_sndbuf (sk e) \<and> opt_rcvbuf (sk e') = opt_rcvbuf (sk e)
     \<and> fin_sent (sk e') = fin_sent (sk e) \<and> opened e e'"

lemma calm_refl [simp]: "calm e e"
  by (simp add: calm_def opened_def)

lemma calm_trans:
  assumes "calm a b" "calm b c"
  shows "calm a c"
proof -
  have "opened a c" using assms quiet_ctx_notified by (intro opened_trans [of a b c]) (simp_all add: calm_def)
  then show ?thesis using assms by (auto simp: calm_def intro: quiet_ctx_trans)
qed

lemma quiet_calm: "quiet e e' \<Longrightarrow> calm e e'"
  by (simp add: quiet_def calm_def core_defs)

definition core_id :: "utp_sock \<Rightarrow> _" where
  "core_id s = (core_rx s, sock_key s, sock_user s, conn_id_recv s, conn_id_send s, opt_sndbuf s, opt_rcvbuf s, fin_sent s)"

lemma calm_iff: "calm e e' \<longleftrightarrow> quiet_ctx (cx e) (cx e') \<and> core_id (sk e') = core_id (sk e) \<and> opened e e'"
  by (auto simp: calm_def core_id_def)

lemma core_id_of_core: "core s' = core s \<Longrightarrow> core_id s' = core_id s"
  by (simp add: core_defs core_id_def)

lemma core_id_steps [simp]:
  "core_id (count_transmission p s) = core_id s" "core_id (begin_probe t p s) = core_id s"
  "core_id (s\<lparr>outbuf := b\<rparr>) = core_id s" "core_id (s\<lparr>last_sent_packet := x, in_ack_list := y\<rparr>) = core_id s"
  "core_id (mark_lost_step i s) = core_id s" "core_id (s\<lparr>cur_window_packets := w\<rparr>) = core_id s"
  "core_id (s\<lparr>max_window := v\<rparr>) = core_id s" "core_id (s\<lparr>mtu_floor := f\<rparr>) = core_id s"
  "core_id (s\<lparr>mtu_ceiling := f\<rparr>) = core_id s" "core_id (mtu_repair s) = core_id s"
  "core_id (s\<lparr>mtu_probe_seq := g, mtu_probe_size := h\<rparr>) = core_id s"
  "core_id (update_rtt r u s) = core_id s"
proof -
  show "core_id (update_rtt r u s) = core_id s" by (rule core_id_of_core) simp
qed (simp_all add: core_id_def core_rx_def count_transmission_def begin_probe_def mtu_reset_def
      mark_lost_step_def mtu_repair_def Let_def split: option.split)

lemma core_id_fields [simp]:
  "core_id (s\<lparr>retransmit_timeout := v1\<rparr>) = core_id s" "core_id (s\<lparr>rto_timeout := v2\<rparr>) = core_id s"
  "core_id (s\<lparr>cur_window := v3\<rparr>) = core_id s" "core_id (s\<lparr>retransmit_count := v4\<rparr>) = core_id s"
  "core_id (s\<lparr>last_rcv_win := v5\<rparr>) = core_id s" "core_id (s\<lparr>seq_nr := v6\<rparr>) = core_id s"
  "core_id (s\<lparr>mtu_last := v7\<rparr>) = core_id s" "core_id (s\<lparr>mtu_discover_time := v8\<rparr>) = core_id s"
  "core_id (s\<lparr>mtu_probe_seq := v7\<rparr>) = core_id s" "core_id (s\<lparr>mtu_probe_size := v7\<rparr>) = core_id s"
  by (simp_all add: core_id_def core_rx_def)

lemma quiet_ctx_clock [simp]:
  "quiet_ctx c (cx (snd (eng_millis e))) = quiet_ctx c (cx e)"
  "quiet_ctx c (cx (snd (eng_micros e))) = quiet_ctx c (cx e)"
  by (simp_all add: quiet_ctx_def eng_millis_def eng_micros_def ctx_millis_def ctx_micros_def sent_count_def split_beta)

lemma quiet_ctx_send_data [simp]: "quiet_ctx c (cx e) \<Longrightarrow> quiet_ctx c (cx (snd (send_data b e)))"
  by (rule quiet_ctx_trans [OF _ send_data_frame(2)])

text \<open>The primitive moves leave the state of the connection alone.\<close>

lemma state_steps [simp]:
  "sock_state (count_transmission p s) = sock_state s" "sock_state (begin_probe t p s) = sock_state s"
  "sock_state (mtu_repair s) = sock_state s" "sock_state (update_rtt r u s) = sock_state s"
  "sock_state (mark_lost_step i s) = sock_state s"
  by (simp_all add: count_transmission_def begin_probe_def mtu_reset_def mtu_repair_def update_rtt_def
      mark_lost_step_def Let_def split: option.split)

lemma state_moves [simp]:
  "sock_state (sk (send_packet_at q e)) = sock_state (sk e)" "sock_state (sk (snd (ack_packet q e))) = sock_state (sk e)"
  "sock_state (sk (snd (snd (write_step ps fl n d e)))) = sock_state (sk e)"
  "sock_state (sk (probe_arrived e)) = sock_state (sk e)" "sock_state (sk (probe_lost e)) = sock_state (sk e)"
  by (simp_all add: send_packet_at_def ack_packet_def write_step_def probe_arrived_def probe_lost_def
      mtu_search_update_def sk_send_data split_beta Let_def split: option.split)

lemma calmI:
  "quiet_ctx (cx e) (cx e') \<Longrightarrow> core_id (sk e') = core_id (sk e) \<Longrightarrow> sock_state (sk e') = sock_state (sk e) \<Longrightarrow> calm e e'"
  by (simp add: calm_iff opened_same)

lemma calm_send: "calm e (send_packet_at q e)"
  by (rule calmI) (simp_all add: send_packet_at_def split_beta Let_def sk_send_data split: option.split)

lemma calm_ack: "calm e (snd (ack_packet q e))"
  by (rule calmI) (simp_all add: ack_packet_def split_beta Let_def split: option.split)

lemma calm_queue: "calm e (snd (snd (write_step ps fl n d e)))"
  by (rule calmI) (simp_all add: write_step_def Let_def split: option.split)

lemma calm_probe: "calm e (probe_arrived e)" "calm e (probe_lost e)"
  by (rule calmI; simp add: probe_arrived_def probe_lost_def mtu_search_update_def split_beta Let_def)+

lemma calm_upd: "calm e0 e \<Longrightarrow> core_id s' = core_id (sk e) \<Longrightarrow> sock_state s' = sock_state (sk e) \<Longrightarrow> calm e0 (e\<lparr>sk := s'\<rparr>)"
  by (rule calm_trans [OF _ calmI]) simp_all

interpretation calm: send_invariant "\<lambda>e. conn_inv e \<and> calm e0 e" for e0
proof (unfold_locales, goal_cases)
  case (1 e e') then show ?case using conn.quiet quiet_calm calm_trans by blast
next
  case (3 e) then show ?case using conn.ring by blast
next
  case (4 e) then show ?case using conn.window by blast
next
  case (2 e q) then show ?case using conn.send calm_send calm_trans by blast
next
  case (5 e q) then show ?case using conn.ack calm_ack calm_trans by blast
next
  case (6 e) then show ?case using conn.retire by (simp add: calm_upd)
next
  case (7 e fl ps d) then show ?case
    using conn.queue_empty [of e fl ps d] calm_trans [OF _ calm_queue, of e0 e ps fl 0 d] by simp
next
  case (8 e w) then show ?case using conn.cwnd by (simp add: calm_upd)
next
  case (9 e) then show ?case using conn.arrived calm_probe calm_trans by blast
next
  case (10 e) then show ?case using conn.lost calm_probe calm_trans by blast
next
  case (11 e) then show ?case using conn.forget by (simp add: calm_upd)
next
  case (12 e i) then show ?case using conn.mark by (simp add: calm_upd)
qed

text \<open>Writes of the user are calm as well.\<close>

interpretation calm_write: write_invariant "\<lambda>_ e. conn_inv e \<and> calm e0 e" for e0
proof (unfold_locales, goal_cases)
  case (1 W e e') then show ?case by (rule calm.quiet)
next
  case (2 W e q) then show ?case by (rule calm.send)
next
  case (3 W e payload data fl ps added data1 e1)
  then show ?case
    using conn_inv_queue [of e payload data ps fl] calm_trans [OF _ calm_queue, of e0 e ps fl payload data] by simp
qed

lemma write_engine_calm:
  "conn_inv e \<Longrightarrow> conn_inv (snd (write_engine buf e)) \<and> calm e (snd (write_engine buf e))"
  using calm_write.write_engine_any [of e e buf] by simp

end
