(* ===== verification/No_Panic.thy ===== *)
theory No_Panic
  imports Calm
begin

text \<open>
  When the packet handler returns. Its partial operations are the header reads, the average of the
  delay samples and the clamp of the congestion window; every packet with a whole header passes them
  all, given a send buffer of ten bytes or more and a sample counter that has not wrapped around.
\<close>

section \<open>The congestion controller\<close>

lemma apply_ccontrol_None: "apply_ccontrol now n m s = None \<longleftrightarrow> opt_sndbuf s < MIN_WINDOW_SIZE"
  by (auto simp: apply_ccontrol_def Let_def usize_clamp_def)

section \<open>The delay samples\<close>

definition samples_ok :: "utp_sock \<Rightarrow> bool" where
  "samples_ok s \<longleftrightarrow> 0 \<le> current_delay_samples s \<and> current_delay_samples s < 2 ^ 31 - 1"

lemma our_delay_update_total:
  assumes "samples_ok s"
  shows "\<exists>s'. our_delay_update actual now s = Some s'"
proof -
  have "as_i32 (current_delay_samples s + 1) > 0"
    using assms unfolding samples_ok_def by (subst as_i32_id) simp_all
  then have "i64_div x (as_i32 (current_delay_samples s + 1)) \<noteq> None" for x by (simp add: i64_div_def)
  then show ?thesis by (simp add: our_delay_update_def Let_def)
qed

lemma samples_their_delay_update [simp]:
  "current_delay_samples (their_delay_update time tv now s) = current_delay_samples s"
  by (simp add: their_delay_update_def Let_def)

lemma measure_delay_total:
  assumes "length buf \<ge> HEADER_SIZE" "samples_ok s" "MIN_WINDOW_SIZE \<le> opt_sndbuf s"
  shows "\<exists>s'. measure_delay buf time n m now s = Some s'"
proof -
  obtain tv rm where h: "hdr_tv_usec buf = Some tv" "hdr_reply_micro buf = Some rm"
    using hdr_total [OF assms(1)] by blast
  let ?a = "if rm = 0x7fffffff then 0 else rm" and ?s = "their_delay_update time tv now s"
  have "samples_ok ?s" using assms(2) by (simp add: samples_ok_def)
  then obtain s1 where s1: "our_delay_update ?a now ?s = Some s1" using our_delay_update_total by blast
  have "core (rtt_shift m s1) = core s"
    using core_our_delay_update [OF s1] core_delay_updates(1) core_delay_updates(3) by metis
  then have "opt_sndbuf (rtt_shift m s1) = opt_sndbuf s" by (simp add: core_defs)
  then obtain s2 where "apply_ccontrol now n m (rtt_shift m s1) = Some s2"
    using apply_ccontrol_None [of now n m "rtt_shift m s1"] assms(3) by (metis not_less option.exhaust)
  with h s1 show ?thesis by (simp add: measure_delay_def Let_def del: bind_assoc)
qed

section \<open>The handler\<close>

lemma samples_search [simp]: "current_delay_samples (sk (mtu_search_update e)) = current_delay_samples (sk e)"
  by (simp add: mtu_search_update_def mtu_repair_def Let_def split_beta)

lemma samples_dup_ack [simp]: "current_delay_samples (sk (dup_ack_update fl a e)) = current_delay_samples (sk e)"
  by (simp add: dup_ack_update_def Let_def)

lemma samples_count_step:
  "current_delay_samples (sk (snd (snd (count_acked_step now i st)))) = current_delay_samples (sk (snd (snd st)))"
  by (simp add: count_acked_step_def Let_def split_beta split: option.split)

lemma samples_measure_acked [simp]:
  "current_delay_samples (sk (snd (snd (measure_acked buf a acks sel e)))) = current_delay_samples (sk e)"
proof -
  have fold: "current_delay_samples (sk (snd (snd (fold (count_acked_step now) is st))))
      = current_delay_samples (sk (snd (snd st)))" for now "is" st
    by (induction "is" arbitrary: st) (simp_all add: samples_count_step)
  show ?thesis
    by (simp add: measure_acked_def count_acked_def selective_ack_bytes_def Let_def split_beta fold split: option.split)
qed

lemma measure_packet_total:
  assumes "conn_inv e" "length buf \<ge> HEADER_SIZE" "samples_ok (sk e)" "MIN_WINDOW_SIZE \<le> opt_sndbuf (sk e)"
  shows "\<exists>e'. measure_packet buf time a acks sel (dup_ack_update fl a e) = Some e'"
proof -
  have "conn_inv e \<and> calm e e" using assms(1) by simp
  from calm.measure_acked_inv [OF calm.dup_ack_update_inv [OF this, of fl a], of buf a acks sel]
  have "opt_sndbuf (sk (snd (snd (measure_acked buf a acks sel (dup_ack_update fl a e))))) = opt_sndbuf (sk e)"
    by (simp add: calm_def)
  then show ?thesis
    using measure_delay_total [OF assms(2), of "sk (snd (snd (measure_acked buf a acks sel (dup_ack_update fl a e))))"] assms(3,4)
    by (auto simp: measure_packet_def Let_def split_beta samples_ok_def)
qed

lemma incoming_body_total:
  assumes "conn_inv e" "length buf \<ge> HEADER_SIZE" "samples_ok (sk e)" "MIN_WINDOW_SIZE \<le> opt_sndbuf (sk e)"
  shows "\<exists>r. incoming_body buf fl q a time ds sel e = Some r"
proof -
  obtain win where "hdr_window_size buf = Some win" using hdr_total [OF assms(2)] by blast
  then show ?thesis
    using measure_packet_total [OF assms, of time a "count_acks a (sk e)" sel fl]
    by (auto simp: incoming_body_def Let_def)
qed

lemma samples_ext_loop [simp]: "current_delay_samples (fst (ext_loop buf ds ext sel s)) = current_delay_samples s"
proof (induction buf ds ext sel s rule: ext_loop.induct)
  case (1 buf ds ext sel s)
  then show ?case by (subst ext_loop.simps) (auto simp: Let_def)
qed

lemma samples_parse [simp]: "current_delay_samples (fst (parse_extensions buf ext s)) = current_delay_samples s"
  by (simp add: parse_extensions_def)

lemma process_incoming_total:
  assumes "conn_inv e" "length buf \<ge> HEADER_SIZE" "samples_ok (sk e)" "MIN_WINDOW_SIZE \<le> opt_sndbuf (sk e)"
  shows "\<exists>r. process_incoming buf syn e = Some r"
proof -
  define e2 where "e2 = snd (eng_micros (set_current_ms e))"
  have q: "quiet e e2" using quiet_trans [OF quiet_set_current_ms quiet_micros] by (simp add: e2_def)
  have sm: "current_delay_samples (sk e2) = current_delay_samples (sk e)" by (simp add: e2_def set_current_ms_def split_beta)
  obtain sq a fl ext where h: "hdr_seq_nr buf = Some sq" "hdr_ack_nr buf = Some a" "hdr_packet_type buf = Some fl"
      "hdr_ext buf = Some ext" using hdr_total [OF assms(2)] by blast
  define e3 where "e3 = e2\<lparr>sk := note_packet sq (current_ms (cx e2)) (fst (parse_extensions buf ext (sk e2)))\<rparr>"
  have "conn_inv (e2\<lparr>sk := fst (parse_extensions buf ext (sk e2))\<rparr>)"
    by (rule conn.quiet [OF assms(1) quiet_trans [OF q]]) (simp add: quiet_core)
  from conn.rx [OF this, of "sk e3"] have "conn_inv e3"
    by (simp add: e3_def core_tx_note_packet)
  moreover have "core (fst (parse_extensions buf ext (sk e2))) = core (sk e)" using q by (simp add: quiet_def)
  then have "opt_sndbuf (sk e3) = opt_sndbuf (sk e)"
    by (simp add: e3_def note_packet_def core_defs)
  moreover have "samples_ok (sk e3)" using assms(3) by (simp add: e3_def samples_ok_def note_packet_def sm)
  ultimately have "\<exists>r. incoming_body buf fl sq a time ds sel e3 = Some r" for time ds sel
    using incoming_body_total assms(2,4) by simp
  then show ?thesis
    unfolding e3_def e2_def
    by (simp add: process_incoming_def Let_def split_beta h split: option.split)
qed

section \<open>Fresh connections\<close>

lemma conn_inv_fresh:
  assumes "outbuf (sk e) = cb_new" "cur_window_packets (sk e) = 0" "cur_window (sk e) = 0" "cwnd_inv (sk e)"
  shows "conn_inv e"
  using assms by (simp add: conn_inv_def flight_inv_def window_inv_def accounted_def ring_total_def inflight_def)

lemma still_conn_inv: "conn_inv still_eng"
proof (rule conn_inv_fresh)
  show "cwnd_inv (sk still_eng)"
    by (simp add: still_defs Let_def cwnd_inv_def mtu_inv_def get_packet_size_def MIN_WINDOW_SIZE_def HEADER_SIZE_def
        DEFAULT_BUF_def usize_sub_def)
qed (simp_all add: still_defs Let_def)

lemma still_limits: "samples_ok (sk still_eng)" "MIN_WINDOW_SIZE \<le> opt_sndbuf (sk still_eng)"
  by (simp_all add: still_defs Let_def samples_ok_def MIN_WINDOW_SIZE_def DEFAULT_BUF_def)

section \<open>Properties\<close>




end
