(* ===== verification/Receive.thy ===== *)
theory Receive
  imports No_Panic
begin

text \<open>
  The receiving side: the reorder buffer as a window of the peer's packet stream, what the delivery of
  one packet does to it, and the order of the bytes the user reads.
\<close>

section \<open>The reorder window\<close>

text \<open>
  The peer's packets carry absolute numbers; packet \<open>a\<close> has the wire number \<open>of_nat a\<close> and the payload
  \<open>str a\<close>. Everything up to \<open>n\<close> has been delivered, and the slot \<open>j\<close> places behind the next expected
  packet holds, if anything, the payload of packet \<open>n + 1 + j\<close>.
\<close>

definition rx_window :: "(nat \<Rightarrow> bytes) \<Rightarrow> nat \<Rightarrow> bytes circular_buffer \<Rightarrow> u16 \<Rightarrow> bool" where
  "rx_window str n b a \<longleftrightarrow> cb_wf b \<and> cb_size b \<le> 2048 \<and> a = of_nat n
     \<and> (\<forall>j d. j < cb_size b \<longrightarrow> cb_get b (unat a + 1 + j) = Some d \<longrightarrow> d = str (n + 1 + j))"

definition occupied :: "bytes option \<Rightarrow> nat" where
  "occupied x = (if x = None then 0 else 1)"

definition rx_count :: "utp_sock \<Rightarrow> bool" where
  "rx_count s \<longleftrightarrow> unat (reorder_count s) = ring_total occupied (cb_size (inbuf s)) (cb_get (inbuf s))"

definition rx_inv :: "(nat \<Rightarrow> bytes) \<Rightarrow> nat \<Rightarrow> utp_sock \<Rightarrow> bool" where
  "rx_inv str n s \<longleftrightarrow> rx_window str n (inbuf s) (ack_nr s) \<and> rx_count s
     \<and> cb_get (inbuf s) (unat (ack_nr s) + 1) = None"

lemma rx_window_slot:
  assumes "cb_wf b"
  shows "cb_get b (unat (a + 1 :: u16) + k) = cb_get b (unat a + 1 + k)"
proof (rule cb_get_cong [OF assms])
  have "unat (a + 1) mod cb_size b = (unat a + 1) mod cb_size b"
    using unat_u16_add_mod [OF cb_size_dvd [OF assms], of a 1] by simp
  then show "(unat (a + 1) + k) mod cb_size b = (unat a + 1 + k) mod cb_size b" by (rule mod_add_cong) simp
qed

lemma rx_window_clear: "rx_window str n b a \<Longrightarrow> rx_window str n (cb_put b i None) a"
  by (auto simp: rx_window_def cb_get_put split: if_splits)

lemma rx_window_advance:
  assumes "rx_window str n b a" and "cb_get b (unat a + 1) = None"
  shows "rx_window str (Suc n) b (a + 1)"
proof -
  have wf: "cb_wf b" using assms(1) by (simp add: rx_window_def)
  have "d = str (Suc n + 1 + j)"
    if j: "j < cb_size b" and d: "cb_get b (unat (a + 1) + 1 + j) = Some d" for j d
  proof -
    have eq: "cb_get b (unat a + 1 + Suc j) = Some d"
      using d rx_window_slot [OF wf, of a "1 + j"] by simp
    have "Suc j < cb_size b"
    proof (rule ccontr)
      assume "\<not> Suc j < cb_size b"
      with j have "Suc j = cb_size b" by simp
      then have "unat a + 1 + Suc j = (unat a + 1) + cb_size b" by simp
      then have "cb_get b (unat a + 1 + Suc j) = cb_get b (unat a + 1)"
        using wf by (metis cb_get_cong mod_add_self2)
      with eq assms(2) show False by simp
    qed
    with eq assms(1) have "d = str (n + 1 + Suc j)" unfolding rx_window_def by blast
    then show ?thesis by simp
  qed
  with assms(1) show ?thesis by (auto simp: rx_window_def)
qed

lemma occupied_total_0:
  assumes "cb_wf b" and "ring_total occupied (cb_size b) (cb_get b) = 0"
  shows "cb_get b i = None"
proof -
  have "cb_get b (i mod cb_size b) = None"
    using assms(2) by (auto simp: ring_total_def occupied_def split: if_splits)
  then show ?thesis using cb_get_cong [OF assms(1), of i "i mod cb_size b"] by simp
qed

lemma occupied_total_put:
  assumes "cb_wf b"
  shows "ring_total occupied (cb_size b) (cb_get (cb_put b i v)) + occupied (cb_get b i)
    = ring_total occupied (cb_size b) (cb_get b) + occupied v"
  using ring.total_put [OF assms, of occupied i v] by simp

lemma occupied_total_less:
  assumes "cb_wf b" "cb_get b k = None"
  shows "ring_total occupied (cb_size b) (cb_get b) < cb_size b"
proof -
  have "ring_total occupied (cb_size b) (cb_get b) < (\<Sum>i<cb_size b. 1)"
    unfolding ring_total_def
  proof (rule sum_strict_mono_ex1)
    have "k mod cb_size b < cb_size b" using cb_size_pos [of b] by simp
    moreover have "cb_get b (k mod cb_size b) = None" using cb_get_cong [OF assms(1), of "k mod cb_size b" k] assms(2) by simp
    ultimately show "\<exists>x\<in>{..<cb_size b}. occupied (cb_get b x) < 1" by (auto simp: occupied_def)
  qed (simp_all add: occupied_def)
  then show ?thesis by simp
qed

text \<open>Taking the next expected packet out of the ring.\<close>

lemma rx_take:
  assumes "rx_window str n (inbuf s) (ack_nr s)" "rx_count s"
    and "cb_get (inbuf s) (unat (ack_nr s) + 1) = Some p"
  defines "s' \<equiv> s\<lparr>inbuf := cb_put (inbuf s) (unat (ack_nr s) + 1) None, ack_nr := ack_nr s + 1,
      reorder_count := reorder_count s - 1\<rparr>"
  shows "p = str (n + 1)" and "rx_window str (Suc n) (inbuf s') (ack_nr s')" and "rx_count s'"
proof -
  let ?b = "inbuf s" and ?i = "unat (ack_nr s) + 1"
  have wf: "cb_wf ?b" using assms(1) by (simp add: rx_window_def)
  have "p = str (n + 1 + 0)"
    using assms(1,3) cb_size_pos [of ?b] unfolding rx_window_def by (metis add_0_right)
  then show "p = str (n + 1)" by simp
  have "cb_get (cb_put ?b ?i None) ?i = None" using wf by (simp add: cb_get_put)
  then show "rx_window str (Suc n) (inbuf s') (ack_nr s')"
    using rx_window_advance [OF rx_window_clear [OF assms(1)]] by (simp add: s'_def)
  have "ring_total occupied (cb_size ?b) (cb_get (cb_put ?b ?i None)) + 1 = unat (reorder_count s)"
    using occupied_total_put [OF wf, of ?i None] assms(2,3) by (simp add: rx_count_def occupied_def)
  moreover from this have "reorder_count s \<noteq> 0" by auto
  ultimately show "rx_count s'"
    by (simp add: rx_count_def s'_def unat_minus_one)
qed


section \<open>Draining the reorder buffer\<close>

text \<open>What the delivery of packets \<open>n + 1 .. m\<close> adds to the receive buffer of the user.\<close>

definition delivered :: "bool \<Rightarrow> (nat \<Rightarrow> bytes) \<Rightarrow> nat \<Rightarrow> nat \<Rightarrow> bytes" where
  "delivered shut str n m = (if shut then [] else concat (map str [Suc n..<Suc m]))"

lemma delivered_same [simp]: "delivered shut str n n = []"
  by (simp add: delivered_def)

lemma delivered_trans: "n \<le> m \<Longrightarrow> m \<le> k \<Longrightarrow> delivered shut str n m @ delivered shut str m k = delivered shut str n k"
proof -
  assume "n \<le> m" "m \<le> k"
  then have "[Suc n..<Suc k] = [Suc n..<Suc m] @ [Suc m..<Suc k]"
    using upt_add_eq_append [of "Suc n" "Suc m" "k - m"] by (simp del: upt_Suc)
  then show ?thesis by (simp add: delivered_def del: upt_Suc)
qed

lemma delivered_Suc: "delivered shut str n (Suc n) = (if shut then [] else str (Suc n))"
  by (simp add: delivered_def)

definition user_read :: "eng \<Rightarrow> bytes" where
  "user_read e = read_buf (cells (cx e) (sock_user (sk e)))"

lemma user_read_cong: "sock_user (sk e') = sock_user (sk e) \<Longrightarrow> quiet_ctx (cx e) (cx e') \<Longrightarrow> user_read e' = user_read e"
  by (simp add: user_read_def quiet_ctx_def)

lemma user_read_upd [simp]: "sock_user s' = sock_user (sk e) \<Longrightarrow> user_read (e\<lparr>sk := s'\<rparr>) = user_read e"
  by (simp add: user_read_def)

lemma user_read_post: "user_read (post_bytes d e) = user_read e @ (if read_shutdown (sk e) then [] else d)"
  by (simp add: post_bytes_def user_read_def user_call_def ctx_cell_def)

lemma reach_eof_unreached: "\<not> got_fin_reached (sk (reach_eof e)) \<Longrightarrow> reach_eof e = e"
proof -
  assume "\<not> got_fin_reached (sk (reach_eof e))"
  then have "\<not> (\<not> got_fin_reached (sk e) \<and> got_fin (sk e) \<and> eof_pkt (sk e) = ack_nr (sk e))"
    by (simp add: reach_eof_def Let_def sk_send_ack split: if_splits)
  then show ?thesis by (simp only: reach_eof_def if_False)
qed

lemma reach_eof_rx:
  "ack_nr (sk (reach_eof e)) = ack_nr (sk e)" "inbuf (sk (reach_eof e)) = inbuf (sk e)"
  "read_shutdown (sk (reach_eof e)) = read_shutdown (sk e)" "sock_user (sk (reach_eof e)) = sock_user (sk e)"
  by (simp_all add: reach_eof_def Let_def sk_send_ack)

lemma quiet_ctx_reach_eof: "quiet_ctx (cx e) (cx (reach_eof e))"
proof -
  have "quiet_ctx (cx e) (cx (send_ack (user_call on_eof e1)))" if "cx e1 = cx e" for e1
    using quiet_trans [OF quiet_callbacks(3) quiet_send_ack, of e1] that by (simp add: quiet_def)
  then show ?thesis by (simp add: reach_eof_def Let_def)
qed

lemma user_read_reach_eof: "user_read (reach_eof e) = user_read e"
  by (rule user_read_cong [OF reach_eof_rx(4) quiet_ctx_reach_eof])

text \<open>
  What an operation on the receiving side does: it delivers a run of consecutive packets, no more and
  in order, and leaves the window in step, unless the end of the stream has been reached.
\<close>

definition rx_step :: "(nat \<Rightarrow> bytes) \<Rightarrow> nat \<Rightarrow> nat \<Rightarrow> eng \<Rightarrow> eng \<Rightarrow> bool" where
  "rx_step str n m e e' \<longleftrightarrow> n \<le> m \<and> ack_nr (sk e') = of_nat m
     \<and> user_read e' = user_read e @ delivered (read_shutdown (sk e)) str n m
     \<and> (got_fin_reached (sk e') \<or> rx_inv str m (sk e'))
     \<and> read_shutdown (sk e') = read_shutdown (sk e) \<and> sock_user (sk e') = sock_user (sk e)"

lemma rx_inv_ack: "rx_inv str n s \<Longrightarrow> ack_nr s = of_nat n"
  by (simp add: rx_inv_def rx_window_def)

lemma rx_step_stay:
  "rx_inv str n s' \<Longrightarrow> read_shutdown s' = read_shutdown (sk e) \<Longrightarrow> sock_user s' = sock_user (sk e)
    \<Longrightarrow> rx_step str n n e (e\<lparr>sk := s'\<rparr>)"
  by (simp add: rx_step_def rx_inv_ack)

lemma rx_step_calm:
  assumes "rx_step str n m e e1" "calm e1 e2"
  shows "rx_step str n m e e2"
  using assms user_read_cong [of e2 e1]
  by (auto simp: rx_step_def calm_def core_rx_def rx_inv_def rx_count_def)

lemma rx_step_before:
  assumes "calm e0 e" "rx_step str n m e e'"
  shows "rx_step str n m e0 e'"
  using assms user_read_cong [of e e0]
  by (auto simp: rx_step_def calm_def core_rx_def)

lemma reorder_loop_spec:
  assumes "rx_window str n (inbuf (sk e)) (ack_nr (sk e))" "rx_count (sk e)" "\<not> got_fin_reached (sk e)"
  shows "\<exists>m\<le>n + unat (reorder_count (sk e)). rx_step str n m e (reorder_loop e)"
  using assms
proof (induction e arbitrary: n rule: reorder_loop.induct)
  case (1 e)
  let ?e = "reach_eof e"
  have a: "ack_nr (sk e) = of_nat n" using 1(2) by (simp add: rx_window_def)
  show ?case
  proof (cases "got_fin_reached (sk ?e)")
    case True
    with 1(4) have "reorder_count (sk ?e) = 0" by (auto simp: reach_eof_def Let_def split: if_splits)
    then have "reorder_loop e = ?e" by (subst reorder_loop.simps) (simp add: Let_def)
    then have "rx_step str n n e (reorder_loop e)"
      using True a by (simp add: rx_step_def reach_eof_rx user_read_reach_eof)
    then show ?thesis by (rule exI [of _ n, OF conjI, rotated]) simp
  next
    case False
    then have same: "?e = e" by (rule reach_eof_unreached)
    show ?thesis
    proof (cases "reorder_count (sk e) = 0 \<or> cb_get (inbuf (sk e)) (unat (ack_nr (sk e)) + 1) = None")
      case True
      have wf: "cb_wf (inbuf (sk e))" using 1(2) by (simp add: rx_window_def)
      from True have none: "cb_get (inbuf (sk e)) (unat (ack_nr (sk e)) + 1) = None"
        using occupied_total_0 [OF wf] 1(3) by (auto simp: rx_count_def)
      have "reorder_loop e = e"
        using True same by (subst reorder_loop.simps) (auto simp: Let_def)
      then have "rx_step str n n e (reorder_loop e)"
        using a 1(2,3) none by (simp add: rx_step_def rx_inv_def)
      then show ?thesis by (rule exI [of _ n, OF conjI, rotated]) simp
    next
      case False
      then obtain p where p: "cb_get (inbuf (sk e)) (unat (ack_nr (sk e)) + 1) = Some p" by auto
      define ib where "ib = cb_put (inbuf (sk e)) (unat (ack_nr (sk e)) + 1) None"
      define e1 where "e1 = post_bytes p (e\<lparr>sk := (sk e)\<lparr>inbuf := ib\<rparr>\<rparr>)"
      define e2 where "e2 = e1\<lparr>sk := (sk e1)\<lparr>ack_nr := ack_nr (sk e1) + 1, reorder_count := reorder_count (sk e1) - 1\<rparr>\<rparr>"
      have sk2: "sk e2 = (sk e)\<lparr>inbuf := ib, ack_nr := ack_nr (sk e) + 1, reorder_count := reorder_count (sk e) - 1\<rparr>"
        by (simp add: e2_def e1_def)
      have loop: "reorder_loop e = reorder_loop e2"
        using False same p by (subst reorder_loop.simps) (simp add: Let_def ib_def e1_def e2_def)
      note tk = rx_take [OF 1(2,3) p, folded ib_def]
      have take: "(Some p, ib) = cb_take (inbuf (sk e)) (unat (ack_nr (sk e)) + 1)" using p by (simp add: ib_def)
      have "\<exists>m\<le>Suc n + unat (reorder_count (sk e2)). rx_step str (Suc n) m e2 (reorder_loop e2)"
        using False tk(2,3) 1(4)
        by (intro 1(1) [OF same [symmetric] _ take refl e1_def, folded e2_def]) (simp_all add: sk2)
      then obtain m where m: "rx_step str (Suc n) m e2 (reorder_loop e2)" "m \<le> Suc n + unat (reorder_count (sk e2))"
        by auto
      moreover have "Suc (unat (reorder_count (sk e2))) = unat (reorder_count (sk e))"
        using False by (simp add: sk2 unat_minus_one unat_gt_0)
      ultimately have le: "m \<le> n + unat (reorder_count (sk e))" by simp
      have "user_read e2 = user_read e @ delivered (read_shutdown (sk e)) str n (Suc n)"
        using tk(1) by (simp add: e2_def e1_def user_read_post delivered_Suc)
      with m have "rx_step str n m e (reorder_loop e2)"
        using delivered_trans [of n "Suc n" m "read_shutdown (sk e)" str]
        by (auto simp: rx_step_def sk2)
      with loop le show ?thesis by auto
    qed
  qed
qed


section \<open>Delivery of one packet\<close>

lemma deliver_in_order_spec:
  assumes "rx_inv str n (sk e)" "\<not> got_fin_reached (sk e)" and d: "d = str (Suc n)"
  shows "\<exists>m>n. m \<le> n + 2048 \<and> rx_step str n m e (snd (deliver_in_order d e))"
proof -
  define e1 where "e1 = (post_bytes d e)\<lparr>sk := (sk e)\<lparr>ack_nr := ack_nr (sk e) + 1\<rparr>\<rparr>"
  have "rx_window str (Suc n) (inbuf (sk e1)) (ack_nr (sk e1))" "rx_count (sk e1)"
    using assms(1) rx_window_advance by (simp_all add: rx_inv_def rx_count_def e1_def)
  moreover have "\<not> got_fin_reached (sk e1)" using assms(2) by (simp add: e1_def)
  ultimately obtain m where m: "rx_step str (Suc n) m e1 (reorder_loop e1)"
    and le: "m \<le> Suc n + unat (reorder_count (sk e1))"
    using reorder_loop_spec by blast
  have "unat (reorder_count (sk e1)) < 2048"
    using assms(1) occupied_total_less [of "inbuf (sk e)"]
    by (auto simp: rx_inv_def rx_count_def rx_window_def e1_def intro: less_le_trans)
  with le have le: "m \<le> n + 2048" by simp
  have u: "user_read e1 = user_read e @ delivered (read_shutdown (sk e)) str n (Suc n)"
    by (simp add: e1_def user_read_post delivered_Suc d)
  have f: "read_shutdown (sk e1) = read_shutdown (sk e)" "sock_user (sk e1) = sock_user (sk e)"
    by (simp_all add: e1_def)
  have nm: "n < m" using m by (simp add: rx_step_def)
  then have "rx_step str n m e (reorder_loop e1)"
    using m u delivered_trans [of n "Suc n" m "read_shutdown (sk e)" str] unfolding rx_step_def f by simp
  then have "rx_step str n m e (schedule_ack (reorder_loop e1))"
    by (rule rx_step_calm) (rule quiet_calm [OF quiet_schedule_ack])
  with nm le show ?thesis by (auto simp: deliver_in_order_def Let_def e1_def)
qed

text \<open>A packet ahead of the next expected one is parked at its place.\<close>

lemma cb_ensure_size_le: "cb_size (cb_ensure_size b item index) \<le> max (cb_size b) (2 * index)"
proof (cases "index > cb_mask b")
  case True
  let ?sz = "grow_size (cb_mask b + 1) index"
  have "0 < ?sz" "?sz \<le> 2 * index" using grow_size_spec [of "cb_mask b + 1" index] True by auto
  moreover have "cb_mask (cb_grow b item index) = ?sz - 1" by (simp add: cb_grow_def Let_def split_beta)
  ultimately show ?thesis using True by (simp add: cb_ensure_size_def cb_size_def)
qed (simp add: cb_ensure_size_def)

lemma rx_window_ensure:
  assumes "rx_window str n b a" "cb_get b (unat a + 1) = None" "i < 1024"
  defines "b' \<equiv> cb_ensure_size b (unat (a + 1 + of_nat i) + 1) (i + 1)"
  shows "rx_window str n b' a" "cb_get b' (unat a + 1) = None" "i + 1 < cb_size b'"
proof -
  have wf: "cb_wf b" using assms(1) by (simp add: rx_window_def)
  have "(unat a + 1 + (i + 1)) mod 2 ^ 16 = (unat (a + 1 + of_nat i) + 1) mod 2 ^ 16"
    by (simp add: unat_word_ariths unat_of_nat mod_simps)
  note spec = cb_ensure_size_spec [OF wf this, folded b'_def]
  have "cb_size b' \<le> max (cb_size b) (2 * (i + 1))" unfolding b'_def by (rule cb_ensure_size_le)
  then have "cb_size b' \<le> 2048" using assms(1,3) by (auto simp: rx_window_def)
  show "i + 1 < cb_size b'" using assms(3) by (intro spec(2)) simp
  have "cb_get b' (unat a + 1 + 0) = None" using spec(4) [of 0] assms(2,3) spec(2) by simp
  then show "cb_get b' (unat a + 1) = None" by simp
  have "d = str (n + 1 + j)" if "j < cb_size b'" "cb_get b' (unat a + 1 + j) = Some d" for j d
    using that spec(4) [OF _ that(1)] assms(1,3) by (auto simp: rx_window_def split: if_splits)
  then show "rx_window str n b' a"
    using assms(1,3) spec(1) \<open>cb_size b' \<le> 2048\<close> by (auto simp: rx_window_def)
qed

lemma rx_inv_park:
  assumes "rx_inv str n s" "i < 1024" "0 < i"
  defines "q \<equiv> ack_nr s + 1 + of_nat i"
  defines "b \<equiv> cb_ensure_size (inbuf s) (unat q + 1) (i + 1)"
  shows "rx_inv str n (s\<lparr>inbuf := b\<rparr>)"
    and "cb_get b (unat q) = None \<Longrightarrow>
      rx_inv str n (s\<lparr>inbuf := cb_put b (unat q) (Some (str (n + 1 + i))), reorder_count := reorder_count s + 1\<rparr>)"
proof -
  have w0: "rx_window str n (inbuf s) (ack_nr s)" "cb_get (inbuf s) (unat (ack_nr s) + 1) = None" "rx_count s"
    using assms(1) by (simp_all add: rx_inv_def)
  have "i + 1 < 2 ^ 15" using assms(2) by simp
  note w = rx_window_ensure [OF w0(1,2) assms(2), folded q_def, folded b_def]
  have wf0: "cb_wf (inbuf s)" and wf: "cb_wf b" using w0(1) w(1) by (simp_all add: rx_window_def)
  have cnt: "unat (reorder_count s) = ring_total occupied (cb_size b) (cb_get b)"
    using w0(3) ring.total_ensure [OF wf0 \<open>i + 1 < 2 ^ 15\<close>, of occupied "unat q + 1"]
    by (simp add: rx_count_def b_def occupied_def)
  then show "rx_inv str n (s\<lparr>inbuf := b\<rparr>)" using w by (simp add: rx_inv_def rx_count_def)
  assume none: "cb_get b (unat q) = None"
  let ?b = "cb_put b (unat q) (Some (str (n + 1 + i)))"
  have qm: "unat q mod cb_size b = (unat (ack_nr s) + 1 + i) mod cb_size b"
    using unat_u16_add_mod [OF cb_size_dvd [OF wf], of "ack_nr s" "1 + i"] by (simp add: q_def add.assoc)
  have at: "unat q mod cb_size b = (unat (ack_nr s) + 1 + j) mod cb_size b \<longleftrightarrow> j = i" if "j < cb_size b" for j
    using that w(3) mod_add_inj [of "unat (ack_nr s) + 1" j "cb_size b" i] unfolding qm by auto
  have "cb_get ?b (unat (ack_nr s) + 1 + 0) = None"
    unfolding cb_get_put [OF wf] using at [of 0] w(2,3) assms(3) by simp
  then have head: "cb_get ?b (unat (ack_nr s) + 1) = None" by simp
  have "rx_window str n ?b (ack_nr s)"
    using w(1) wf at unfolding rx_window_def cb_get_put [OF wf] by (auto split: if_splits)
  moreover have "unat (reorder_count s + 1) = ring_total occupied (cb_size ?b) (cb_get ?b)"
  proof -
    have tot: "ring_total occupied (cb_size ?b) (cb_get ?b) = unat (reorder_count s) + 1"
      using occupied_total_put [OF wf, of "unat q"] none cnt by (simp add: occupied_def)
    moreover have "\<dots> < 2 ^ 16"
      using occupied_total_less [OF _ head] wf tot w(1) by (simp add: rx_window_def)
    ultimately show ?thesis by (simp add: unat_word_ariths)
  qed
  ultimately show "rx_inv str n (s\<lparr>inbuf := ?b, reorder_count := reorder_count s + 1\<rparr>)"
    using head by (simp add: rx_inv_def rx_count_def)
qed

lemma deliver_out_of_order_spec:
  assumes "rx_inv str n (sk e)" "0 < i" and q: "q = ack_nr (sk e) + 1 + of_nat i" and d: "d = str (n + 1 + i)"
  shows "rx_step str n n e (snd (deliver_out_of_order q i d e))"
proof -
  have self: "rx_step str n n e e" using rx_step_stay [OF assms(1), of e] by simp
  show ?thesis
  proof (cases "(got_fin (sk e) \<and> q > eof_pkt (sk e)) \<or> i > 0x3ff")
    case True
    then show ?thesis using self by (auto simp: deliver_out_of_order_def)
  next
    case False
    then have i: "i < 1024" by simp
    note park = rx_inv_park [OF assms(1) i assms(2), folded q]
    from False rx_step_stay [OF park(1), of e]
      rx_step_stay [OF park(2), of e, THEN rx_step_calm, OF _ _ _ quiet_calm, OF _ _ _ quiet_schedule_ack]
    show ?thesis by (auto simp: deliver_out_of_order_def Let_def d)
  qed
qed

lemma deliver_spec:
  assumes "rx_inv str n (sk e)" "\<not> got_fin_reached (sk e)" and i: "i = unat (q - ack_nr (sk e) - 1)"
    and d: "fl \<noteq> ST_STATE \<Longrightarrow> d = str (n + 1 + i)"
  shows "\<exists>m\<le>n + 2048. rx_step str n m e (snd (deliver fl q i d e))"
proof -
  let ?e1 = "e\<lparr>sk := note_fin fl q (sk e)\<rparr>"
  have inv: "rx_inv str n (sk ?e1)" "\<not> got_fin_reached (sk ?e1)" and
    f: "user_read ?e1 = user_read e" "read_shutdown (sk ?e1) = read_shutdown (sk e)" "sock_user (sk ?e1) = sock_user (sk e)"
    using assms(1,2) by (simp_all add: note_fin_def rx_inv_def rx_count_def)
  have q: "q = ack_nr (sk ?e1) + 1 + of_nat i" by (simp add: i note_fin_def)
  have self: "rx_step str n n e e" using rx_step_stay [OF assms(1), of e] by simp
  have "\<exists>m\<le>n + 2048. rx_step str n m ?e1 (snd (if i = 0 then deliver_in_order d ?e1 else deliver_out_of_order q i d ?e1))"
    if "fl \<noteq> ST_STATE"
  proof (cases "i = 0")
    case True
    then show ?thesis using deliver_in_order_spec [OF inv, of d] d [OF that] by auto
  next
    case False
    then have "rx_step str n n ?e1 (snd (deliver_out_of_order q i d ?e1))"
      using deliver_out_of_order_spec [OF inv(1) _ q] d [OF that] by simp
    then show ?thesis using False by (intro exI [of _ n]) simp
  qed
  then have conn: "\<exists>m\<le>n + 2048. rx_step str n m e (snd (if i = 0 then deliver_in_order d ?e1 else deliver_out_of_order q i d ?e1))"
    if "fl \<noteq> ST_STATE" using that unfolding rx_step_def f by blast
  have idle: "\<exists>m\<le>n + 2048. rx_step str n m e e" using self by (rule exI [of _ n, OF conjI, rotated]) simp
  show ?thesis
  proof (cases "fl = ST_STATE \<or> (sock_state (sk e) \<noteq> Connected \<and> sock_state (sk e) \<noteq> ConnectedFull)")
    case True
    then have "snd (deliver fl q i d e) = e" by (auto simp: deliver_def)
    with idle show ?thesis by (simp only:)
  next
    case False
    then have "deliver fl q i d e = (if i = 0 then deliver_in_order d ?e1 else deliver_out_of_order q i d ?e1)"
      by (auto simp: deliver_def Let_def)
    moreover have "fl \<noteq> ST_STATE" using False by simp
    ultimately show ?thesis using conn by presburger
  qed
qed


section \<open>A received packet\<close>

text \<open>
  Packet \<open>a\<close> of the peer, at a receiver that has taken \<open>n\<close> packets: it carries the low 16 bits of \<open>a\<close>,
  its payload is \<open>str a\<close> unless it is a bare acknowledgement, and it is neither older nor newer than
  half of the sequence space.
\<close>

definition genuine :: "(nat \<Rightarrow> bytes) \<Rightarrow> nat \<Rightarrow> nat \<Rightarrow> utp_sock \<Rightarrow> bytes \<Rightarrow> bool" where
  "genuine str n a s buf \<longleftrightarrow> hdr_seq_nr buf = Some (of_nat a) \<and> a \<le> n + 2 ^ 15 \<and> n < a + 2 ^ 15
     \<and> (hdr_packet_type buf = Some ST_STATE
        \<or> (\<forall>ext ds sel. hdr_ext buf = Some ext \<longrightarrow> snd (parse_extensions buf ext s) = Some (ds, sel) \<longrightarrow>
             drop ds buf = str a))"

lemma seq_distance:
  assumes "a \<le> n + 2 ^ 15" "n < a + 2 ^ 15" "unat (of_nat a - of_nat n - 1 :: u16) < 1024"
  shows "a = n + 1 + unat (of_nat a - of_nat n - 1 :: u16)"
proof (cases "n < a")
  case True
  then have eq: "of_nat a - of_nat n - 1 = (of_nat (a - n - 1) :: u16)" by (simp add: of_nat_diff)
  have "unat (of_nat (a - n - 1) :: u16) = a - n - 1"
    unfolding unat_of_nat using True assms(1) by (intro mod_less) simp
  then show ?thesis unfolding eq using True by linarith
next
  case False
  with assms(2) have "of_nat a - of_nat n - 1 = (of_nat (a + 2 ^ 16 - n - 1) :: u16)" by (simp add: of_nat_diff)
  moreover have "unat (of_nat (a + 2 ^ 16 - n - 1) :: u16) = a + 2 ^ 16 - n - 1"
    unfolding unat_of_nat using False assms(2) by (intro mod_less) simp
  ultimately have "unat (of_nat a - of_nat n - 1 :: u16) = a + 2 ^ 16 - n - 1" by (simp only:)
  moreover have "(2 :: nat) ^ 16 = 2 ^ 15 + 32768" by simp
  ultimately show ?thesis using assms(2,3) by linarith
qed

lemma incoming_body_rx:
  assumes "conn_inv e" "rx_inv str n (sk e)" "\<not> got_fin_reached (sk e)"
    and "a \<le> n + 2 ^ 15" "n < a + 2 ^ 15" and d: "fl \<noteq> ST_STATE \<Longrightarrow> drop ds buf = str a"
    and body: "incoming_body buf fl (of_nat a) pk_ack time ds sel e = Some (k, e')"
  shows "\<exists>m\<le>n + 2048. rx_step str n m e e'"
proof -
  let ?i = "unat (of_nat a - ack_nr (sk e) - 1)"
  have ack: "ack_nr (sk e) = of_nat n" using assms(2) by (rule rx_inv_ack)
  have self: "rx_step str n n e e" using rx_step_stay [OF assms(2), of e] by simp
  show ?thesis
  proof (cases "?i \<ge> REORDER_BUFFER_MAX_SIZE")
    case True
    with body have "e' = schedule_ack e \<or> e' = e" by (auto simp: incoming_body_def Let_def split: if_splits)
    then show ?thesis using self rx_step_calm [OF self quiet_calm [OF quiet_schedule_ack]] by (auto intro: exI [of _ n])
  next
    case False
    then have i: "a = n + 1 + ?i" using seq_distance [OF assms(4,5)] by (simp add: ack REORDER_BUFFER_MAX_SIZE_def)
    from False body obtain e1 win where
      m: "measure_packet buf time pk_ack (count_acks pk_ack (sk e)) sel (dup_ack_update fl pk_ack e) = Some e1"
      and dl: "deliver fl (of_nat a) ?i (drop ds buf)
          (mark_writable (case sel of None \<Rightarrow> process_acks fl pk_ack (count_acks pk_ack (sk e)) win e1
             | Some (off, len) \<Rightarrow> selective_ack (pk_ack + 2) (take len (drop off buf))
                 (process_acks fl pk_ack (count_acks pk_ack (sk e)) win e1))) = (k, e')"
      by (auto simp: incoming_body_def Let_def bind_eq_Some_conv)
    define e2 where "e2 = mark_writable (case sel of None \<Rightarrow> process_acks fl pk_ack (count_acks pk_ack (sk e)) win e1
             | Some (off, len) \<Rightarrow> selective_ack (pk_ack + 2) (take len (drop off buf))
                 (process_acks fl pk_ack (count_acks pk_ack (sk e)) win e1))"
    have "conn_inv e \<and> calm e e" using assms(1) by simp
    note I1 = calm.process_acks_inv [OF calm.measure_packet_inv [OF calm.dup_ack_update_inv [OF this] m],
        of fl pk_ack "count_acks pk_ack (sk e)" win]
    have "calm e e2"
      using calm.mark_writable_inv [OF I1] calm.mark_writable_inv [OF calm.selective_ack_inv [OF I1]]
      by (simp add: e2_def split: option.split)
    then have rx: "core_rx (sk e2) = core_rx (sk e)" by (simp add: calm_def)
    then have "rx_inv str n (sk e2)" "\<not> got_fin_reached (sk e2)" "?i = unat (of_nat a - ack_nr (sk e2) - 1)"
      using assms(2,3) by (simp_all add: core_rx_def rx_inv_def rx_count_def)
    from deliver_spec [OF this, of fl "drop ds buf"] d i obtain m where "rx_step str n m e2 e'" "m \<le> n + 2048"
      using dl by (auto simp: e2_def)
    then show ?thesis using rx_step_before [OF \<open>calm e e2\<close>] by blast
  qed
qed


lemma ext_loop_place: "snd (ext_loop buf ds ext sel s) = snd (ext_loop buf ds ext sel s')"
proof (induction buf ds ext sel s arbitrary: s' rule: ext_loop.induct)
  case (1 buf ds ext sel s)
  note unf = ext_loop.simps [of buf ds ext sel] Let_def
  let ?el = "unat (buf ! (ds + 1))"
  show ?case
  proof (cases "ds + 2 > length buf \<or> length buf - (ds + 2) < ?el \<or> (ext = 2 \<and> ?el \<noteq> 8) \<or> buf ! ds = 0")
    case True
    then show ?thesis by (auto simp: unf)
  next
    case False
    define sel1 where "sel1 = (if ext = 1 then Some (ds + 2, ?el) else sel)"
    define up where "up x = (if ext = 2 then x\<lparr>extensions := take 8 (drop (ds + 2) buf)\<rparr> else x)" for x :: utp_sock
    have step: "ext_loop buf ds ext sel x = ext_loop buf (ds + 2 + ?el) (buf ! ds) sel1 (up x)" for x
      using False by (auto simp: unf sel1_def up_def)
    have "snd (ext_loop buf (ds + 2 + ?el) (buf ! ds) sel1 (up s)) = snd (ext_loop buf (ds + 2 + ?el) (buf ! ds) sel1 (up s'))"
      using False 1 [of "ds + 2" ?el sel1 "up s" "buf ! ds" "up s'"] by (simp add: sel1_def up_def)
    then show ?thesis by (simp only: step)
  qed
qed

lemma parse_place: "snd (parse_extensions buf ext s) = snd (parse_extensions buf ext s')"
  by (simp add: parse_extensions_def ext_loop_place [of _ _ _ _ s s'])

lemma process_incoming_accepted:
  assumes "process_incoming buf False e = Some (k, e')"
  obtains (dropped) "quiet e e'"
  | (body) q a fl ext ds sel time e1 where "hdr_seq_nr buf = Some q" "hdr_packet_type buf = Some fl"
      "hdr_ext buf = Some ext" "snd (parse_extensions buf ext (sk e)) = Some (ds, sel)"
      "quiet e e1" "sock_state (sk e1) = sock_state (sk e)"
      "incoming_body buf fl q a time ds sel (e1\<lparr>sk := note_packet q (current_ms (cx e1)) (sk e1)\<rparr>) = Some (k, e')"
proof -
  define e1 where "e1 = set_current_ms e"
  define e2 where "e2 = snd (eng_micros e1)"
  have q2: "quiet e e1" "quiet e e2"
    using quiet_trans [OF quiet_set_current_ms quiet_micros, of e] by (simp_all add: e1_def e2_def)
  from assms obtain q a fl where h: "hdr_seq_nr buf = Some q" "hdr_ack_nr buf = Some a" "hdr_packet_type buf = Some fl"
    by (auto simp: process_incoming_def Let_def bind_eq_Some_conv)
  show ?thesis
  proof (cases "fl \<ge> ST_NUM_STATES \<or> bad_ack fl a (sk e2)")
    case True
    with assms h have "e' = e1 \<or> e' = e2"
      by (auto simp: process_incoming_def Let_def split_beta e1_def e2_def split: if_splits)
    with q2 show ?thesis using dropped by blast
  next
    case False
    with assms h obtain ext where ext: "hdr_ext buf = Some ext"
      by (auto simp: process_incoming_def Let_def split_beta e1_def e2_def bind_eq_Some_conv)
    define s where "s = fst (parse_extensions buf ext (sk e2))"
    have q3: "quiet e (e2\<lparr>sk := s\<rparr>)" using q2(2) by (rule quiet_trans) (simp add: quiet_core s_def)
    have st: "sock_state s = sock_state (sk e)" by (simp add: s_def e2_def e1_def set_current_ms_def split_beta)
    from False assms h ext have "(case snd (parse_extensions buf ext (sk e2)) of None \<Rightarrow> Some (0, e2\<lparr>sk := s\<rparr>)
          | Some (ds, sel) \<Rightarrow> incoming_body buf fl q a (fst (eng_micros e1)) ds sel
                (e2\<lparr>sk := note_packet q (current_ms (cx e2)) s\<rparr>)) = Some (k, e')"
      by (simp add: process_incoming_def Let_def split_beta e1_def e2_def s_def cong: option.case_cong)
    then consider "e' = e2\<lparr>sk := s\<rparr>"
      | ds sel where "snd (parse_extensions buf ext (sk e)) = Some (ds, sel)"
        "incoming_body buf fl q a (fst (eng_micros e1)) ds sel (e2\<lparr>sk := note_packet q (current_ms (cx e2)) s\<rparr>) = Some (k, e')"
      using parse_place [of buf ext "sk e2" "sk e"] by (auto split: option.splits)
    then show ?thesis
    proof cases
      case 1
      with q3 show ?thesis using dropped by simp
    next
      case (2 ds sel)
      with q3 st show ?thesis using body [OF h(1,3) ext 2(1) q3, of a "fst (eng_micros e1)"] by simp
    qed
  qed
qed

text \<open>In-order delivery of a genuine packet, whatever else it does to the connection.\<close>

lemma process_incoming_rx:
  assumes "conn_inv e" "rx_inv str n (sk e)" "\<not> got_fin_reached (sk e)" "sock_state (sk e) \<noteq> SynSent"
    and g: "genuine str n a (sk e) buf"
    and run: "process_incoming buf False e = Some (k, e')"
  shows "\<exists>m\<le>n + 2048. rx_step str n m e e'"
  using run
proof (cases rule: process_incoming_accepted)
  case dropped
  have "rx_step str n n e e" using rx_step_stay [OF assms(2), of e] by simp
  then show ?thesis using rx_step_calm [OF _ quiet_calm [OF dropped]] le_add1 by blast
next
  case (body q pk_ack fl ext ds sel time e1)
  let ?e = "e1\<lparr>sk := note_packet q (current_ms (cx e1)) (sk e1)\<rparr>"
  have "quiet e ?e"
    using body(5) by (rule quiet_trans) (use body(6) assms(4) in \<open>simp add: quiet_core note_packet_def core_defs\<close>)
  then have c: "calm e ?e" and inv: "conn_inv ?e" using quiet_calm conn.quiet [OF assms(1)] by blast+
  then have "rx_inv str n (sk ?e)" "\<not> got_fin_reached (sk ?e)"
    using assms(2,3) by (simp_all add: calm_def core_rx_def rx_inv_def rx_count_def)
  moreover have "q = of_nat a" "fl \<noteq> ST_STATE \<Longrightarrow> drop ds buf = str a" "a \<le> n + 2 ^ 15" "n < a + 2 ^ 15"
    using g body(1-4) by (auto simp: genuine_def)
  ultimately obtain m where "rx_step str n m ?e e'" "m \<le> n + 2048" using incoming_body_rx [OF inv] body(7) by blast
  then show ?thesis using rx_step_before [OF c] by blast
qed


section \<open>The stream\<close>

text \<open>
  The packets of one peer arriving at a connection in any order, any number of times, with writes of
  the user in between. The count \<open>m\<close> goes up by what the acknowledgement number goes up by.
\<close>

inductive arrivals :: "(nat \<Rightarrow> bytes) \<Rightarrow> nat \<Rightarrow> eng \<Rightarrow> nat \<Rightarrow> eng \<Rightarrow> bool" for str n e where
  arrivals_none: "arrivals str n e n e"
| arrivals_packet: "arrivals str n e m e1 \<Longrightarrow> \<not> got_fin_reached (sk e1) \<Longrightarrow> sock_state (sk e1) \<noteq> SynSent \<Longrightarrow>
    genuine str m a (sk e1) buf \<Longrightarrow> process_incoming buf False e1 = Some (k, e2) \<Longrightarrow>
    arrivals str n e (m + unat (ack_nr (sk e2) - ack_nr (sk e1))) e2"
| arrivals_write: "arrivals str n e m e1 \<Longrightarrow> arrivals str n e m (snd (write_engine buf e1))"

lemma ack_advance:
  assumes "n \<le> m" "m \<le> n + 2048"
  shows "n + unat (of_nat m - of_nat n :: u16) = m"
proof -
  have "of_nat m - of_nat n = (of_nat (m - n) :: u16)" using assms(1) by (simp add: of_nat_diff)
  moreover have "unat (of_nat (m - n) :: u16) = m - n" unfolding unat_of_nat using assms by (intro mod_less) simp
  ultimately show ?thesis using assms(1) by simp
qed

lemma rx_step_trans: "rx_step str n m e e1 \<Longrightarrow> rx_step str m k e1 e2 \<Longrightarrow> rx_step str n k e e2"
  using delivered_trans [of n m k "read_shutdown (sk e)" str] by (simp add: rx_step_def)

lemma arrivals_rx:
  assumes "arrivals str n e m e'" "conn_inv e" "rx_inv str n (sk e)"
  shows "rx_step str n m e e' \<and> conn_inv e'"
  using assms(1)
proof induction
  case arrivals_none
  show ?case using rx_step_stay [OF assms(3), of e] assms(2) by simp
next
  case (arrivals_packet m e1 a buf k e2)
  then have "conn_inv e1" "rx_inv str m (sk e1)" by (auto simp: rx_step_def)
  then obtain m' where m': "rx_step str m m' e1 e2" "m' \<le> m + 2048"
    using process_incoming_rx arrivals_packet by blast
  then have "m + unat (ack_nr (sk e2) - ack_nr (sk e1)) = m'"
    using rx_inv_ack [OF \<open>rx_inv str m (sk e1)\<close>] by (simp add: rx_step_def ack_advance)
  with m' arrivals_packet show ?case
    using rx_step_trans conn.process_incoming_inv [OF \<open>conn_inv e1\<close>] by blast
next
  case (arrivals_write m e1 buf)
  then show ?case using write_engine_calm [of e1 buf] rx_step_calm by blast
qed

section \<open>Properties\<close>

lemma rx_inv_fresh: "inbuf s = cb_new \<Longrightarrow> reorder_count s = 0 \<Longrightarrow> rx_inv str (unat (ack_nr s)) s"
  by (simp add: rx_inv_def rx_window_def rx_count_def ring_total_def occupied_def)

lemma still_rx_inv: "rx_inv str 0 (sk still_eng)"
  using rx_inv_fresh [of "sk still_eng" str] by (simp add: still_defs Let_def)

text \<open>A data packet with the number 1 and a two-byte payload.\<close>

definition hello_packet :: bytes where
  "hello_packet = set_seq_nr (set_version_type (replicate 20 0) 1 ST_DATA) 1 @ [104, 105]"

lemma hello_bytes: "hello_packet = [1, 0, 0, 0, 0, 0, 0, 0, 0, 0, 0, 0, 0, 0, 0, 0, 0, 1, 0, 0, 104, 105]"
  by code_simp

lemma hello_genuine: "genuine (\<lambda>_. [104, 105]) 0 1 s hello_packet"
  by (simp add: genuine_def hello_bytes hdr_defs u16_at_def byte_at_def u16_from_be_bytes_def
      parse_extensions_def HEADER_SIZE_def)

text \<open>C2. The user reads the peer's stream in order, without gaps and without repetition: whatever order
  the peer's packets arrive in, however often each is repeated and whichever of them are lost, the
  bytes appended to the read buffer are exactly the payloads of the packets \<open>n + 1\<close> to \<open>m\<close>, where \<open>m\<close>
  is what the acknowledgement number stands at.\<close>

theorem stream_in_order:
  assumes "arrivals str n e m e'" and "conn_inv e" and "rx_inv str n (sk e)"
  shows "n \<le> m \<and> ack_nr (sk e') = of_nat m
    \<and> user_read e' = user_read e @ (if read_shutdown (sk e) then [] else concat (map str [Suc n..<Suc m]))"
  using arrivals_rx [OF assms] by (simp add: rx_step_def delivered_def)

theorem stream_in_order_witness:
  "\<exists>k m e'. process_incoming hello_packet False still_eng = Some (k, e')
    \<and> user_read e' = concat (map (\<lambda>_. [104, 105]) [Suc 0..<Suc m])"
proof -
  obtain k e' where run: "process_incoming hello_packet False still_eng = Some (k, e')"
    using process_incoming_total [OF still_conn_inv _ still_limits, of hello_packet False]
    by (auto simp: hello_bytes HEADER_SIZE_def)
  have "arrivals (\<lambda>_. [104, 105]) 0 still_eng (0 + unat (ack_nr (sk e') - ack_nr (sk still_eng))) e'"
    by (rule arrivals_packet [OF arrivals_none _ _ hello_genuine run]) (simp_all add: still_defs Let_def)
  from stream_in_order [OF this still_conn_inv still_rx_inv] run show ?thesis
    by (auto simp: user_read_def still_defs Let_def ConnShared_new_def)
qed



end
