(* ===== verification/Engine_Context.thy ===== *)
theory Engine_Context
  imports Receive
begin

unbundle bit_operations_syntax

text \<open>
  \<^verbatim>\<open>Context\<close>: the table of connections of one UDP port, dialling, the dispatch of a received datagram,
  deferred acknowledgements, the timer sweep and tear-down. Option-valued operations: \<open>None\<close> is a
  panic of the packet handler, or, for dialling, a seed search that does not end.
\<close>

section \<open>The table of sockets\<close>

definition table_remove :: "key \<Rightarrow> (key \<times> utp_sock) list \<Rightarrow> (key \<times> utp_sock) list" where
  "table_remove k t = filter (\<lambda>(k', _). k' \<noteq> k) t"

definition table_insert :: "key \<Rightarrow> utp_sock \<Rightarrow> (key \<times> utp_sock) list \<Rightarrow> (key \<times> utp_sock) list" where
  "table_insert k s t = (k, s) # table_remove k t"

definition Context_new :: "clock \<Rightarrow> rng \<Rightarrow> transport \<Rightarrow> utp_context" where
  "Context_new clk r t =
     \<lparr>sockets = [], ack_list = [], rst_infos = [], ctx_target_delay = CCONTROL_TARGET,
      ctx_opt_sndbuf = DEFAULT_BUF, ctx_opt_rcvbuf = DEFAULT_BUF, current_ms = 0, last_check = 0,
      ctx_clock = clk, ctx_rng = r, ctx_transport = t,
      cells = (\<lambda>_. ConnShared_new (SocketAddrV4 0 0)), next_cell = 0\<rparr>"

definition alloc_cell :: "socket_addr \<Rightarrow> utp_context \<Rightarrow> cell_id \<times> utp_context" where
  "alloc_cell a c =
     (next_cell c, c\<lparr>cells := (cells c)(next_cell c := ConnShared_new a), next_cell := next_cell c + 1\<rparr>)"

text \<open>Detach a socket, run an operation on it, put it back.\<close>

definition detach :: "key \<Rightarrow> utp_sock \<Rightarrow> utp_context \<Rightarrow> eng" where
  "detach k s c = \<lparr>sk = s, cx = c\<lparr>sockets := table_remove k (sockets c)\<rparr>\<rparr>"

definition reinsert :: "key \<Rightarrow> eng \<Rightarrow> utp_context" where
  "reinsert k e = (cx e)\<lparr>sockets := table_insert k (sk e) (sockets (cx e))\<rparr>"

definition with_sock :: "key \<Rightarrow> (eng \<Rightarrow> 'r \<times> eng) \<Rightarrow> utp_context \<Rightarrow> 'r option \<times> utp_context" where
  "with_sock k f c =
     (case map_of (sockets c) k of
        None \<Rightarrow> (None, c)
      | Some s \<Rightarrow> (let (r, e) = f (detach k s c) in (Some r, reinsert k e)))"

definition destroy_sock :: "utp_sock \<Rightarrow> utp_context \<Rightarrow> utp_context" where
  "destroy_sock s c = cx (ack_list_remove (user_call on_destroying \<lparr>sk = s, cx = c\<rparr>))"

definition rst_packet :: "u32 \<Rightarrow> u16 \<Rightarrow> u16 \<Rightarrow> bytes" where
  "rst_packet conn_id ack sq =
     set_window_size (set_seq_nr (set_ack_nr (set_conn_id
       (set_version_type (replicate HEADER_SIZE 0) 1 ST_RESET) (ucast conn_id)) ack) sq) 0"

definition send_rst :: "socket_addr \<Rightarrow> u32 \<Rightarrow> u16 \<Rightarrow> u16 \<Rightarrow> utp_context \<Rightarrow> utp_context" where
  "send_rst a conn_id ack sq c = snd (send_to_addr (rst_packet conn_id ack sq) a c)"

section \<open>Dialling\<close>

partial_function (option) gen_seed :: "socket_addr \<Rightarrow> utp_context \<Rightarrow> (u32 \<times> utp_context) option" where
  "gen_seed a c =
     (let (v, c1) = ctx_rand c; seed = v AND 0xffff
      in if map_of (sockets c1) \<lparr>key_addr = a, key_recv_id = seed\<rparr> = None
         then Some (seed, c1) else gen_seed a c1)"

text \<open>The part of \<^verbatim>\<open>initialize_socket\<close> after the connection ids are settled.\<close>

definition init_fields ::
  "socket_addr \<Rightarrow> u32 \<Rightarrow> u32 \<Rightarrow> u32 \<Rightarrow> utp_sock \<Rightarrow> utp_context \<Rightarrow> utp_sock \<times> utp_context"
where
  "init_fields a seed recv send s c =
     (let (now, c1) = ctx_millis c;
          c2 = c1\<lparr>current_ms := now\<rparr>;
          s1 = s\<lparr>sock_state := Idle, conn_seed := seed, conn_id_recv := recv, conn_id_send := send,
                 sock_key := \<lparr>key_addr = a, key_recv_id = recv\<rparr>, last_got_packet := now,
                 last_sent_packet := now, last_measured_delay := now + 0x70000000,
                 average_sample_time := now + 5000,
                 last_rwin_decay := as_i64 (sint now - MAX_WINDOW_DECAY),
                 our_hist := dh_clear now (our_hist s), their_hist := dh_clear now (their_hist s),
                 rtt_hist := dh_clear now (rtt_hist s)\<rparr>;
          (now2, c3) = ctx_millis c2;
          s2 = mtu_reset now2 s1;
          s3 = s2\<lparr>mtu_last := mtu_ceiling s2\<rparr>
      in (s3\<lparr>max_window := get_packet_size s3\<rparr>, c3))"

definition initialize_socket ::
  "socket_addr \<Rightarrow> bool \<Rightarrow> u32 \<Rightarrow> u32 \<Rightarrow> u32 \<Rightarrow> utp_sock \<Rightarrow> utp_context \<Rightarrow> (utp_sock \<times> utp_context) option"
where
  "initialize_socket a need_seed_gen seed0 id_recv id_send s c =
     (if need_seed_gen then
        (case gen_seed a c of
           None \<Rightarrow> None
         | Some (seed, c1) \<Rightarrow> Some (init_fields a seed (id_recv + seed) (id_send + seed) s c1))
      else Some (init_fields a seed0 id_recv id_send s c))"

definition syn_packet :: "utp_sock \<Rightarrow> bytes" where
  "syn_packet s =
     set_seq_nr (set_window_size (set_conn_id (set_version_type (replicate HEADER_SIZE 0) 1 ST_SYN)
       (ucast (conn_id_recv s))) (u32_of_usize (last_rcv_win s))) (seq_nr s)"

text \<open>From the initialised socket to the SYN on the wire.\<close>

definition start_connect :: "utp_sock \<Rightarrow> utp_context \<Rightarrow> eng" where
  "start_connect s c =
     (let (now, c1) = ctx_millis c;
          s1 = s\<lparr>sock_state := SynSent, retransmit_timeout := 3000\<rparr>;
          e1 = \<lparr>sk = s1\<lparr>rto_timeout := now + ucast (retransmit_timeout s1)\<rparr>, cx = c1\<lparr>current_ms := now\<rparr>\<rparr>;
          (v, c2) = ctx_rand (cx e1);
          s2 = (sk e1)\<lparr>last_rcv_win := get_rcv_window e1, seq_nr := ucast v\<rparr>;
          p = \<lparr>pkt_payload = 0, pkt_time_sent = 0, pkt_transmissions = 0, pkt_need_resend = False,
               pkt_data = syn_packet s2\<rparr>;
          ob = cb_ensure_size (outbuf s2) (unat (seq_nr s2)) (unat (cur_window_packets s2));
          s3 = s2\<lparr>outbuf := cb_put ob (unat (seq_nr s2)) (Some p), seq_nr := seq_nr s2 + 1,
                  cur_window_packets := cur_window_packets s2 + 1\<rparr>
      in send_packet_at (seq_nr s2) \<lparr>sk = s3, cx = c2\<rparr>)"

definition ctx_connect :: "socket_addr \<Rightarrow> utp_context \<Rightarrow> ((key \<times> cell_id) \<times> utp_context) option" where
  "ctx_connect a c = do {
     let (u, c1) = alloc_cell a c;
     let s = UtpSock_new c1 a u;
     (s1, c2) \<leftarrow> initialize_socket a True 0 0 1 s c1;
     let e = start_connect s1 c2;
     Some ((sock_key (sk e), u), reinsert (sock_key (sk e)) e) }"

section \<open>A received datagram\<close>

definition find_reset :: "socket_addr \<Rightarrow> u32 \<Rightarrow> utp_context \<Rightarrow> key option" where
  "find_reset a i c =
     (let k0 = \<lparr>key_addr = a, key_recv_id = i\<rparr>;
          k1 = \<lparr>key_addr = a, key_recv_id = i + 1\<rparr>;
          k2 = \<lparr>key_addr = a, key_recv_id = i - 1\<rparr>;
          sends = (\<lambda>k. case map_of (sockets c) k of None \<Rightarrow> False | Some s \<Rightarrow> conn_id_send s = i)
      in if map_of (sockets c) k0 \<noteq> None then Some k0
         else if sends k1 then Some k1 else if sends k2 then Some k2 else None)"

definition reset_sock :: "eng \<Rightarrow> unit \<times> eng" where
  "reset_sock e =
     ((), user_call (on_error ConnectionReset)
        (e\<lparr>sk := (sk e)\<lparr>sock_state := (if close_requested (sk e) then Destroy else Reset)\<rparr>\<rparr>))"

definition handle_reset :: "socket_addr \<Rightarrow> u32 \<Rightarrow> utp_context \<Rightarrow> utp_context" where
  "handle_reset a i c =
     (case find_reset a i c of None \<Rightarrow> c | Some k \<Rightarrow> snd (with_sock k reset_sock c))"

text \<open>The RST cache: refresh the entry of a stream that was answered already.\<close>

fun rst_touch :: "socket_addr \<Rightarrow> u32 \<Rightarrow> u16 \<Rightarrow> u64 \<Rightarrow> rst_info list \<Rightarrow> rst_info list option" where
  "rst_touch a i sq now [] = None"
| "rst_touch a i sq now (r # rs) =
     (if rst_connid r = i \<and> rst_addr r = a \<and> rst_ack_nr r = sq then Some (r\<lparr>rst_timestamp := now\<rparr> # rs)
      else map_option ((#) r) (rst_touch a i sq now rs))"

definition reject_unknown :: "socket_addr \<Rightarrow> u32 \<Rightarrow> u16 \<Rightarrow> utp_context \<Rightarrow> utp_context" where
  "reject_unknown a i sq c =
     (let (now, c1) = ctx_millis c; c2 = c1\<lparr>current_ms := now\<rparr>
      in case rst_touch a i sq now (rst_infos c2) of
           Some rs \<Rightarrow> c2\<lparr>rst_infos := rs\<rparr>
         | None \<Rightarrow>
             if length (rst_infos c2) > RST_INFO_LIMIT then c2
             else
               (let c3 = c2\<lparr>rst_infos := rst_infos c2 @ [\<lparr>rst_addr = a, rst_connid = i, rst_ack_nr = sq,
                                                          rst_timestamp = now\<rparr>]\<rparr>;
                    (v, c4) = ctx_rand c3
                in send_rst a i sq (ucast v) c4))"

definition accept_syn ::
  "bytes \<Rightarrow> socket_addr \<Rightarrow> u32 \<Rightarrow> u16 \<Rightarrow> utp_context \<Rightarrow> (process_udp_result \<times> utp_context) option"
where
  "accept_syn buf a i sq c = do {
     let (u, c1) = alloc_cell a c;
     (s1, c2) \<leftarrow> initialize_socket a False i (i + 1) i (UtpSock_new c1 a u) c1;
     let (v, c3) = ctx_rand c2;
     let s2 = s1\<lparr>ack_nr := sq, seq_nr := ucast v, fast_resend_seq_nr := ucast v, sock_state := SynRecv\<rparr>;
     (n, e) \<leftarrow> process_incoming buf True \<lparr>sk = s2, cx = c3\<rparr>;
     let e1 = send_ack e;
     Some (Accepted (sock_key (sk e1)) u, reinsert (sock_key (sk e1)) e1) }"

definition handle_packet :: "bytes \<Rightarrow> key \<Rightarrow> utp_sock \<Rightarrow> utp_context \<Rightarrow> utp_context option" where
  "handle_packet buf k s c = do {
     (n, e) \<leftarrow> process_incoming buf False (detach k s c);
     Some (reinsert k e) }"

definition process_udp ::
  "bytes \<Rightarrow> socket_addr \<Rightarrow> firewall option \<Rightarrow> utp_context
     \<Rightarrow> (process_udp_result \<times> firewall option \<times> utp_context) option"
where
  "process_udp buf a fw c =
     (if length buf < HEADER_SIZE then Some (NotUtp, fw, c)
      else if addr_port a = 0 then Some (NotUtp, fw, c)
      else do {
        ver \<leftarrow> wire_version buf;
        if ver \<noteq> 1 then Some (NotUtp, fw, c)
        else do {
          cid \<leftarrow> hdr_conn_id buf;
          flags \<leftarrow> hdr_packet_type buf;
          sq \<leftarrow> hdr_seq_nr buf;
          let i = (ucast cid :: u32);
          let k = \<lparr>key_addr = a, key_recv_id = i\<rparr>;
          if flags = ST_RESET then Some (Handled, fw, handle_reset a i c)
          else if flags \<noteq> ST_SYN then
            (case map_of (sockets c) k of
               Some s \<Rightarrow> map_option (\<lambda>c1. (Handled, fw, c1)) (handle_packet buf k s c)
             | None \<Rightarrow> Some (Handled, fw, reject_unknown a i sq c))
          else if map_of (sockets c) \<lparr>key_addr = a, key_recv_id = i + 1\<rparr> \<noteq> None then Some (Handled, fw, c)
          else if length (sockets c) > 3000 then Some (Handled, fw, c)
          else
            (let (blocked, fw1) = firewall_ask fw a
             in if blocked then Some (Handled, fw1, c)
                else map_option (\<lambda>(r, c1). (r, fw1, c1)) (accept_syn buf a i sq c)) } })"

section \<open>Deferred acknowledgements and the timer sweep\<close>

definition ack_one :: "key \<Rightarrow> utp_context \<Rightarrow> utp_context" where
  "ack_one k c =
     (case map_of (sockets c) k of
        None \<Rightarrow> c
      | Some s \<Rightarrow> reinsert k (send_ack (detach k (s\<lparr>in_ack_list := False\<rparr>) c)))"

definition issue_deferred_acks :: "utp_context \<Rightarrow> utp_context" where
  "issue_deferred_acks c = fold ack_one (ack_list c) (c\<lparr>ack_list := []\<rparr>)"

definition swap_remove :: "nat \<Rightarrow> 'a list \<Rightarrow> 'a list" where
  "swap_remove i xs = (if i + 1 = length xs then butlast xs else (butlast xs)[i := last xs])"

function rst_sweep :: "u64 \<Rightarrow> nat \<Rightarrow> rst_info list \<Rightarrow> rst_info list" where
  "rst_sweep now i rs =
     (if i < length rs then
        (if elapsed_i32 now (rst_timestamp (rs ! i)) \<ge> RST_INFO_TIMEOUT
         then rst_sweep now i (swap_remove i rs) else rst_sweep now (i + 1) rs)
      else rs)"
  by pat_completeness auto
termination
  by (relation "measure (\<lambda>(now, i, rs). length rs - i)") (auto simp: swap_remove_def)

declare rst_sweep.simps [simp del]

definition timeout_one :: "key \<Rightarrow> utp_context \<Rightarrow> utp_context" where
  "timeout_one k c =
     (case map_of (sockets c) k of
        None \<Rightarrow> c
      | Some s \<Rightarrow>
          (let e = sock_check_timeouts (detach k s c)
           in if sock_state (sk e) = Destroy then destroy_sock (sk e) (cx e) else reinsert k e))"

definition ctx_check_timeouts :: "utp_context \<Rightarrow> utp_context" where
  "ctx_check_timeouts c =
     (let (now, c1) = ctx_millis c;
          c2 = c1\<lparr>current_ms := now\<rparr>
      in if now - last_check c2 < TIMEOUT_CHECK_INTERVAL then c2
         else
           (let c3 = c2\<lparr>last_check := now, rst_infos := rst_sweep now 0 (rst_infos c2)\<rparr>
            in fold timeout_one (map fst (sockets c3)) c3))"

section \<open>Operations of a connection handle\<close>

definition ctx_write :: "key \<Rightarrow> bytes \<Rightarrow> utp_context \<Rightarrow> nat option \<times> utp_context" where
  "ctx_write k buf c = with_sock k (write_engine buf) c"

definition ctx_read_drained :: "key \<Rightarrow> utp_context \<Rightarrow> utp_context" where
  "ctx_read_drained k c = snd (with_sock k (\<lambda>e. ((), read_drained e)) c)"

definition ctx_close :: "key \<Rightarrow> utp_context \<Rightarrow> utp_context" where
  "ctx_close k c = snd (with_sock k (\<lambda>e. ((), close_engine e)) c)"

definition destroy_one :: "key \<Rightarrow> utp_context \<Rightarrow> utp_context" where
  "destroy_one k c =
     (case map_of (sockets c) k of
        None \<Rightarrow> c
      | Some s \<Rightarrow> destroy_sock s (c\<lparr>sockets := table_remove k (sockets c)\<rparr>))"

definition destroy_all :: "utp_context \<Rightarrow> utp_context" where
  "destroy_all c = (fold destroy_one (map fst (sockets c)) c)\<lparr>ack_list := []\<rparr>"

end
