(* ===== verification/Context_Invariant.thy ===== *)
theory Context_Invariant
  imports Engine_Context
begin

text \<open>
  The invariant of a context: the keys of the table are distinct, every entry is filed under its own
  key and satisfies the invariant of a connection, and the cache of answered streams is bounded. A
  third interpretation of the engine's interface shows that an operation on one connection leaves
  the rest of the context alone; the laws of the table do the rest.
\<close>

section \<open>What an operation on one connection leaves alone\<close>

definition ctx_kept :: "utp_context \<Rightarrow> utp_context \<Rightarrow> bool" where
  "ctx_kept c c' \<longleftrightarrow> sockets c' = sockets c \<and> sent_count c \<le> sent_count c' \<and> next_cell c' = next_cell c
     \<and> rst_infos c' = rst_infos c \<and> last_check c' = last_check c
     \<and> (\<forall>u. signalled (cells c u) (cells c' u))"

definition kept :: "eng \<Rightarrow> eng \<Rightarrow> bool" where
  "kept e e' \<longleftrightarrow> ctx_kept (cx e) (cx e') \<and> sock_key (sk e') = sock_key (sk e)
     \<and> sock_user (sk e') = sock_user (sk e) \<and> conn_id_recv (sk e') = conn_id_recv (sk e)
     \<and> (fin_sent (sk e) \<longrightarrow> fin_sent (sk e')) \<and> opened e e'"

lemma kept_refl [simp]: "kept e e"
  by (simp add: kept_def ctx_kept_def opened_def)

lemma ctx_kept_trans: "ctx_kept a b \<Longrightarrow> ctx_kept b c \<Longrightarrow> ctx_kept a c"
  using signalled_trans by (fastforce simp: ctx_kept_def)

lemma ctx_kept_notified: "ctx_kept c c' \<Longrightarrow> notified (cells c u) \<le> notified (cells c' u)"
  by (simp add: ctx_kept_def signalled_def)

lemma kept_trans:
  assumes "kept a b" "kept b c"
  shows "kept a c"
proof -
  have "opened a c" using assms ctx_kept_notified by (intro opened_trans [of a b c]) (simp_all add: kept_def)
  then show ?thesis using assms by (auto simp: kept_def intro: ctx_kept_trans)
qed

lemma quiet_ctx_kept: "quiet_ctx c c' \<Longrightarrow> ctx_kept c c'"
  by (simp add: quiet_ctx_def ctx_kept_def)

lemma calm_kept: "calm e e' \<Longrightarrow> kept e e'"
  by (simp add: calm_def kept_def quiet_ctx_kept)

lemma quiet_kept: "quiet e e' \<Longrightarrow> kept e e'"
  by (rule calm_kept [OF quiet_calm])

lemma kept_upd:
  "kept e0 e \<Longrightarrow> sock_key s' = sock_key (sk e) \<Longrightarrow> sock_user s' = sock_user (sk e) \<Longrightarrow>
   conn_id_recv s' = conn_id_recv (sk e) \<Longrightarrow> (fin_sent (sk e) \<longrightarrow> fin_sent s') \<Longrightarrow>
   (sock_state s' = Connected \<longrightarrow> sock_state (sk e) = Connected) \<Longrightarrow> kept e0 (e\<lparr>sk := s'\<rparr>)"
  by (rule kept_trans [of e0 e]) (simp_all add: kept_def ctx_kept_def opened_def)

lemma kept_calm: "kept e0 e \<Longrightarrow> calm e e' \<Longrightarrow> kept e0 e'"
  using kept_trans calm_kept by blast

interpretation kept: conn_invariant "\<lambda>e. conn_inv e \<and> kept e0 e" for e0
proof (unfold_locales, goal_cases)
  case (1 e e') then show ?case using conn.quiet kept_calm quiet_calm by blast
next
  case (3 e) then show ?case using conn.ring by blast
next
  case (4 e) then show ?case using conn.window by blast
next
  case (2 e q) then show ?case using conn.send calm_send kept_calm by blast
next
  case (5 e q) then show ?case using conn.ack calm_ack kept_calm by blast
next
  case (6 e) then show ?case using conn.retire by (simp add: kept_upd)
next
  case (7 e fl ps d) then show ?case
    using conn.queue_empty [of e fl ps d] kept_calm [OF _ calm_queue, of e0 e ps fl 0 d] by simp
next
  case (8 e w) then show ?case using conn.cwnd by (simp add: kept_upd)
next
  case (9 e) then show ?case using conn.arrived calm_probe kept_calm by blast
next
  case (10 e) then show ?case using conn.lost calm_probe kept_calm by blast
next
  case (11 e) then show ?case using conn.forget by (simp add: kept_upd)
next
  case (12 e i)
  moreover have "core_id (mark_lost_step i (sk e)) = core_id (sk e)" by simp
  ultimately show ?case using conn.mark by (simp add: kept_upd core_id_def)
next
  case (13 e s') then show ?case using conn.rx [of e s'] by (simp add: kept_upd core_tx_def)
next
  case (14 e d)
  then have "conn_inv (user_call (on_read d) e)" using conn.read by blast
  moreover have "kept e (user_call (on_read d) e)"
    by (simp add: kept_def ctx_kept_def user_call_def ctx_cell_def sent_count_def opened_def)
  ultimately show ?case using 14 kept_trans by blast
next
  case (15 e) then show ?case using conn.fin by (simp add: kept_upd)
qed

text \<open>The operations of a connection, as the context uses them.\<close>

lemma sock_ops_kept:
  assumes "conn_inv e"
  shows "conn_inv (snd (write_engine buf e)) \<and> kept e (snd (write_engine buf e))"
    and "conn_inv (sock_check_timeouts e) \<and> kept e (sock_check_timeouts e)"
    and "conn_inv (close_engine e) \<and> kept e (close_engine e)"
    and "conn_inv (read_drained e) \<and> kept e (read_drained e)"
    and "conn_inv (send_ack e) \<and> kept e (send_ack e)"
    and "process_incoming buf syn e = Some (n, e') \<Longrightarrow> conn_inv e' \<and> kept e e'"
proof -
  have I: "conn_inv e \<and> kept e e" using assms by simp
  show "conn_inv (snd (write_engine buf e)) \<and> kept e (snd (write_engine buf e))"
    using write_engine_calm [OF assms, of buf] calm_kept by blast
  show "conn_inv (sock_check_timeouts e) \<and> kept e (sock_check_timeouts e)"
    by (rule kept.sock_check_timeouts_inv [OF I])
  show "conn_inv (close_engine e) \<and> kept e (close_engine e)" by (rule kept.close_engine_inv [OF I])
  show "conn_inv (read_drained e) \<and> kept e (read_drained e)" by (rule kept.read_drained_inv [OF I])
  show "conn_inv (send_ack e) \<and> kept e (send_ack e)" by (rule kept.quiet [OF I quiet_send_ack])
  show "process_incoming buf syn e = Some (n, e') \<Longrightarrow> conn_inv e' \<and> kept e e'"
    by (rule kept.process_incoming_inv [OF I])
qed

section \<open>The table of connections\<close>

text \<open>
  The laws of the table the context relies on. Whatever holds of every entry survives an insertion
  that satisfies it, and every removal.
\<close>

locale keyed_table =
  fixes look :: "'t \<Rightarrow> 'k \<Rightarrow> 'v option" and ins :: "'k \<Rightarrow> 'v \<Rightarrow> 't \<Rightarrow> 't" and del :: "'k \<Rightarrow> 't \<Rightarrow> 't"
    and wf :: "'t \<Rightarrow> bool"
  assumes look_ins: "look (ins k v t) k' = (if k' = k then Some v else look t k')"
    and look_del: "look (del k t) k' = (if k' = k then None else look t k')"
    and wf_ins: "wf t \<Longrightarrow> wf (ins k v t)"
    and wf_del: "wf t \<Longrightarrow> wf (del k t)"
begin

lemma entries_ins:
  "(\<And>k v. look t k = Some v \<Longrightarrow> P k v) \<Longrightarrow> P k v \<Longrightarrow> look (ins k v t) k' = Some v' \<Longrightarrow> P k' v'"
  by (simp add: look_ins split: if_splits)

lemma entries_del: "(\<And>k v. look t k = Some v \<Longrightarrow> P k v) \<Longrightarrow> look (del k t) k' = Some v' \<Longrightarrow> P k' v'"
  by (simp add: look_del split: if_splits)

lemma look_put_back: "look (ins k v (del k t)) = look (ins k v t)"
  by (simp add: fun_eq_iff look_ins look_del)

end

interpretation socks: keyed_table map_of table_insert table_remove "\<lambda>t. distinct (map fst t)"
proof (unfold_locales, goal_cases)
  case (1 k v t k')
  have "map_of (table_remove k t) k' = (if k' = k then None else map_of t k')"
    by (induction t) (auto simp: table_remove_def)
  then show ?case by (simp add: table_insert_def)
next
  case (2 k t k')
  show ?case by (induction t) (auto simp: table_remove_def)
next
  case (3 t k v)
  then show ?case by (auto simp: table_insert_def table_remove_def distinct_map_filter)
next
  case (4 t k)
  then show ?case by (auto simp: table_remove_def distinct_map_filter)
qed

section \<open>The invariant of a context\<close>

definition sock_ok :: "utp_context \<Rightarrow> key \<Rightarrow> utp_sock \<Rightarrow> bool" where
  "sock_ok c k s \<longleftrightarrow> sock_key s = k \<and> conn_id_recv s = key_recv_id k \<and> sock_user s < next_cell c
     \<and> flight_inv (sent_count c) s \<and> cwnd_inv s"

definition ctx_inv :: "utp_context \<Rightarrow> bool" where
  "ctx_inv c \<longleftrightarrow> distinct (map fst (sockets c))
     \<and> (\<forall>k s. map_of (sockets c) k = Some s \<longrightarrow> sock_ok c k s)
     \<and> length (rst_infos c) \<le> RST_INFO_LIMIT + 1"

lemma sock_ok_mono: "sock_ok c k s \<Longrightarrow> sent_count c \<le> sent_count c' \<Longrightarrow> next_cell c \<le> next_cell c' \<Longrightarrow> sock_ok c' k s"
  using flight_inv_cong [of s s "sent_count c" "sent_count c'"] by (auto simp: sock_ok_def)

lemma ctx_inv_mono:
  assumes "ctx_inv c" "sockets c' = sockets c" "sent_count c \<le> sent_count c'" "next_cell c \<le> next_cell c'"
    and "length (rst_infos c') \<le> RST_INFO_LIMIT + 1"
  shows "ctx_inv c'"
  using assms sock_ok_mono [of c _ _ c'] by (auto simp: ctx_inv_def)

lemma ctx_inv_remove:
  "ctx_inv c \<Longrightarrow> ctx_inv (c\<lparr>sockets := table_remove k (sockets c)\<rparr>)"
  using socks.wf_del [of "sockets c" k]
  by (auto simp: ctx_inv_def socks.look_del sock_ok_def sent_count_def split: if_splits)

lemma detach_inv:
  assumes "ctx_inv c" "map_of (sockets c) k = Some s"
  shows "conn_inv (detach k s c)"
  using assms by (auto simp: ctx_inv_def sock_ok_def detach_def conn_inv_def sent_count_def)

lemma reinsert_inv:
  assumes c: "ctx_inv c" and "ctx_kept c (cx e)" "conn_inv e" "sock_key (sk e) = k"
    "conn_id_recv (sk e) = key_recv_id k" "sock_user (sk e) < next_cell c"
  shows "ctx_inv (reinsert k e)"
proof -
  let ?c = "(cx e)\<lparr>sockets := table_insert k (sk e) (sockets (cx e))\<rparr>"
  have n: "sent_count ?c = sent_count (cx e)" "next_cell ?c = next_cell c"
    using assms(2) by (simp_all add: sent_count_def ctx_kept_def)
  have new: "sock_ok ?c k (sk e)" unfolding sock_ok_def n using assms(3-6) by (simp add: conn_inv_def)
  have old: "sock_ok ?c k' s'" if "map_of (sockets (cx e)) k' = Some s'" for k' s'
    using c that assms(2) sock_ok_mono [of c k' s' ?c] n by (auto simp: ctx_inv_def ctx_kept_def)
  have "sock_ok ?c k' s'" if "map_of (sockets ?c) k' = Some s'" for k' s'
    using that new old by (auto simp: socks.look_ins split: if_splits)
  moreover have "distinct (map fst (sockets ?c))"
    using c assms(2) socks.wf_ins by (simp add: ctx_inv_def ctx_kept_def)
  moreover have "length (rst_infos ?c) \<le> RST_INFO_LIMIT + 1" using c assms(2) by (simp add: ctx_inv_def ctx_kept_def)
  ultimately show ?thesis unfolding reinsert_def ctx_inv_def by blast
qed

text \<open>One connection taken out, operated on and put back.\<close>

lemma put_back_inv:
  assumes c: "ctx_inv c" and k: "map_of (sockets c) k = Some s"
    and e: "conn_inv e" "kept (detach k s' c) e" and s': "core_id s' = core_id s"
  shows "ctx_inv (reinsert k e)"
proof -
  let ?c = "c\<lparr>sockets := table_remove k (sockets c)\<rparr>"
  have ok: "sock_ok c k s" using c k by (simp add: ctx_inv_def)
  show ?thesis
    by (rule reinsert_inv [OF ctx_inv_remove [OF c, of k]])
      (use e ok s' in \<open>simp_all add: kept_def detach_def sock_ok_def core_id_def\<close>)
qed

lemma with_sock_inv:
  assumes "ctx_inv c" and "\<And>e. conn_inv e \<Longrightarrow> conn_inv (snd (f e)) \<and> kept e (snd (f e))"
  shows "ctx_inv (snd (with_sock k f c))"
proof (cases "map_of (sockets c) k")
  case (Some s)
  have "conn_inv (snd (f (detach k s c)))" "kept (detach k s c) (snd (f (detach k s c)))"
    using assms(2) [OF detach_inv [OF assms(1) Some]] by blast+
  from put_back_inv [OF assms(1) Some this] Some show ?thesis by (simp add: with_sock_def split_beta)
qed (use assms(1) in \<open>simp add: with_sock_def\<close>)

section \<open>Every operation keeps it\<close>

lemma ctx_inv_clock [simp]:
  "ctx_inv (snd (ctx_millis c)) = ctx_inv c" "ctx_inv (c\<lparr>current_ms := t\<rparr>) = ctx_inv c"
  "ctx_inv (snd (ctx_rand c)) = ctx_inv c" "ctx_inv (c\<lparr>last_check := t\<rparr>) = ctx_inv c"
  "ctx_inv (c\<lparr>ack_list := l\<rparr>) = ctx_inv c" "ctx_inv (ctx_cell u f c) = ctx_inv c"
  "ctx_inv (c\<lparr>ctx_opt_rcvbuf := n\<rparr>) = ctx_inv c" "ctx_inv (c\<lparr>ctx_opt_sndbuf := n\<rparr>) = ctx_inv c"
  "ctx_inv (c\<lparr>ctx_target_delay := n\<rparr>) = ctx_inv c"
  by (simp_all add: ctx_inv_def sock_ok_def sent_count_def ctx_millis_def ctx_rand_def ctx_cell_def split_beta)

lemma ctx_inv_send_to: "ctx_inv c \<Longrightarrow> ctx_inv (snd (send_to_addr b a c))"
proof -
  assume inv: "ctx_inv c"
  then have "length (rst_infos c) \<le> RST_INFO_LIMIT + 1" by (simp add: ctx_inv_def)
  then show ?thesis
    by (intro ctx_inv_mono [OF inv]) (simp_all add: send_to_addr_def transport_send_to_def sent_count_def split_beta)
qed

lemma rst_touch_length: "rst_touch a i sq now rs = Some rs' \<Longrightarrow> length rs' = length rs"
  by (induction rs arbitrary: rs') (auto split: if_splits)

lemma reject_unknown_inv:
  assumes "ctx_inv c"
  shows "ctx_inv (reject_unknown a i sq c)"
proof -
  obtain now c1 where t: "ctx_millis c = (now, c1)" by (cases "ctx_millis c")
  let ?c = "c1\<lparr>current_ms := now\<rparr>"
  have inv: "ctx_inv ?c" using assms ctx_inv_clock(1) [of c] t by simp
  have upd: "ctx_inv (?c\<lparr>rst_infos := rs\<rparr>)" if "length rs \<le> RST_INFO_LIMIT + 1" for rs
    using that by (intro ctx_inv_mono [OF inv]) (simp_all add: sent_count_def)
  show ?thesis
  proof (cases "rst_touch a i sq now (rst_infos ?c)")
    case (Some rs)
    then show ?thesis using upd [of rs] inv rst_touch_length [OF Some]
      by (simp add: reject_unknown_def t ctx_inv_def)
  next
    case None
    then show ?thesis
      using inv upd [of "rst_infos c1 @ [\<lparr>rst_addr = a, rst_connid = i, rst_ack_nr = sq, rst_timestamp = now\<rparr>]"]
      by (auto simp: reject_unknown_def t Let_def split_beta send_rst_def intro!: ctx_inv_send_to)
  qed
qed

lemma handle_reset_inv: "ctx_inv c \<Longrightarrow> ctx_inv (handle_reset a i c)"
proof -
  assume "ctx_inv c"
  moreover have "conn_inv (snd (reset_sock e)) \<and> kept e (snd (reset_sock e))" if "conn_inv e" for e
  proof -
    let ?e = "e\<lparr>sk := (sk e)\<lparr>sock_state := (if close_requested (sk e) then Destroy else Reset)\<rparr>\<rparr>"
    have "quiet e (user_call (on_error ConnectionReset) ?e)"
      by (rule quiet_trans [OF quiet_core quiet_callbacks(4)]) (simp_all add: core_defs)
    then show ?thesis using that conn.quiet quiet_kept by (simp add: reset_sock_def)
  qed
  ultimately have "ctx_inv (snd (with_sock k reset_sock c))" for k by (rule with_sock_inv)
  with \<open>ctx_inv c\<close> show ?thesis by (simp add: handle_reset_def split: option.split)
qed

lemma handle_packet_inv:
  assumes "ctx_inv c" "map_of (sockets c) k = Some s" "handle_packet buf k s c = Some c'"
  shows "ctx_inv c'"
proof -
  obtain n e where run: "process_incoming buf False (detach k s c) = Some (n, e)" and c': "c' = reinsert k e"
    using assms(3) by (auto simp: handle_packet_def bind_eq_Some_conv)
  from sock_ops_kept(6) [OF detach_inv [OF assms(1,2)] run] show ?thesis
    unfolding c' using put_back_inv [OF assms(1,2)] by blast
qed

lemma ack_one_inv:
  assumes "ctx_inv c"
  shows "ctx_inv (ack_one k c)"
proof (cases "map_of (sockets c) k")
  case (Some s)
  let ?s = "s\<lparr>in_ack_list := False\<rparr>"
  have "conn_inv (detach k ?s c)"
    using conn.quiet [OF detach_inv [OF assms Some] quiet_core, of ?s] by (simp add: detach_def core_defs)
  from sock_ops_kept(5) [OF this] put_back_inv [OF assms Some, of _ ?s] show ?thesis
    using Some by (simp add: ack_one_def core_id_def core_rx_def)
qed (use assms in \<open>simp add: ack_one_def\<close>)

lemma fold_inv: "(\<And>x c. I c \<Longrightarrow> I (f x c)) \<Longrightarrow> I c \<Longrightarrow> I (fold f xs c)"
  by (induction xs arbitrary: c) simp_all

lemma issue_deferred_acks_inv: "ctx_inv c \<Longrightarrow> ctx_inv (issue_deferred_acks c)"
  unfolding issue_deferred_acks_def by (rule fold_inv [of ctx_inv]) (simp_all add: ack_one_inv)

lemma rst_sweep_length: "length (rst_sweep now i rs) \<le> length rs"
proof (induction now i rs rule: rst_sweep.induct)
  case (1 now i rs)
  then show ?case by (subst rst_sweep.simps) (auto simp: swap_remove_def)
qed

lemma destroy_sock_inv: "ctx_inv c \<Longrightarrow> ctx_inv (destroy_sock s c)"
  by (simp add: destroy_sock_def ack_list_remove_def user_call_def)

lemma ctx_kept_inv: "ctx_inv c \<Longrightarrow> ctx_kept c c' \<Longrightarrow> ctx_inv c'"
  by (rule ctx_inv_mono [of c]) (simp_all add: ctx_kept_def ctx_inv_def)

lemma timeout_one_inv:
  assumes "ctx_inv c"
  shows "ctx_inv (timeout_one k c)"
proof (cases "map_of (sockets c) k")
  case (Some s)
  define e where "e = sock_check_timeouts (detach k s c)"
  have e: "conn_inv e" "kept (detach k s c) e"
    using sock_ops_kept(2) [OF detach_inv [OF assms Some]] by (simp_all add: e_def)
  have "ctx_inv (cx e)"
    using ctx_kept_inv [OF ctx_inv_remove [OF assms, of k]] e(2) by (simp add: kept_def detach_def)
  then show ?thesis
    using put_back_inv [OF assms Some e] destroy_sock_inv Some by (simp add: timeout_one_def e_def Let_def)
qed (use assms in \<open>simp add: timeout_one_def\<close>)

lemma ctx_check_timeouts_inv:
  assumes "ctx_inv c"
  shows "ctx_inv (ctx_check_timeouts c)"
proof -
  obtain now c1 where t: "ctx_millis c = (now, c1)" by (cases "ctx_millis c")
  let ?c = "c1\<lparr>current_ms := now\<rparr>"
  have inv: "ctx_inv ?c" using assms ctx_inv_clock(1) [of c] t by simp
  then have "ctx_inv (?c\<lparr>last_check := now, rst_infos := rst_sweep now 0 (rst_infos c1)\<rparr>)"
    using rst_sweep_length [of now 0 "rst_infos c1"]
    by (rule_tac ctx_inv_mono [OF inv]) (simp_all add: ctx_inv_def sent_count_def)
  from fold_inv [of ctx_inv timeout_one, OF timeout_one_inv this] inv show ?thesis
    by (simp add: ctx_check_timeouts_def t Let_def)
qed

lemma destroy_one_sockets: "sockets (destroy_one k c) = table_remove k (sockets c)"
proof (cases "map_of (sockets c) k")
  case None
  then have "table_remove k (sockets c) = sockets c"
    by (auto simp: table_remove_def filter_id_conv map_of_eq_None_iff rev_image_eqI)
  with None show ?thesis by (simp add: destroy_one_def)
qed (simp add: destroy_one_def destroy_sock_def ack_list_remove_def user_call_def ctx_cell_def)

lemma destroy_all_sockets: "sockets (destroy_all c) = []"
proof -
  have "sockets (fold destroy_one ks c) = filter (\<lambda>(k, _). k \<notin> set ks) (sockets c)" for ks c
    by (induction ks arbitrary: c) (auto simp: destroy_one_sockets table_remove_def intro!: filter_cong)
  then show ?thesis by (force simp: destroy_all_def filter_empty_conv)
qed

lemma destroy_one_inv: "ctx_inv c \<Longrightarrow> ctx_inv (destroy_one k c)"
  using destroy_sock_inv [OF ctx_inv_remove, of c _ k] by (simp add: destroy_one_def split: option.split)

lemma destroy_all_inv: "ctx_inv c \<Longrightarrow> ctx_inv (destroy_all c)"
  unfolding destroy_all_def ctx_inv_clock by (rule fold_inv) (simp_all add: destroy_one_inv)

lemma handle_ops_inv:
  assumes "ctx_inv c"
  shows "ctx_inv (snd (ctx_write k buf c))" "ctx_inv (ctx_read_drained k c)" "ctx_inv (ctx_close k c)"
  unfolding ctx_write_def ctx_read_drained_def ctx_close_def
  by (rule with_sock_inv [OF assms]; use sock_ops_kept in simp)+

section \<open>New connections\<close>

definition fresh_sock :: "utp_sock \<Rightarrow> bool" where
  "fresh_sock s \<longleftrightarrow> outbuf s = cb_new \<and> cur_window_packets s = 0 \<and> cur_window s = 0 \<and> \<not> fin_sent s
     \<and> inbuf s = cb_new \<and> reorder_count s = 0 \<and> \<not> got_fin s \<and> \<not> got_fin_reached s \<and> \<not> read_shutdown s"

lemma fresh_UtpSock_new: "fresh_sock (UtpSock_new c a u)" "mtu_probe_seq (UtpSock_new c a u) = 0"
    "sock_user (UtpSock_new c a u) = u"
  by (simp_all add: fresh_sock_def UtpSock_new_def)

lemma fresh_conn_inv: "fresh_sock (sk e) \<Longrightarrow> cwnd_inv (sk e) \<Longrightarrow> conn_inv e"
  by (rule conn_inv_fresh) (simp_all add: fresh_sock_def)

lemma mtu_start_inv:
  assumes "mtu_probe_seq s = 0"
  shows "mtu_inv ((mtu_reset t s)\<lparr>mtu_last := mtu_ceiling (mtu_reset t s)\<rparr>)"
proof -
  have g: "get_udp_mtu (r\<lparr>mtu_last := x\<rparr>) = get_udp_mtu r" for r x by (simp add: get_udp_mtu_def)
  show ?thesis
    using assms get_udp_mtu_bounds [of s]
    by (simp add: mtu_inv_def word_le_nat_alt g mtu_reset_frame mtu_reset_fields)
qed

lemma cwnd_start_inv:
  assumes "mtu_inv s"
  shows "cwnd_inv (s\<lparr>max_window := get_packet_size s\<rparr>)"
  using mtu_inv_packet_size [OF assms] mtu_inv_cong [of "s\<lparr>max_window := get_packet_size s\<rparr>" s] assms
  by (simp add: cwnd_inv_def MIN_WINDOW_SIZE_def)

lemma ctx_kept_refl [simp]: "ctx_kept c c"
  by (simp add: ctx_kept_def)

lemma quiet_ctx_setup [simp]:
  "quiet_ctx c (snd (ctx_millis c')) = quiet_ctx c c'" "quiet_ctx c (c'\<lparr>current_ms := t\<rparr>) = quiet_ctx c c'"
  "quiet_ctx c (snd (ctx_rand c')) = quiet_ctx c c'"
  by (simp_all add: quiet_ctx_def ctx_millis_def ctx_rand_def sent_count_def split_beta)

lemma init_fields_spec:
  assumes "fresh_sock s" "mtu_probe_seq s = 0"
  shows "quiet_ctx c (snd (init_fields a seed rcv snt s c))"
    and "fresh_sock (fst (init_fields a seed rcv snt s c))" "cwnd_inv (fst (init_fields a seed rcv snt s c))"
    and "sock_key (fst (init_fields a seed rcv snt s c)) = \<lparr>key_addr = a, key_recv_id = rcv\<rparr>"
    and "conn_id_recv (fst (init_fields a seed rcv snt s c)) = rcv"
    and "sock_user (fst (init_fields a seed rcv snt s c)) = sock_user s"
proof -
  show "quiet_ctx c (snd (init_fields a seed rcv snt s c))"
    by (simp add: init_fields_def split_beta Let_def)
  show "cwnd_inv (fst (init_fields a seed rcv snt s c))"
    unfolding init_fields_def split_beta Let_def fst_conv
    by (intro cwnd_start_inv mtu_start_inv) (simp add: assms(2))
qed (use assms(1) in \<open>simp_all add: init_fields_def split_beta Let_def fresh_sock_def mtu_reset_def\<close>)

lemma gen_seed_spec:
  assumes "gen_seed a c = Some r"
  shows "quiet_ctx c (snd r)" and "map_of (sockets c) \<lparr>key_addr = a, key_recv_id = fst r\<rparr> = None"
proof -
  have "quiet_ctx c (snd r) \<and> map_of (sockets (snd r)) \<lparr>key_addr = a, key_recv_id = fst r\<rparr> = None"
  proof (rule gen_seed.raw_induct [OF _ assms], goal_cases)
    case (1 gs a c r)
    obtain v c1 where v: "ctx_rand c = (v, c1)" by (cases "ctx_rand c")
    have k: "quiet_ctx c c1" using quiet_ctx_setup(3) [of c c] v by simp
    show ?case
      using 1(2) v k 1(1) [of a c1 r] by (auto simp: Let_def split: if_splits intro: quiet_ctx_trans)
  qed
  then show "quiet_ctx c (snd r)" and "map_of (sockets c) \<lparr>key_addr = a, key_recv_id = fst r\<rparr> = None"
    unfolding quiet_ctx_def by metis+
qed

lemma start_connect_inv:
  assumes "fresh_sock s" "cwnd_inv s"
  shows "conn_inv (start_connect s c)" "calm \<lparr>sk = s, cx = c\<rparr> (start_connect s c)"
proof -
  obtain now c1 where t: "ctx_millis c = (now, c1)" by (cases "ctx_millis c")
  obtain v c2 where v: "ctx_rand (c1\<lparr>current_ms := now\<rparr>) = (v, c2)" by fastforce
  have c2: "quiet_ctx c c2"
    using quiet_ctx_setup(1) [of c c] quiet_ctx_setup(3) [of c "c1\<lparr>current_ms := now\<rparr>"] t v by simp
  define s2 where "s2 = s\<lparr>sock_state := SynSent, retransmit_timeout := 3000, rto_timeout := now + 3000,
      last_rcv_win := get_rcv_window \<lparr>sk = s\<lparr>sock_state := SynSent, retransmit_timeout := 3000, rto_timeout := now + 3000\<rparr>,
        cx = c1\<lparr>current_ms := now\<rparr>\<rparr>, seq_nr := ucast v\<rparr>"
  define p where "p = \<lparr>pkt_payload = 0, pkt_time_sent = 0, pkt_transmissions = 0, pkt_need_resend = False,
               pkt_data = syn_packet s2\<rparr>"
  define s3 where "s3 = s2\<lparr>outbuf := cb_put (cb_ensure_size (outbuf s2) (unat (seq_nr s2)) (unat (cur_window_packets s2)))
     (unat (seq_nr s2)) (Some p), seq_nr := seq_nr s2 + 1, cur_window_packets := cur_window_packets s2 + 1\<rparr>"
  have eq: "start_connect s c = send_packet_at (ucast v) \<lparr>sk = s3, cx = c2\<rparr>"
    by (simp add: start_connect_def t v Let_def s3_def p_def s2_def)
  have f2: "fresh_sock s2" using assms(1) by (simp add: fresh_sock_def s2_def)
  have w2: "cwnd_inv s2" using assms(2) cwnd_inv_cong [of s2 s] by (simp add: core_cc_def s2_def)
  have i2: "conn_inv \<lparr>sk = s2, cx = c2\<rparr>" by (rule fresh_conn_inv) (simp_all add: f2 w2)
  have "flight_inv (sent_count c2) s3"
    by (rule flight_append [where s = s2 and p = p])
      (use i2 f2 in \<open>simp_all add: conn_inv_def fresh_sock_def s3_def p_def syn_packet_def length_set\<close>)
  moreover have "cwnd_inv s3" using w2 cwnd_inv_cong [of s3 s2] by (simp add: core_cc_def s3_def)
  ultimately have i3: "conn_inv \<lparr>sk = s3, cx = c2\<rparr>" by (simp add: conn_inv_def)
  then show "conn_inv (start_connect s c)" unfolding eq by (rule conn.send)
  have "calm \<lparr>sk = s, cx = c\<rparr> \<lparr>sk = s3, cx = c2\<rparr>" using c2 by (simp add: calm_def opened_def core_rx_def s3_def s2_def)
  then show "calm \<lparr>sk = s, cx = c\<rparr> (start_connect s c)" unfolding eq by (rule calm_trans [OF _ calm_send])
qed

lemma alloc_cell_inv:
  assumes "ctx_inv c"
  shows "ctx_inv (snd (alloc_cell a c))" "fst (alloc_cell a c) < next_cell (snd (alloc_cell a c))"
  using assms by (auto simp: alloc_cell_def ctx_inv_def sock_ok_def sent_count_def less_SucI)

lemma alloc_cell_kept:
  assumes "ctx_kept (snd (alloc_cell a c)) c'"
  shows "next_cell c' = Suc (next_cell c)" "u < next_cell c \<Longrightarrow> signalled (cells c u) (cells c' u)"
proof -
  have "signalled (cells (snd (alloc_cell a c)) u) (cells c' u)" using assms by (simp add: ctx_kept_def)
  then show "u < next_cell c \<Longrightarrow> signalled (cells c u) (cells c' u)" by (simp add: alloc_cell_def)
qed (use assms in \<open>simp add: ctx_kept_def alloc_cell_def\<close>)

text \<open>The pieces of a dial and of an accepted SYN.\<close>

lemma ctx_connect_cases:
  assumes "ctx_connect a c = Some ((k, u), c')"
  obtains seed c1 c2 s c3 where "alloc_cell a c = (u, c1)" "gen_seed a c1 = Some (seed, c2)"
    "init_fields a seed seed (1 + seed) (UtpSock_new c1 a u) c2 = (s, c3)" "k = \<lparr>key_addr = a, key_recv_id = seed\<rparr>"
    "c' = reinsert k (start_connect s c3)" "ctx_kept c1 (cx (start_connect s c3))" "conn_inv (start_connect s c3)"
    "fresh_sock s" "calm \<lparr>sk = s, cx = c3\<rparr> (start_connect s c3)" "sock_key s = k" "conn_id_recv s = seed" "sock_user s = u"
    "quiet_ctx c1 c3"
proof -
  obtain v c1 where al: "alloc_cell a c = (v, c1)" by (cases "alloc_cell a c")
  with assms obtain seed c2 where gs: "gen_seed a c1 = Some (seed, c2)" and vu: "v = u"
    and r: "k = sock_key (sk (case_prod start_connect (init_fields a seed seed (1 + seed) (UtpSock_new c1 a u) c2)))"
      "c' = reinsert k (case_prod start_connect (init_fields a seed seed (1 + seed) (UtpSock_new c1 a u) c2))"
    by (auto simp: ctx_connect_def initialize_socket_def bind_eq_Some_conv Let_def split_beta split: option.splits)
  obtain s c3 where i: "init_fields a seed seed (1 + seed) (UtpSock_new c1 a u) c2 = (s, c3)" by fastforce
  note sp = init_fields_spec [OF fresh_UtpSock_new(1,2), where c = c2 and seed = seed and rcv = seed and snt = "1 + seed",
      of a c1 a u, unfolded i fst_conv snd_conv fresh_UtpSock_new(3)]
  note st = start_connect_inv [OF sp(2,3), of c3]
  have "sock_key (sk (start_connect s c3)) = \<lparr>key_addr = a, key_recv_id = seed\<rparr>" using st(2) sp(4) by (simp add: calm_def)
  then have k: "k = \<lparr>key_addr = a, key_recv_id = seed\<rparr>" using r(1) i by simp
  have q: "quiet_ctx c1 c3" using quiet_ctx_trans [OF gen_seed_spec(1) [OF gs]] sp(1) by simp
  then have "ctx_kept c1 (cx (start_connect s c3))" using st(2) quiet_ctx_trans quiet_ctx_kept unfolding calm_def by fastforce
  then show ?thesis using that [of c1 seed c2 s c3] al gs i r(2) k sp(2,4-6) st vu q by simp
qed

lemma ctx_connect_inv:
  assumes "ctx_inv c" "ctx_connect a c = Some (r, c')"
  shows "ctx_inv c'"
proof -
  obtain k u where "r = (k, u)" by (cases r)
  with assms(2) have "ctx_connect a c = Some ((k, u), c')" by simp
  then show ?thesis
  proof (cases rule: ctx_connect_cases)
    case (1 seed c1 c2 s c3)
    have c1: "ctx_inv c1" "u < next_cell c1" using alloc_cell_inv [OF assms(1), of a] 1(1) by simp_all
    show ?thesis
      unfolding 1(5) by (rule reinsert_inv [OF c1(1) 1(6,7)]) (use 1 c1(2) in \<open>simp_all add: calm_def\<close>)
  qed
qed

lemma accept_syn_cases:
  assumes "accept_syn buf a i sq c = Some (r, c')"
  obtains u c1 s c3 n e where "alloc_cell a c = (u, c1)" "process_incoming buf True \<lparr>sk = s, cx = c3\<rparr> = Some (n, e)"
    "r = Accepted \<lparr>key_addr = a, key_recv_id = i + 1\<rparr> u" "c' = reinsert \<lparr>key_addr = a, key_recv_id = i + 1\<rparr> (send_ack e)"
    "fresh_sock s" "sock_state s = SynRecv" "ack_nr s = sq" "conn_id_send s = i" "conn_inv \<lparr>sk = s, cx = c3\<rparr>" "conn_inv e"
    "ctx_kept c1 (cx e)" "ctx_kept c1 (cx (send_ack e))" "sock_key (sk e) = \<lparr>key_addr = a, key_recv_id = i + 1\<rparr>"
    "conn_id_recv (sk e) = i + 1" "sock_user (sk e) = u" "quiet_ctx c1 c3"
proof -
  obtain u c1 where al: "alloc_cell a c = (u, c1)" by (cases "alloc_cell a c")
  obtain s1 c2 where i: "init_fields a i (i + 1) i (UtpSock_new c1 a u) c1 = (s1, c2)" by fastforce
  note sp = init_fields_spec [OF fresh_UtpSock_new(1,2), where c = c1 and seed = i and rcv = "i + 1" and snt = i,
      of a c1 a u, unfolded i fst_conv snd_conv fresh_UtpSock_new(3)]
  have snt: "conn_id_send s1 = i" using i by (auto simp: init_fields_def split_beta Let_def mtu_reset_def)
  obtain v c3 where v: "ctx_rand c2 = (v, c3)" by (cases "ctx_rand c2")
  have c3: "quiet_ctx c1 c3" using sp(1) quiet_ctx_setup(3) [of c1 c2] v by simp
  let ?s = "s1\<lparr>ack_nr := sq, seq_nr := ucast v, fast_resend_seq_nr := ucast v, sock_state := SynRecv\<rparr>"
  from assms al i v obtain n e where run: "process_incoming buf True \<lparr>sk = ?s, cx = c3\<rparr> = Some (n, e)"
    and r: "r = Accepted (sock_key (sk (send_ack e))) u" "c' = reinsert (sock_key (sk (send_ack e))) (send_ack e)"
    by (auto simp: accept_syn_def initialize_socket_def bind_eq_Some_conv Let_def split_beta)
  have f: "fresh_sock ?s" using sp(2) by (simp add: fresh_sock_def)
  have "cwnd_inv ?s" using sp(3) cwnd_inv_cong [of ?s s1] by (simp add: core_cc_def)
  then have inv: "conn_inv \<lparr>sk = ?s, cx = c3\<rparr>" using f by (intro fresh_conn_inv) simp_all
  from sock_ops_kept(6) [OF this run] have e: "conn_inv e" "kept \<lparr>sk = ?s, cx = c3\<rparr> e" by blast+
  have k: "ctx_kept c1 (cx e)" using quiet_ctx_kept [OF c3] e(2) ctx_kept_trans by (auto simp: kept_def)
  have e1: "kept e (send_ack e)" using sock_ops_kept(5) [OF e(1)] by blast
  have "ctx_kept c1 (cx (send_ack e))" using k e1 ctx_kept_trans by (auto simp: kept_def)
  moreover have "sock_key (sk (send_ack e)) = \<lparr>key_addr = a, key_recv_id = i + 1\<rparr>" using e(2) e1 sp(4) by (simp add: kept_def)
  ultimately show ?thesis
    using that [of u c1 ?s c3 n e] al run r f inv e k c3 sp(4-6) snt by (simp add: kept_def)
qed

lemma accept_syn_inv:
  assumes "ctx_inv c" "accept_syn buf a i sq c = Some (r, c')"
  shows "ctx_inv c'"
  using assms(2)
proof (cases rule: accept_syn_cases)
  case (1 u c1 s c3 n e)
  have c1: "ctx_inv c1" "u < next_cell c1" using alloc_cell_inv [OF assms(1), of a] 1(1) by simp_all
  have e1: "conn_inv (send_ack e)" "kept e (send_ack e)" using sock_ops_kept(5) [OF 1(10)] by blast+
  show ?thesis
    unfolding 1(4) by (rule reinsert_inv [OF c1(1) 1(12) e1(1)]) (use 1(13-15) e1(2) c1(2) in \<open>simp_all add: kept_def\<close>)
qed

lemma process_udp_cases:
  assumes "process_udp buf a fw c = Some (r, fw', c')"
  obtains (same) "c' = c" "r = NotUtp \<or> r = Handled"
  | (accept) i sq where "accept_syn buf a i sq c = Some (r, c')" "HEADER_SIZE \<le> length buf"
      "map_of (sockets c) \<lparr>key_addr = a, key_recv_id = i + 1\<rparr> = None"
  | (reset) i where "c' = handle_reset a i c" "r = Handled"
  | (unknown) i sq where "c' = reject_unknown a i sq c" "r = Handled"
  | (packet) k s where "map_of (sockets c) k = Some s" "handle_packet buf k s c = Some c'" "r = Handled"
proof (cases "length buf < HEADER_SIZE \<or> addr_port a = 0 \<or> wire_version buf \<noteq> Some 1")
  case True
  then have "c' = c \<and> r = NotUtp" using assms by (auto simp: process_udp_def bind_eq_Some_conv split: if_splits)
  then show ?thesis using same by blast
next
  case ok: False
  then obtain cid fl sq where "hdr_conn_id buf = Some cid" "hdr_packet_type buf = Some fl" "hdr_seq_nr buf = Some sq"
    using hdr_total [of buf] by (auto simp: not_less)
  note unf = process_udp_def this Let_def split_beta
  define i :: u32 where "i = ucast cid"
  consider "fl = ST_SYN" | "fl = ST_RESET" | "fl \<noteq> ST_SYN" "fl \<noteq> ST_RESET" by blast
  then show ?thesis
  proof cases
    case 1
    then have "c' = c \<and> r = Handled \<or> accept_syn buf a i sq c = Some (r, c')
        \<and> map_of (sockets c) \<lparr>key_addr = a, key_recv_id = i + 1\<rparr> = None"
      using assms ok by (auto simp: unf i_def ST_SYN_def ST_RESET_def split: if_splits)
    then show ?thesis using same accept ok by (meson not_less)
  next
    case 2
    then have "c' = handle_reset a i c \<and> r = Handled" using assms ok by (simp add: unf i_def)
    then show ?thesis using reset by blast
  next
    case 3
    with assms ok have "(case map_of (sockets c) \<lparr>key_addr = a, key_recv_id = i\<rparr> of
        None \<Rightarrow> c' = reject_unknown a i sq c \<and> r = Handled
      | Some s \<Rightarrow> handle_packet buf \<lparr>key_addr = a, key_recv_id = i\<rparr> s c = Some c' \<and> r = Handled)"
      by (auto simp: unf i_def split: option.splits)
    then show ?thesis using unknown packet by (auto split: option.splits)
  qed
qed

lemma process_udp_inv:
  assumes "ctx_inv c" "process_udp buf a fw c = Some (r, fw', c')"
  shows "ctx_inv c'"
  using assms(2)
  by (cases rule: process_udp_cases)
    (use assms(1) in \<open>auto intro: accept_syn_inv handle_reset_inv reject_unknown_inv handle_packet_inv\<close>)

end
