(* ===== verification/Socket_Api.thy ===== *)
theory Socket_Api
  imports Context_Invariant
begin

text \<open>
  \<^verbatim>\<open>src/socket.rs\<close>: the public blocking interface. One mutex guards the whole state of a port, so every
  critical section is one function on the record \<open>shared\<close>. A blocking call is a loop around a
  condition variable: its body, up to the wait, is a \<open>poll\<close> that is ready with a result or blocked.
  Condition variables are counts of their \<^verbatim>\<open>notify_all\<close> calls.
\<close>

section \<open>State\<close>

text \<open>The errors of a closed socket, a closed and a destroyed connection, by their kinds.\<close>

definition err_socket_closed :: error_kind where [simp]: "err_socket_closed = NotConnected"
definition err_conn_closed :: error_kind where [simp]: "err_conn_closed = NotConnected"
definition err_conn_destroyed :: error_kind where [simp]: "err_conn_destroyed = ConnectionAborted"

definition BACKLOG :: nat where "BACKLOG = 5"
definition NON_UTP_BACKLOG :: nat where "NON_UTP_BACKLOG = 100"

record shared =
  sh_ctx :: utp_context
  sh_backlog :: "(key \<times> cell_id) list"
  sh_non_utp :: "(bytes \<times> socket_addr) list"
  sh_closed :: bool
  sh_firewall :: "firewall option"
  sh_accept_cond :: nat
  sh_non_utp_cond :: nat
  sh_local_addr :: socket_addr

record conn =
  conn_key :: key
  conn_user :: cell_id

datatype 'a poll = Ready "error_kind + 'a" | Blocked

definition with_transport :: "clock \<Rightarrow> rng \<Rightarrow> transport \<Rightarrow> socket_addr \<Rightarrow> shared" where
  "with_transport clk r t local =
     \<lparr>sh_ctx = Context_new clk r t, sh_backlog = [], sh_non_utp = [], sh_closed = False,
      sh_firewall = None, sh_accept_cond = 0, sh_non_utp_cond = 0, sh_local_addr = local\<rparr>"

section \<open>The reader thread\<close>

definition process_datagram :: "bytes \<Rightarrow> socket_addr \<Rightarrow> shared \<Rightarrow> shared option" where
  "process_datagram buf a g = do {
     (res, fw, c) \<leftarrow> process_udp buf a (sh_firewall g) (sh_ctx g);
     let g1 = g\<lparr>sh_ctx := c, sh_firewall := fw\<rparr>;
     Some (case res of
       NotUtp \<Rightarrow>
         if length (sh_non_utp g1) < NON_UTP_BACKLOG
         then g1\<lparr>sh_non_utp := sh_non_utp g1 @ [(buf, a)], sh_non_utp_cond := sh_non_utp_cond g1 + 1\<rparr>
         else g1
     | Handled \<Rightarrow> g1
     | Accepted k u \<Rightarrow>
         if length (sh_backlog g1) \<ge> BACKLOG
         then g1\<lparr>sh_ctx := ctx_close k (ctx_cell u (\<lambda>x. x\<lparr>cell_closed := True\<rparr>) (sh_ctx g1))\<rparr>
         else g1\<lparr>sh_backlog := sh_backlog g1 @ [(k, u)], sh_accept_cond := sh_accept_cond g1 + 1\<rparr>) }"

fun loopback_of :: "socket_addr \<Rightarrow> socket_addr" where
  "loopback_of (SocketAddrV4 ip p) = SocketAddrV4 (if ip = 0 then 0x7f000001 else ip) p"
| "loopback_of (SocketAddrV6 ip p fl sc) = SocketAddrV6 (if ip = 0 then 1 else ip) p fl sc"

definition shared_close :: "shared \<Rightarrow> shared" where
  "shared_close g =
     (if sh_closed g then g
      else
        (let g1 = g\<lparr>sh_closed := True, sh_ctx := destroy_all (sh_ctx g), sh_backlog := [], sh_non_utp := [],
                    sh_accept_cond := sh_accept_cond g + 1, sh_non_utp_cond := sh_non_utp_cond g + 1\<rparr>
         in g1\<lparr>sh_ctx := snd (send_to_addr [] (loopback_of (sh_local_addr g1)) (sh_ctx g1))\<rparr>))"

text \<open>What one call of the transport's \<^verbatim>\<open>recv_from\<close> brings, and what the reader does next.\<close>

datatype recv_result = Received bytes socket_addr | RecvError error_kind

datatype reader_next = Continue u32 shared | Stop shared

definition reader_turn :: "recv_result \<Rightarrow> u32 \<Rightarrow> shared \<Rightarrow> reader_next option" where
  "reader_turn r errors g =
     (case r of
        Received buf a \<Rightarrow>
          if sh_closed g then Some (Stop g)
          else map_option
            (\<lambda>g1. Continue 0 (g1\<lparr>sh_ctx := ctx_check_timeouts (issue_deferred_acks (sh_ctx g1))\<rparr>))
            (process_datagram buf a g)
      | RecvError k \<Rightarrow>
          if sh_closed g then Some (Stop g)
          else if k = WouldBlock \<or> k = TimedOut \<or> k = Interrupted
          then Some (Continue errors (g\<lparr>sh_ctx := ctx_check_timeouts (sh_ctx g)\<rparr>))
          else if errors + 1 \<ge> 100 then Some (Stop (shared_close g))
          else Some (Continue (errors + 1) (g\<lparr>sh_ctx := ctx_check_timeouts (sh_ctx g)\<rparr>)))"

section \<open>Socket operations\<close>

definition accept_poll :: "shared \<Rightarrow> conn poll \<times> shared" where
  "accept_poll g =
     (case sh_backlog g of
        (k, u) # rest \<Rightarrow> (Ready (Inr \<lparr>conn_key = k, conn_user = u\<rparr>), g\<lparr>sh_backlog := rest\<rparr>)
      | [] \<Rightarrow> if sh_closed g then (Ready (Inl err_socket_closed), g) else (Blocked, g))"

definition recv_from_poll :: "nat \<Rightarrow> shared \<Rightarrow> (bytes \<times> socket_addr) poll \<times> shared" where
  "recv_from_poll buf_len g =
     (case sh_non_utp g of
        (b, from_addr) # rest \<Rightarrow> (Ready (Inr (take buf_len b, from_addr)), g\<lparr>sh_non_utp := rest\<rparr>)
      | [] \<Rightarrow> if sh_closed g then (Ready (Inl err_socket_closed), g) else (Blocked, g))"

definition socket_send_to :: "bytes \<Rightarrow> socket_addr \<Rightarrow> shared \<Rightarrow> error_kind option \<times> shared" where
  "socket_send_to buf a g =
     (let (r, c) = send_to_addr buf a (sh_ctx g) in (r, g\<lparr>sh_ctx := c\<rparr>))"

definition set_firewall_callback :: "firewall \<Rightarrow> shared \<Rightarrow> shared" where
  "set_firewall_callback f g = g\<lparr>sh_firewall := Some f\<rparr>"

text \<open>Both size setters assert that the size is at least 1.\<close>

definition set_send_buffer_size :: "nat \<Rightarrow> shared \<Rightarrow> shared option" where
  "set_send_buffer_size n g =
     (if n \<ge> 1 then Some (g\<lparr>sh_ctx := (sh_ctx g)\<lparr>ctx_opt_sndbuf := n\<rparr>\<rparr>) else None)"

definition set_recv_buffer_size :: "nat \<Rightarrow> shared \<Rightarrow> shared option" where
  "set_recv_buffer_size n g =
     (if n \<ge> 1 then Some (g\<lparr>sh_ctx := (sh_ctx g)\<lparr>ctx_opt_rcvbuf := n\<rparr>\<rparr>) else None)"

definition set_target_delay :: "nat \<Rightarrow> shared \<Rightarrow> shared" where
  "set_target_delay n g = g\<lparr>sh_ctx := (sh_ctx g)\<lparr>ctx_target_delay := n\<rparr>\<rparr>"

section \<open>Connection operations\<close>

definition conn_cell_of :: "conn \<Rightarrow> shared \<Rightarrow> conn_cell" where
  "conn_cell_of h g = cells (sh_ctx g) (conn_user h)"

definition close_locked :: "conn \<Rightarrow> shared \<Rightarrow> shared" where
  "close_locked h g =
     (let cell = conn_cell_of h g;
          need_engine_close = (\<not> destroyed cell \<and> \<not> cell_closed cell);
          c1 = ctx_cell (conn_user h) (\<lambda>x. x\<lparr>cell_closed := True\<rparr>) (sh_ctx g);
          c2 = (if need_engine_close then ctx_close (conn_key h) c1 else c1)
      in g\<lparr>sh_ctx := ctx_cell (conn_user h) notify_all c2\<rparr>)"

definition conn_close :: "conn \<Rightarrow> shared \<Rightarrow> shared" where
  "conn_close h g = close_locked h g"

definition conn_drop :: "conn \<Rightarrow> shared \<Rightarrow> shared" where
  "conn_drop h g =
     (let cell = conn_cell_of h g
      in if cell_closed cell \<or> destroyed cell then g else conn_close h g)"

text \<open>The wait at the end of a blocking loop: a deadline that has passed is an error.\<close>

definition past_deadline :: "nat option \<Rightarrow> nat \<Rightarrow> bool" where
  "past_deadline deadline now = (case deadline of None \<Rightarrow> False | Some d \<Rightarrow> now \<ge> d)"

definition connect_start :: "socket_addr \<Rightarrow> shared \<Rightarrow> (error_kind + conn) option \<times> shared" where
  "connect_start a g =
     (if sh_closed g then (Some (Inl err_socket_closed), g)
      else
        (case ctx_connect a (sh_ctx g) of
           None \<Rightarrow> (None, g)
         | Some ((k, u), c) \<Rightarrow> (Some (Inr \<lparr>conn_key = k, conn_user = u\<rparr>), g\<lparr>sh_ctx := c\<rparr>)))"

definition connect_poll :: "nat option \<Rightarrow> nat \<Rightarrow> conn \<Rightarrow> shared \<Rightarrow> conn poll \<times> shared" where
  "connect_poll deadline now h g =
     (let cell = conn_cell_of h g
      in case cell_error cell of
           Some k \<Rightarrow> (Ready (Inl k), close_locked h g)
         | None \<Rightarrow>
             if got_connect cell then (Ready (Inr h), g)
             else if destroyed cell then (Ready (Inl err_conn_destroyed), g)
             else if cell_closed cell then (Ready (Inl err_conn_closed), g)
             else if sh_closed g then (Ready (Inl err_socket_closed), g)
             else if past_deadline deadline now then (Ready (Inl TimedOut), close_locked h g)
             else (Blocked, g))"

definition recv_poll :: "nat \<Rightarrow> nat option \<Rightarrow> nat \<Rightarrow> conn \<Rightarrow> shared \<Rightarrow> bytes poll \<times> shared" where
  "recv_poll buf_len deadline now h g =
     (let cell = conn_cell_of h g
      in if buf_len = 0 then (Ready (Inr []), g)
         else if read_buf cell \<noteq> [] then
           (let c1 = ctx_cell (conn_user h) (\<lambda>x. x\<lparr>read_buf := drop buf_len (read_buf x)\<rparr>) (sh_ctx g);
                drained = (drop buf_len (read_buf cell) = []);
                c2 = (if drained \<and> \<not> destroyed cell
                      then issue_deferred_acks (ctx_read_drained (conn_key h) c1) else c1)
            in (Ready (Inr (take buf_len (read_buf cell))), g\<lparr>sh_ctx := c2\<rparr>))
         else if got_eof cell then (Ready (Inr []), g)
         else
           (case cell_error cell of
              Some k \<Rightarrow> (Ready (Inl k), g)
            | None \<Rightarrow>
                if destroyed cell then (Ready (Inl err_conn_destroyed), g)
                else if cell_closed cell then (Ready (Inl err_conn_closed), g)
                else if past_deadline deadline now then (Ready (Inl TimedOut), g)
                else (Blocked, g)))"

definition send_poll :: "bytes \<Rightarrow> nat option \<Rightarrow> nat \<Rightarrow> conn \<Rightarrow> shared \<Rightarrow> nat poll \<times> shared" where
  "send_poll buf deadline now h g =
     (let cell = conn_cell_of h g
      in if buf = [] then (Ready (Inr 0), g)
         else
           (case cell_error cell of
              Some k \<Rightarrow> (Ready (Inl k), g)
            | None \<Rightarrow>
                if cell_closed cell then (Ready (Inl err_conn_closed), g)
                else if destroyed cell then (Ready (Inl err_conn_destroyed), g)
                else
                  (let (r, c) = ctx_write (conn_key h) buf (sh_ctx g); g1 = g\<lparr>sh_ctx := c\<rparr>
                   in case r of
                        Some n \<Rightarrow> if n > 0 then (Ready (Inr n), g1)
                                  else if past_deadline deadline now then (Ready (Inl TimedOut), g1)
                                  else (Blocked, g1)
                      | None \<Rightarrow> if past_deadline deadline now then (Ready (Inl TimedOut), g1)
                                else (Blocked, g1))))"

definition set_read_timeout :: "nat option \<Rightarrow> conn \<Rightarrow> shared \<Rightarrow> shared" where
  "set_read_timeout t h g = g\<lparr>sh_ctx := ctx_cell (conn_user h) (\<lambda>x. x\<lparr>read_timeout := t\<rparr>) (sh_ctx g)\<rparr>"

definition set_write_timeout :: "nat option \<Rightarrow> conn \<Rightarrow> shared \<Rightarrow> shared" where
  "set_write_timeout t h g = g\<lparr>sh_ctx := ctx_cell (conn_user h) (\<lambda>x. x\<lparr>write_timeout := t\<rparr>) (sh_ctx g)\<rparr>"

definition peer_addr :: "conn \<Rightarrow> shared \<Rightarrow> socket_addr" where
  "peer_addr h g = remote_addr (conn_cell_of h g)"

section \<open>Interleaving\<close>

text \<open>
  Threads share the port only under its mutex, so an execution is a sequence of the critical
  sections above in some order. \<open>sys_step\<close> has one rule per kind; a section that panics or, for
  dialling, does not return has no step.
\<close>

inductive sys_step :: "shared \<Rightarrow> shared \<Rightarrow> bool" where
  step_reader: "reader_turn r n g = Some (Continue n' g') \<Longrightarrow> sys_step g g'"
| step_reader_stop: "reader_turn r n g = Some (Stop g') \<Longrightarrow> sys_step g g'"
| step_accept: "sys_step g (snd (accept_poll g))"
| step_recv_from: "sys_step g (snd (recv_from_poll n g))"
| step_connect: "connect_start a g = (Some r, g') \<Longrightarrow> sys_step g g'"
| step_connect_poll: "sys_step g (snd (connect_poll d now h g))"
| step_recv: "sys_step g (snd (recv_poll n d now h g))"
| step_send: "sys_step g (snd (send_poll buf d now h g))"
| step_conn_close: "sys_step g (conn_close h g)"
| step_conn_drop: "sys_step g (conn_drop h g)"
| step_close: "sys_step g (shared_close g)"
| step_send_to: "sys_step g (snd (socket_send_to buf a g))"
| step_firewall: "sys_step g (set_firewall_callback f g)"
| step_sndbuf: "set_send_buffer_size n g = Some g' \<Longrightarrow> sys_step g g'"
| step_rcvbuf: "set_recv_buffer_size n g = Some g' \<Longrightarrow> sys_step g g'"
| step_target: "sys_step g (set_target_delay n g)"
| step_read_timeout: "sys_step g (set_read_timeout t h g)"
| step_write_timeout: "sys_step g (set_write_timeout t h g)"

inductive sys_reachable :: "shared \<Rightarrow> bool" where
  reach_start: "sys_reachable (with_transport clk r t local)"
| reach_step: "sys_reachable g \<Longrightarrow> sys_step g g' \<Longrightarrow> sys_reachable g'"

lemmas api_defs = accept_poll_def recv_from_poll_def connect_start_def connect_poll_def recv_poll_def send_poll_def
  conn_close_def conn_drop_def close_locked_def shared_close_def socket_send_to_def set_firewall_callback_def
  set_send_buffer_size_def set_recv_buffer_size_def set_target_delay_def set_read_timeout_def set_write_timeout_def

end
