(* ===== verification/Context_Behaviour.thy ===== *)
theory Context_Behaviour
  imports Context_Invariant
begin

unbundle bit_operations_syntax

text \<open>
  What the operations of a context do to its table: dialling, accepting, answering strangers, the
  timer sweep and tear-down.
\<close>

section \<open>Dialling\<close>

lemma ctx_rand_simps [simp]:
  "fst (ctx_rand c) = fst (next_u32 (ctx_rng c))" "sockets (snd (ctx_rand c)) = sockets c"
  "ctx_rng (snd (ctx_rand c)) = snd (next_u64 (ctx_rng c))"
  by (simp_all add: ctx_rand_def next_u32_def split_beta)

lemma gen_seed_finds:
  assumes "map_of (sockets c) \<lparr>key_addr = a, key_recv_id = w\<rparr> = None" and "w AND 0xffff = w"
    and "fst (next_u32 (rng_iterate n (ctx_rng c))) = w"
  shows "\<exists>r. gen_seed a c = Some r"
  using assms
proof (induction n arbitrary: c)
  case 0
  then show ?case by (subst gen_seed.simps) (simp add: split_beta Let_def)
next
  case (Suc n)
  have "\<exists>r. gen_seed a (snd (ctx_rand c)) = Some r" by (rule Suc.IH) (use Suc.prems in simp_all)
  then show ?case by (subst gen_seed.simps) (simp add: split_beta Let_def)
qed

lemma seed_16 [simp]: "(v AND 0xffff) AND 0xffff = (v AND 0xffff :: u32)"
  by (simp add: and.assoc)

lemma gen_seed_16:
  assumes "gen_seed a c = Some r"
  shows "fst r AND 0xffff = fst r"
proof (rule gen_seed.raw_induct [OF _ assms], goal_cases)
  case (1 gs a c r)
  show ?case using 1(2) 1(1) [of a "snd (ctx_rand c)" r] by (auto simp: Let_def split_beta split: if_splits)
qed

text \<open>What a successful dial leaves behind.\<close>

lemma sent_count_send_packet_at:
  "cb_get (outbuf (sk e)) (unat q) \<noteq> None \<Longrightarrow> sent_count (cx (send_packet_at q e)) = Suc (sent_count (cx e))"
  by (auto simp: send_packet_at_def split_beta Let_def sent_count_send_data)
    (simp add: sent_count_def eng_millis_def eng_micros_def ctx_millis_def ctx_micros_def split_beta)

lemma ctx_connect_spec:
  assumes "ctx_connect a c = Some ((k, u), c')"
  shows "\<exists>s. map_of (sockets c) k = None \<and> key_addr k = a \<and> u = next_cell c
    \<and> map_of (sockets c') = (map_of (sockets c))(k \<mapsto> s) \<and> sock_state s = SynSent \<and> sock_user s = u
    \<and> ctx_kept (snd (alloc_cell a c)) (c'\<lparr>sockets := sockets c\<rparr>)"
  using assms
proof (cases rule: ctx_connect_cases)
  case (1 seed c1 c2 s c3)
  let ?e = "start_connect s c3"
  have s1: "sockets c1 = sockets c" "u = next_cell c" "snd (alloc_cell a c) = c1" using 1(1) by (auto simp: alloc_cell_def)
  then have so: "sockets (cx ?e) = sockets c" using 1(6) by (simp add: ctx_kept_def)
  have "ctx_kept c1 (c'\<lparr>sockets := sockets c\<rparr>)"
    using 1(5,6) s1 by (simp add: reinsert_def ctx_kept_def sent_count_def)
  moreover have "sock_state (sk ?e) = SynSent" by (simp add: start_connect_def split_beta Let_def)
  moreover have "map_of (sockets c) k = None" using gen_seed_spec(2) [OF 1(2)] s1 1(4) by simp
  moreover have "map_of (sockets c') = (map_of (sockets c))(k \<mapsto> sk ?e)"
    by (simp add: 1(5) reinsert_def so fun_eq_iff socks.look_ins)
  ultimately show ?thesis using 1(4,9,12) s1 by (auto simp: calm_def)
qed

section \<open>Reset once\<close>

lemma rst_touch_found:
  assumes "r \<in> set rs" "rst_connid r = i" "rst_addr r = a" "rst_ack_nr r = sq"
  shows "\<exists>rs'. rst_touch a i sq now rs = Some rs'"
  using assms by (induction rs) auto

lemma rst_touch_known:
  "rst_touch a i sq now rs = Some rs' \<Longrightarrow> \<exists>r \<in> set rs. rst_connid r = i \<and> rst_addr r = a \<and> rst_ack_nr r = sq"
  by (induction rs arbitrary: rs') (auto split: if_splits)

lemma rst_touch_keeps:
  assumes "rst_touch a i sq now rs = Some rs'"
  shows "\<exists>r \<in> set rs'. rst_connid r = i \<and> rst_addr r = a \<and> rst_ack_nr r = sq"
  using assms by (induction rs arbitrary: rs') (auto split: if_splits)

definition rst_known :: "socket_addr \<Rightarrow> u32 \<Rightarrow> u16 \<Rightarrow> utp_context \<Rightarrow> bool" where
  "rst_known a i sq c \<longleftrightarrow> (\<exists>r \<in> set (rst_infos c). rst_connid r = i \<and> rst_addr r = a \<and> rst_ack_nr r = sq)"

lemma reject_unknown_known:
  assumes "rst_known a i sq c"
  shows "sent_count (reject_unknown a i sq c) = sent_count c" "rst_known a i sq (reject_unknown a i sq c)"
proof -
  obtain now c1 where t: "ctx_millis c = (now, c1)" by (cases "ctx_millis c")
  then have c1: "rst_infos c1 = rst_infos c" "sent_count c1 = sent_count c"
    by (auto simp: ctx_millis_def sent_count_def split_beta)
  obtain rs where rs: "rst_touch a i sq now (rst_infos c) = Some rs"
    using assms rst_touch_found unfolding rst_known_def by blast
  then have eq: "reject_unknown a i sq c = c1\<lparr>current_ms := now, rst_infos := rs\<rparr>"
    by (simp add: reject_unknown_def t c1)
  show "sent_count (reject_unknown a i sq c) = sent_count c" using c1 by (simp add: eq sent_count_def)
  show "rst_known a i sq (reject_unknown a i sq c)" using rst_touch_keeps [OF rs] by (simp add: eq rst_known_def)
qed

lemma reject_unknown_new:
  assumes "\<not> rst_known a i sq c" "length (rst_infos c) \<le> RST_INFO_LIMIT"
  shows "sent_count (reject_unknown a i sq c) = Suc (sent_count c)" "rst_known a i sq (reject_unknown a i sq c)"
proof -
  obtain now c1 where t: "ctx_millis c = (now, c1)" by (cases "ctx_millis c")
  then have c1: "rst_infos c1 = rst_infos c" "sent_count c1 = sent_count c"
    by (auto simp: ctx_millis_def sent_count_def split_beta)
  have "rst_touch a i sq now (rst_infos c) = None"
    using assms(1) rst_touch_known [of a i sq now "rst_infos c"] unfolding rst_known_def by (metis option.exhaust)
  then have eq: "reject_unknown a i sq c = send_rst a i sq (ucast (fst (next_u32 (ctx_rng c1))))
      (snd (ctx_rand (c1\<lparr>current_ms := now, rst_infos := rst_infos c @ [\<lparr>rst_addr = a, rst_connid = i, rst_ack_nr = sq, rst_timestamp = now\<rparr>]\<rparr>)))"
    using assms(2) by (simp add: reject_unknown_def t c1 Let_def split_beta)
  show "sent_count (reject_unknown a i sq c) = Suc (sent_count c)"
    unfolding eq using c1
    by (simp add: send_rst_def send_to_addr_def transport_send_to_def sent_count_def ctx_rand_def split_beta)
  show "rst_known a i sq (reject_unknown a i sq c)"
    unfolding eq by (simp add: send_rst_def send_to_addr_def rst_known_def ctx_rand_def split_beta)
qed

section \<open>The timer sweep\<close>

lemma timeout_one_look:
  assumes "ctx_inv c"
  shows "k' \<noteq> k \<Longrightarrow> map_of (sockets (timeout_one k c)) k' = map_of (sockets c) k'"
    and "map_of (sockets (timeout_one k c)) k = Some s \<Longrightarrow> sock_state s \<noteq> Destroy"
proof -
  show "k' \<noteq> k \<Longrightarrow> map_of (sockets (timeout_one k c)) k' = map_of (sockets c) k'"
    and "map_of (sockets (timeout_one k c)) k = Some s \<Longrightarrow> sock_state s \<noteq> Destroy"
  proof (atomize (full), cases "map_of (sockets c) k")
    case None
    then show "(k' \<noteq> k \<longrightarrow> map_of (sockets (timeout_one k c)) k' = map_of (sockets c) k')
      \<and> (map_of (sockets (timeout_one k c)) k = Some s \<longrightarrow> sock_state s \<noteq> Destroy)"
      by (simp add: timeout_one_def)
  next
    case (Some s0)
    define e where "e = sock_check_timeouts (detach k s0 c)"
    have "kept (detach k s0 c) e" using sock_ops_kept(2) [OF detach_inv [OF assms Some]] by (simp add: e_def)
    then have so: "sockets (cx e) = table_remove k (sockets c)" by (simp add: kept_def ctx_kept_def detach_def)
    have "sockets (destroy_sock (sk e) (cx e)) = sockets (cx e)"
      by (simp add: destroy_sock_def ack_list_remove_def user_call_def ctx_cell_def)
    with so Some show "(k' \<noteq> k \<longrightarrow> map_of (sockets (timeout_one k c)) k' = map_of (sockets c) k')
      \<and> (map_of (sockets (timeout_one k c)) k = Some s \<longrightarrow> sock_state s \<noteq> Destroy)"
      by (auto simp: timeout_one_def Let_def reinsert_def socks.look_ins socks.look_del simp flip: e_def)
  qed
qed

lemma sweep_reaps:
  assumes "ctx_inv c" "\<And>k s. map_of (sockets c) k = Some s \<Longrightarrow> k \<in> set ks \<or> sock_state s \<noteq> Destroy"
    and "map_of (sockets (fold timeout_one ks c)) k = Some s"
  shows "sock_state s \<noteq> Destroy"
  using assms
proof (induction ks arbitrary: c)
  case (Cons x ks)
  have "k \<in> set ks \<or> sock_state s \<noteq> Destroy" if "map_of (sockets (timeout_one x c)) k = Some s" for k s
    using that Cons.prems(2) [of k s] timeout_one_look(1) [OF Cons.prems(1), of k x] timeout_one_look(2) [OF Cons.prems(1), where k = x and s = s]
    by (cases "k = x") auto
  from Cons.IH [OF timeout_one_inv [OF Cons.prems(1)] this] Cons.prems(3) show ?case by simp
qed auto

section \<open>Tear-down\<close>


lemma destroy_one_cells:
  "destroyed (cells c u) \<Longrightarrow> destroyed (cells (destroy_one k c) u)"
  "map_of (sockets c) k = Some s \<Longrightarrow> destroyed (cells (destroy_one k c) (sock_user s))"
  by (auto simp: destroy_one_def destroy_sock_def ack_list_remove_def user_call_def ctx_cell_def callback_defs
      split: option.split)

lemma destroy_all_cells:
  assumes "map_of (sockets c) k = Some s"
  shows "destroyed (cells (destroy_all c) (sock_user s))"
proof -
  have keep: "destroyed (cells c u) \<Longrightarrow> destroyed (cells (fold destroy_one ks c) u)" for ks c u
    by (induction ks arbitrary: c) (simp_all add: destroy_one_cells)
  have "k \<in> set ks \<Longrightarrow> map_of (sockets c) k = Some s \<Longrightarrow> destroyed (cells (fold destroy_one ks c) (sock_user s))" for ks c
  proof (induction ks arbitrary: c)
    case (Cons x ks)
    show ?case
    proof (cases "x = k")
      case True
      then show ?thesis using Cons.prems keep [OF destroy_one_cells(2)] by simp
    next
      case False
      then show ?thesis using Cons by (simp add: destroy_one_sockets socks.look_del)
    qed
  qed simp
  moreover have "k \<in> set (map fst (sockets c))" using assms by (metis map_of_eq_None_iff option.discI set_map)
  ultimately show ?thesis using assms by (simp add: destroy_all_def)
qed

section \<open>Accepting\<close>

lemma process_incoming_syn:
  assumes "HEADER_SIZE \<le> length buf" "sock_state (sk e) = SynRecv"
  shows "\<exists>e'. process_incoming buf True e = Some (0, e') \<and> sock_state (sk e') = SynRecv \<and> core (sk e') = core (sk e)
    \<and> quiet_ctx (cx e) (cx e')"
proof -
  obtain sq a fl ext where h: "hdr_seq_nr buf = Some sq" "hdr_ack_nr buf = Some a" "hdr_packet_type buf = Some fl"
      "hdr_ext buf = Some ext" using hdr_total [OF assms(1)] by blast
  have p: "core (fst (parse_extensions buf ext (sk e))) = core (sk e)"
    "sock_state (fst (parse_extensions buf ext (sk e))) = SynRecv" by (simp_all add: assms(2))
  then show ?thesis
    using assms(2)
    by (auto simp: process_incoming_def h Let_def split_beta set_current_ms_def note_packet_def core_defs split: option.split)
qed

lemma accept_syn_total: "HEADER_SIZE \<le> length buf \<Longrightarrow> \<exists>r c'. accept_syn buf a i sq c = Some (r, c')"
proof -
  assume len: "HEADER_SIZE \<le> length buf"
  obtain u c1 where al: "alloc_cell a c = (u, c1)" by (cases "alloc_cell a c")
  obtain s1 c2 where i: "init_fields a i (i + 1) i (UtpSock_new c1 a u) c1 = (s1, c2)" by fastforce
  obtain v c3 where v: "ctx_rand c2 = (v, c3)" by (cases "ctx_rand c2")
  show ?thesis
    using al i v process_incoming_syn [OF len, of "\<lparr>sk = s1\<lparr>ack_nr := sq, seq_nr := ucast v, fast_resend_seq_nr := ucast v,
        sock_state := SynRecv\<rparr>, cx = c3\<rparr>"]
    by (auto simp: accept_syn_def initialize_socket_def Let_def)
qed

lemma accept_syn_spec:
  assumes "HEADER_SIZE \<le> length buf"
  shows "\<exists>s c'. accept_syn buf a i sq c = Some (Accepted \<lparr>key_addr = a, key_recv_id = i + 1\<rparr> (next_cell c), c')
    \<and> map_of (sockets c') = (map_of (sockets c))(\<lparr>key_addr = a, key_recv_id = i + 1\<rparr> \<mapsto> s)
    \<and> sock_state s = SynRecv \<and> ack_nr s = sq \<and> conn_id_send s = i \<and> sock_user s = next_cell c
    \<and> ctx_kept (snd (alloc_cell a c)) (c'\<lparr>sockets := sockets c\<rparr>)"
proof -
  obtain r c' where run: "accept_syn buf a i sq c = Some (r, c')" using accept_syn_total [OF assms] by blast
  then show ?thesis
  proof (cases rule: accept_syn_cases)
    case (1 u c1 s c3 n e)
    have s1: "sockets c1 = sockets c" "u = next_cell c" "snd (alloc_cell a c) = c1" using 1(1) by (auto simp: alloc_cell_def)
    obtain e' where "process_incoming buf True \<lparr>sk = s, cx = c3\<rparr> = Some (0, e')" "sock_state (sk e') = SynRecv" "core (sk e') = core s"
      using process_incoming_syn [OF assms, of "\<lparr>sk = s, cx = c3\<rparr>"] 1(6) by auto
    then have e: "sock_state (sk e) = SynRecv" "core (sk e) = core s" using 1(2) by simp_all
    have so: "sockets (cx (send_ack e)) = sockets c" using 1(12) s1 by (simp add: ctx_kept_def)
    have f: "sock_state (sk (send_ack e)) = SynRecv" "ack_nr (sk (send_ack e)) = sq"
      "conn_id_send (sk (send_ack e)) = i" "sock_user (sk (send_ack e)) = u"
      using e 1(7,8,15) by (simp_all add: sk_send_ack core_defs)
    have "ctx_kept c1 (c'\<lparr>sockets := sockets c\<rparr>)" using 1(4,12) s1 by (simp add: reinsert_def ctx_kept_def sent_count_def)
    moreover have "map_of (sockets c') = (map_of (sockets c))(\<lparr>key_addr = a, key_recv_id = i + 1\<rparr> \<mapsto> sk (send_ack e))"
      by (simp add: 1(4) reinsert_def so fun_eq_iff socks.look_ins)
    ultimately show ?thesis using run 1(3) f s1 by (intro exI [of _ "sk (send_ack e)"] exI [of _ c']) simp
  qed
qed

section \<open>Properties\<close>

definition quiet_port :: utp_context where
  "quiet_port = Context_new \<lparr>clk_elapsed = (\<lambda>_. 1000000), clk_reads = 0\<rparr> (Rng 0)
     \<lparr>tr_send_result = (\<lambda>_. None), tr_sent = []\<rparr>"

lemma quiet_port_simps [simp]: "sockets quiet_port = []" "rst_infos quiet_port = []" "last_check quiet_port = 0"
  by (simp_all add: quiet_port_def Context_new_def)

lemma quiet_port_inv: "ctx_inv quiet_port"
  by (simp add: ctx_inv_def)

text \<open>C23. Dialling ends whenever it can: if any of the 65536 identifiers is free for the peer's address,
  the search for a seed returns one that is free.\<close>

theorem seed_search_terminates:
  assumes "map_of (sockets c) \<lparr>key_addr = a, key_recv_id = w\<rparr> = None" and "w AND 0xffff = w"
  shows "\<exists>seed c'. gen_seed a c = Some (seed, c') \<and> seed AND 0xffff = seed
    \<and> map_of (sockets c) \<lparr>key_addr = a, key_recv_id = seed\<rparr> = None"
proof -
  obtain n where "fst (next_u32 (rng_iterate n (ctx_rng c))) = w" using next_u32_hits by blast
  then obtain r where "gen_seed a c = Some r" using gen_seed_finds [OF assms] by blast
  then show ?thesis using gen_seed_spec(2) gen_seed_16 by (cases r) fastforce
qed

theorem seed_search_terminates_witness: "\<exists>seed c'. gen_seed (SocketAddrV4 1 2) quiet_port = Some (seed, c')"
  using seed_search_terminates [of quiet_port "SocketAddrV4 1 2" 0] by auto

text \<open>C24. Dialling adds one connection and disturbs none: its key was free and names the peer, it waits for
  the answer to its SYN, its cell is new, and every other connection is as it was.\<close>

theorem dial_adds_one_connection:
  assumes "ctx_connect a c = Some ((k, u), c')"
  shows "\<exists>s. map_of (sockets c) k = None \<and> key_addr k = a \<and> u = next_cell c
    \<and> map_of (sockets c') = (map_of (sockets c))(k \<mapsto> s) \<and> sock_state s = SynSent \<and> sock_user s = u"
  using ctx_connect_spec [OF assms] by blast

theorem dial_adds_one_connection_witness:
  "\<exists>k u c' s. ctx_connect (SocketAddrV4 1 2) quiet_port = Some ((k, u), c') \<and> map_of (sockets c') k = Some s
    \<and> sock_state s = SynSent"
proof -
  have "sockets (snd (alloc_cell (SocketAddrV4 1 2) quiet_port)) = []" by (simp add: alloc_cell_def)
  then have "gen_seed (SocketAddrV4 1 2) (snd (alloc_cell (SocketAddrV4 1 2) quiet_port)) =
      Some (fst (ctx_rand (snd (alloc_cell (SocketAddrV4 1 2) quiet_port))) AND 0xffff,
        snd (ctx_rand (snd (alloc_cell (SocketAddrV4 1 2) quiet_port))))"
    by (subst gen_seed.simps) (simp add: split_beta Let_def)
  then obtain k u c' where r: "ctx_connect (SocketAddrV4 1 2) quiet_port = Some ((k, u), c')"
    by (simp add: ctx_connect_def initialize_socket_def split_beta Let_def)
  from dial_adds_one_connection [OF this] r show ?thesis by auto
qed


definition syn_datagram :: bytes where
  "syn_datagram = set_seq_nr (set_conn_id (set_version_type (replicate 20 0) 1 ST_SYN) 7) 9"

lemma syn_bytes: "syn_datagram = [65, 0, 0, 7, 0, 0, 0, 0, 0, 0, 0, 0, 0, 0, 0, 0, 0, 9, 0, 0]"
  by code_simp


text \<open>Retransmitted SYNs are harmless: while the connection that a SYN opened exists, a repetition of it
  changes nothing.\<close>

theorem repeated_syn_ignored:
  assumes "HEADER_SIZE \<le> length buf" and "addr_port a \<noteq> 0" and "wire_version buf = Some 1"
    and "hdr_packet_type buf = Some ST_SYN" and "hdr_conn_id buf = Some cid"
    and "map_of (sockets c) \<lparr>key_addr = a, key_recv_id = ucast cid + 1\<rparr> = Some s"
  shows "process_udp buf a fw c = Some (Handled, fw, c)"
proof -
  obtain sq where "hdr_seq_nr buf = Some sq" using hdr_total [OF assms(1)] by blast
  then show ?thesis using assms by (simp add: process_udp_def Let_def ST_SYN_def ST_RESET_def)
qed

theorem repeated_syn_ignored_witness:
  "process_udp syn_datagram (SocketAddrV4 1 2) None
      (quiet_port\<lparr>sockets := [(\<lparr>key_addr = SocketAddrV4 1 2, key_recv_id = 8\<rparr>, still_sock)]\<rparr>)
    = Some (Handled, None, quiet_port\<lparr>sockets := [(\<lparr>key_addr = SocketAddrV4 1 2, key_recv_id = 8\<rparr>, still_sock)]\<rparr>)"
proof -
  have h: "wire_version syn_datagram = Some 1" "hdr_packet_type syn_datagram = Some ST_SYN"
      "hdr_conn_id syn_datagram = Some 7"
    unfolding syn_bytes by code_simp+
  show ?thesis by (rule repeated_syn_ignored [OF _ _ h, where s = still_sock]) (simp_all add: syn_bytes HEADER_SIZE_def)
qed



text \<open>C32. The timer sweep reaps: when it runs, no connection that has reached the state \<open>Destroy\<close> is left in
  the table afterwards.\<close>

theorem sweep_removes_destroyed:
  assumes "ctx_inv c" and "\<not> fst (ctx_millis c) - last_check c < TIMEOUT_CHECK_INTERVAL"
    and "map_of (sockets (ctx_check_timeouts c)) k = Some s"
  shows "sock_state s \<noteq> Destroy"
proof -
  obtain now c1 where t: "ctx_millis c = (now, c1)" by (cases "ctx_millis c")
  then have c1: "last_check c1 = last_check c" "sockets c1 = sockets c" by (auto simp: ctx_millis_def split_beta)
  let ?c = "c1\<lparr>current_ms := now, last_check := now, rst_infos := rst_sweep now 0 (rst_infos c1)\<rparr>"
  have i1: "ctx_inv c1" using assms(1) ctx_inv_clock(1) [of c] t by simp
  then have "length (rst_sweep now 0 (rst_infos c1)) \<le> RST_INFO_LIMIT + 1"
    using rst_sweep_length [of now 0 "rst_infos c1"] by (simp add: ctx_inv_def)
  then have inv: "ctx_inv ?c" by (intro ctx_inv_mono [OF i1]) (simp_all add: sent_count_def)
  have "ctx_check_timeouts c = fold timeout_one (map fst (sockets ?c)) ?c"
    using assms(2) t c1 by (simp add: ctx_check_timeouts_def Let_def)
  with assms(3) have "map_of (sockets (fold timeout_one (map fst (sockets ?c)) ?c)) k = Some s" by (simp only:)
  moreover have "k' \<in> set (map fst (sockets ?c)) \<or> sock_state s' \<noteq> Destroy" if "map_of (sockets ?c) k' = Some s'" for k' s'
    using map_of_SomeD [OF that] by force
  ultimately show ?thesis using sweep_reaps [OF inv] by blast
qed

text \<open>A port with one connection, which is to be destroyed.\<close>

definition dying_port :: utp_context where
  "dying_port = quiet_port\<lparr>sockets := [(sock_key still_sock, still_sock\<lparr>sock_state := Destroy\<rparr>)], next_cell := 1\<rparr>"

lemma dying_port_inv: "ctx_inv dying_port"
proof -
  let ?s = "still_sock\<lparr>sock_state := Destroy\<rparr>"
  have n: "sent_count dying_port = 0" by (simp add: dying_port_def quiet_port_def Context_new_def sent_count_def)
  have "conn_inv still_eng" by (rule still_conn_inv)
  then have "flight_inv 0 still_sock" "cwnd_inv still_sock"
    by (simp_all add: conn_inv_def still_eng_def still_ctx_def sent_count_def)
  then have "flight_inv 0 ?s" "cwnd_inv ?s"
    using flight_inv_cong [of ?s still_sock 0 0] cwnd_inv_cong [of ?s still_sock] by (simp_all add: core_cc_def)
  moreover have "sock_user ?s = 0" "conn_id_recv ?s = key_recv_id (sock_key ?s)" by (simp_all add: still_defs Let_def)
  ultimately show ?thesis by (simp add: ctx_inv_def sock_ok_def n) (simp add: dying_port_def)
qed

theorem sweep_removes_destroyed_witness:
  "map_of (sockets (ctx_check_timeouts dying_port)) (sock_key still_sock) \<noteq> Some (still_sock\<lparr>sock_state := Destroy\<rparr>)"
proof -
  have "\<not> fst (ctx_millis dying_port) - last_check dying_port < TIMEOUT_CHECK_INTERVAL"
    by (simp add: dying_port_def quiet_port_def Context_new_def ctx_millis_def clock_millis_def TIMEOUT_CHECK_INTERVAL_def)
  from sweep_removes_destroyed [OF dying_port_inv this, of "sock_key still_sock" "still_sock\<lparr>sock_state := Destroy\<rparr>"]
  show ?thesis by auto
qed

text \<open>C33. Tearing a port down leaves no connection behind and tells every handle: each connection's cell is
  marked destroyed, so its blocked readers and writers return.\<close>

theorem destroy_all_complete:
  assumes "map_of (sockets c) k = Some s"
  shows "sockets (destroy_all c) = [] \<and> ack_list (destroy_all c) = [] \<and> destroyed (cells (destroy_all c) (sock_user s))"
proof -
  have "ack_list (destroy_all c) = []" by (simp add: destroy_all_def)
  then show ?thesis using destroy_all_cells [OF assms] destroy_all_sockets by blast
qed

theorem destroy_all_complete_witness:
  "sockets (destroy_all dying_port) = [] \<and> destroyed (cells (destroy_all dying_port) 0)"
proof -
  have "sock_user (still_sock\<lparr>sock_state := Destroy\<rparr>) = 0" by (simp add: still_defs Let_def)
  then show ?thesis
    using destroy_all_complete [of dying_port "sock_key still_sock" "still_sock\<lparr>sock_state := Destroy\<rparr>"]
    by (simp add: dying_port_def)
qed

end
