(* ===== verification/Sack.thy ===== *)
theory Sack
  imports Receive
begin

unbundle bit_operations_syntax

text \<open>
  Selective acknowledgement as a protocol between the two ends: the mask the receiver writes, the
  parser that finds it in the datagram and the bit the sender reads.
\<close>

section \<open>The mask of the receiver\<close>

lemma bit_eack_fold:
  "bit (fold (\<lambda>i m. if P i then m OR push_bit i 1 else m) [0..<w] (0 :: u32)) j \<longleftrightarrow> j < w \<and> j < 32 \<and> P j"
proof (induction w)
  case (Suc w)
  then show ?case by (auto simp: bit_simps less_Suc_eq)
qed simp

lemma bit_eack_mask:
  "bit (eack_mask s) i \<longleftrightarrow> i < min 30 (cb_size (inbuf s)) \<and> cb_get (inbuf s) (unat (ack_nr s) + i + 2) \<noteq> None"
  unfolding eack_mask_def Let_def bit_eack_fold by auto

text \<open>In step with the window, the mask has exactly the packets parked behind the next expected one.\<close>

definition parked :: "utp_sock \<Rightarrow> nat \<Rightarrow> bool" where
  "parked s i \<longleftrightarrow> i < cb_size (inbuf s) \<and> cb_get (inbuf s) (unat (ack_nr s) + 1 + i) \<noteq> None"

lemma eack_mask_parked:
  assumes "rx_inv str n s"
  shows "bit (eack_mask s) i \<longleftrightarrow> i < 30 \<and> parked s (Suc i)"
proof -
  have wf: "cb_wf (inbuf s)" and head: "cb_get (inbuf s) (unat (ack_nr s) + 1) = None"
    using assms unfolding rx_inv_def rx_window_def by blast+
  have "cb_get (inbuf s) (unat (ack_nr s) + i + 2) = None" if "i < cb_size (inbuf s)" "\<not> Suc i < cb_size (inbuf s)"
  proof -
    have "unat (ack_nr s) + i + 2 = (unat (ack_nr s) + 1) + cb_size (inbuf s)" using that by simp
    then have "cb_get (inbuf s) (unat (ack_nr s) + i + 2) = cb_get (inbuf s) (unat (ack_nr s) + 1)"
      using wf by (metis cb_get_cong mod_add_self2)
    with head show ?thesis by simp
  qed
  then show ?thesis unfolding bit_eack_mask parked_def by (cases "Suc i < cb_size (inbuf s)") auto
qed

section \<open>The mask on the wire\<close>

lemma mask_bit_le_bytes:
  fixes m :: u32
  assumes "i < 32"
  shows "mask_bit (u32_to_le_bytes m) (int i) \<longleftrightarrow> bit m i"
proof -
  define k r where "k = i div 8" and "r = i mod 8"
  have i: "i = 8 * k + r" "r < 8" and k: "k = 0 \<or> k = 1 \<or> k = 2 \<or> k = 3"
    using assms by (auto simp: k_def r_def)
  have "nat (int i div 8) = k" "nat (int i mod 8) = r" by (simp_all add: k_def r_def nat_div_distrib nat_mod_distrib)
  then have "mask_bit (u32_to_le_bytes m) (int i) \<longleftrightarrow> bit (u32_to_le_bytes m ! k) r" by (simp add: mask_bit_def)
  also have "\<dots> \<longleftrightarrow> bit m i"
    using k i by (elim disjE) (simp_all add: u32_to_le_bytes_def bit_simps)
  finally show ?thesis .
qed

lemma ack_packet_sack:
  fixes w :: nat
  assumes "reorder_count s \<noteq> 0" "\<not> got_fin_reached s"
  defines "buf \<equiv> ack_packet_bytes s w"
  shows "length buf = 26" "hdr_ext buf = Some 1" "buf ! 20 = 0" "buf ! 21 = 4"
    "take 4 (drop 22 buf) = u32_to_le_bytes (eack_mask s)" "hdr_packet_type buf = Some ST_STATE"
    "hdr_ack_nr buf = Some (ack_nr s)"
proof -
  define h where "h = set_ext (set_window_size (set_seq_nr (set_ack_nr (set_conn_id (set_version_type
    (replicate 26 0) 1 ST_STATE) (ucast (conn_id_send s))) (ack_nr s)) (seq_nr s)) (u32_of_usize w)) 1"
  have buf: "buf = take 20 h @ [0, 4] @ u32_to_le_bytes (eack_mask s)"
    using assms by (simp add: ack_packet_bytes_def Let_def h_def HEADER_SIZE_def)
  have len: "length h = 26" by (simp add: h_def)
  then show "length buf = 26" "buf ! 20 = 0" "buf ! 21 = 4" "take 4 (drop 22 buf) = u32_to_le_bytes (eack_mask s)"
    by (simp_all add: buf u32_to_le_bytes_def nth_append)
  have at: "byte_at buf j = byte_at h j" if "j < 20" for j
    using that len by (simp add: buf byte_at_def nth_append u32_to_le_bytes_def)
  have "hdr_ext buf = hdr_ext h" "hdr_packet_type buf = hdr_packet_type h" "hdr_ack_nr buf = hdr_ack_nr h"
    by (simp_all add: hdr_read_defs at)
  then show "hdr_ext buf = Some 1" "hdr_packet_type buf = Some ST_STATE" "hdr_ack_nr buf = Some (ack_nr s)"
    by (simp_all add: h_def wire_simps HEADER_SIZE_def ST_STATE_def)
qed

section \<open>Extension headers of any packet\<close>

text \<open>The payload offset and the mask found by the parser lie inside the datagram.\<close>

lemma ext_loop_bounds:
  assumes "snd (ext_loop buf ds ext sel s) = Some (ds', sel')"
    and "\<And>off len. sel = Some (off, len) \<Longrightarrow> off + len \<le> ds"
  shows "ds < ds' \<and> ds' \<le> length buf \<and> (\<forall>off len. sel' = Some (off, len) \<longrightarrow> off + len \<le> ds')"
  using assms
proof (induction buf ds ext sel s rule: ext_loop.induct)
  case (1 buf ds ext sel s)
  let ?el = "unat (buf ! (ds + 1))"
  define sel1 where "sel1 = (if ext = 1 then Some (ds + 2, ?el) else sel)"
  define s1 where "s1 = (if ext = 2 then s\<lparr>extensions := take 8 (drop (ds + 2) buf)\<rparr> else s)"
  have ok: "\<not> length buf < ds + 2" "\<not> length buf - (ds + 2) < ?el" "\<not> (ext = 2 \<and> ?el \<noteq> 8)"
    using 1(2) by (auto simp: ext_loop.simps [of buf ds ext sel s] Let_def split: if_splits)
  have sel1: "off + len \<le> ds + 2 + ?el" if "sel1 = Some (off, len)" for off len
    using that 1(3) [of off len] by (auto simp: sel1_def split: if_splits)
  show ?case
  proof (cases "buf ! ds = 0")
    case True
    then have "ds' = ds + 2 + ?el" "sel' = sel1"
      using 1(2) ok by (auto simp: ext_loop.simps [of buf ds ext sel s] Let_def sel1_def split: if_splits)
    with ok sel1 show ?thesis by auto
  next
    case False
    then have "snd (ext_loop buf (ds + 2 + ?el) (buf ! ds) sel1 s1) = Some (ds', sel')"
      using 1(2) ok by (simp add: ext_loop.simps [of buf ds ext sel s] Let_def sel1_def s1_def split: if_splits)
    moreover have "\<not> length buf - (ds + 2) < unat (buf ! (ds + 2 - 1))" "\<not> (ext = 2 \<and> unat (buf ! (ds + 2 - 1)) \<noteq> 8)"
      using ok by simp_all
    ultimately have "ds + 2 + ?el < ds' \<and> ds' \<le> length buf \<and> (\<forall>off len. sel' = Some (off, len) \<longrightarrow> off + len \<le> ds')"
      using 1(1) [of "ds + 2" ?el sel1 s1 "buf ! ds"] ok False sel1 by (simp add: sel1_def s1_def)
    then show ?thesis by simp
  qed
qed

lemma parse_extensions_bounds:
  assumes "snd (parse_extensions buf ext s) = Some (ds, sel)"
  shows "HEADER_SIZE \<le> ds \<and> ds \<le> length buf \<and> (\<forall>off len. sel = Some (off, len) \<longrightarrow> off + len \<le> ds)"
  using assms ext_loop_bounds [of buf HEADER_SIZE ext None s ds sel]
  by (auto simp: parse_extensions_def split: if_splits)

lemma parse_one_mask:
  "length buf = 26 \<Longrightarrow> buf ! 20 = 0 \<Longrightarrow> buf ! 21 = 4 \<Longrightarrow> snd (parse_extensions buf 1 s) = Some (26, Some (22, 4))"
  by (simp add: parse_extensions_def HEADER_SIZE_def ext_loop.simps [of buf 20 1 None s] Let_def)

section \<open>Properties\<close>

text \<open>C9. Selective acknowledgements survive the wire: in the acknowledgement a receiver builds, the parser
  of the sender finds a four-byte mask, and bit \<open>i\<close> of it, as the sender reads it, is set exactly when
  the receiver holds packet \<open>ack_nr + 2 + i\<close>, for the thirty packets after the missing one.\<close>

theorem selective_ack_roundtrip:
  fixes w :: nat
  assumes "rx_inv str n s" and "reorder_count s \<noteq> 0" and "\<not> got_fin_reached s" and "i < 32"
  defines "buf \<equiv> ack_packet_bytes s w"
  shows "\<exists>ext. hdr_ext buf = Some ext \<and> snd (parse_extensions buf ext s') = Some (length buf, Some (22, 4))
    \<and> (mask_bit (take 4 (drop 22 buf)) (int i) \<longleftrightarrow> i < 30 \<and> parked s (Suc i))"
proof -
  note a = ack_packet_sack [OF assms(2,3), of w, folded buf_def]
  have "snd (parse_extensions buf 1 s') = Some (length buf, Some (22, 4))"
    using parse_one_mask [OF a(1,3,4)] a(1) by simp
  with a(2,5) mask_bit_le_bytes [OF assms(4)] eack_mask_parked [OF assms(1)] show ?thesis by auto
qed

text \<open>A receiver that is missing packet 1 and holds packet 2.\<close>

definition gap_sock :: utp_sock where
  "gap_sock = still_sock\<lparr>inbuf := cb_put cb_new 2 (Some [7]), reorder_count := 1\<rparr>"

lemma gap_rx_inv: "rx_inv (\<lambda>_. [7]) 0 gap_sock"
proof -
  have "unat (0 :: u16) = 0" by simp
  have wf: "cb_wf (cb_put cb_new 2 (Some [7 :: u8]))" by simp
  have "ring_total occupied 16 (cb_get (cb_put cb_new 2 (Some [7 :: u8]))) = 1"
    using occupied_total_put [OF cb_new_wf, of 2 "Some [7]"] by (simp add: occupied_def ring_total_def)
  then show ?thesis
    by (auto simp: rx_inv_def rx_window_def rx_count_def gap_sock_def still_defs Let_def cb_get_put split: if_splits)
qed

theorem selective_ack_roundtrip_witness:
  "mask_bit (take 4 (drop 22 (ack_packet_bytes gap_sock 100))) 0"
proof -
  have g: "reorder_count gap_sock \<noteq> 0" "\<not> got_fin_reached gap_sock" "parked gap_sock (Suc 0)"
    by (simp_all add: gap_sock_def still_defs Let_def parked_def cb_get_put)
  from selective_ack_roundtrip [OF gap_rx_inv g(1,2), of 0 100 gap_sock] g(3) show ?thesis by auto
qed

text \<open>C28. No datagram can make the handler read outside its buffer: whatever the chain of extension headers
  claims, the payload offset and the selective-acknowledgement mask that the parser returns lie
  within the datagram.\<close>

theorem extensions_stay_inside:
  assumes "snd (parse_extensions buf ext s) = Some (ds, sel)"
  shows "20 \<le> ds \<and> ds \<le> length buf \<and> (\<forall>off len. sel = Some (off, len) \<longrightarrow> off + len \<le> ds)"
  using parse_extensions_bounds [OF assms] by (simp add: HEADER_SIZE_def)

theorem extensions_stay_inside_witness:
  "20 \<le> (26 :: nat) \<and> 26 \<le> length (ack_packet_bytes gap_sock 100)"
proof -
  have g: "reorder_count gap_sock \<noteq> 0" "\<not> got_fin_reached gap_sock"
    by (simp_all add: gap_sock_def still_defs Let_def)
  note a = ack_packet_sack [OF this, of 100]
  have "snd (parse_extensions (ack_packet_bytes gap_sock 100) 1 gap_sock) = Some (26, Some (22, 4))"
    by (rule parse_one_mask [OF a(1,3,4)])
  from extensions_stay_inside [OF this] show ?thesis by blast
qed

end
