(* ===== verification/Congestion.thy ===== *)
theory Congestion
  imports No_Panic
begin

text \<open>
  The LEDBAT controller and the reaction to loss, bounded through the rounding of every floating-point
  operation they use.
\<close>

section \<open>Ranges\<close>

lemma as_i32_range: "- (2 ^ 31) \<le> as_i32 k" "as_i32 k < 2 ^ 31"
  unfolding as_i32_def by (rule signed_take_bit_int_greater_eq_minus_exp signed_take_bit_int_less_exp)+

lemma cc_target_range: "0 < cc_target s" "cc_target s < 2 ^ 31"
  using as_i32_range [of "int (target_delay s)"] by (auto simp: cc_target_def Let_def)

lemma cc_our_delay_range: "cc_our_delay m s < 2 ^ 31"
  using as_i32_range by (simp add: cc_our_delay_def Let_def)

lemma off_target_exact:
  assumes "0 \<le> cc_our_delay m s"
  shows "f64_of_i32 (as_i32 (cc_target s - cc_our_delay m s)) = of_int (cc_target s - cc_our_delay m s)"
proof -
  have "as_i32 (cc_target s - cc_our_delay m s) = cc_target s - cc_our_delay m s"
    using cc_target_range [of s] cc_our_delay_range [of m s] assms by (intro as_i32_id) simp_all
  then show ?thesis using cc_target_range [of s] cc_our_delay_range [of m s] assms by (simp add: f64_of_i32_exact)
qed

lemma cc_window_factor_range:
  "0 \<le> cc_window_factor n s" "cc_window_factor n s \<le> 1"
proof -
  let ?a = "f64_of_usize (min n (max_window s))" and ?b = "f64_of_usize (max (max_window s) n)"
  have a: "0 \<le> ?a" by (simp add: f64_of_usize_def f64_round_nonneg)
  have ab: "?a \<le> ?b" unfolding f64_of_usize_def by (rule f64_round_mono) (simp add: min_def max_def)
  have "?a / ?b \<le> 1" using a ab by (cases "?b = 0") (simp_all add: divide_le_eq_1)
  with f64_round_le_int [of "?a / ?b" 1] show "cc_window_factor n s \<le> 1"
    by (simp add: cc_window_factor_def f64_div_def)
  show "0 \<le> cc_window_factor n s"
    using a ab by (simp add: cc_window_factor_def f64_div_def f64_round_nonneg)
qed

section \<open>The gain\<close>

definition cc_delay_factor :: "int \<Rightarrow> utp_sock \<Rightarrow> rat" where
  "cc_delay_factor m s = f64_div (f64_of_i32 (as_i32 (cc_target s - cc_our_delay m s))) (f64_of_i32 (cc_target s))"

lemma cc_delay_factor_le:
  assumes "0 \<le> cc_our_delay m s"
  shows "cc_delay_factor m s \<le> 1" and "cc_target s \<le> cc_our_delay m s \<Longrightarrow> cc_delay_factor m s \<le> 0"
proof -
  let ?t = "cc_target s" and ?d = "cc_our_delay m s"
  have t: "f64_of_i32 ?t = of_int ?t" using cc_target_range [of s] by (simp add: f64_of_i32_exact)
  have eq: "cc_delay_factor m s = f64_round (of_int (?t - ?d) / of_int ?t)"
    by (simp add: cc_delay_factor_def f64_div_def t off_target_exact [OF assms])
  have pos: "0 < (of_int ?t :: rat)" using cc_target_range(1) by simp
  have "of_int (?t - ?d) / (of_int ?t :: rat) \<le> of_int 1" using pos assms by (simp add: divide_le_eq)
  then show "cc_delay_factor m s \<le> 1" unfolding eq using f64_round_le_int [of _ 1] by simp
  assume "?t \<le> ?d"
  then have "of_int (?t - ?d) / (of_int ?t :: rat) \<le> of_int 0" using pos by (simp add: divide_le_0_iff)
  then show "cc_delay_factor m s \<le> 0" unfolding eq using f64_round_le_int [of _ 0] by simp
qed

lemma cc_scaled_gain_le:
  assumes "0 \<le> cc_our_delay m s"
  shows "cc_scaled_gain now n m s \<le> 3000" and "cc_target s \<le> cc_our_delay m s \<Longrightarrow> cc_scaled_gain now n m s \<le> 0"
proof -
  let ?w = "f64_mul (f64_of_usize MAX_CWND_INCREASE_BYTES_PER_RTT) (cc_window_factor n s)"
  have "of_int 0 \<le> 3000 * cc_window_factor n s" "3000 * cc_window_factor n s \<le> of_int 3000"
    using cc_window_factor_range [of n s] by simp_all
  then have w: "0 \<le> ?w" "?w \<le> 3000"
    using f64_round_ge_int [of 0] f64_round_le_int [of _ 3000]
    by (simp_all add: f64_mul_def MAX_CWND_INCREASE_BYTES_PER_RTT_def)
  have gain: "cc_scaled_gain now n m s \<le> max 0 (f64_round (?w * cc_delay_factor m s))"
    "f64_round (?w * cc_delay_factor m s) \<le> 0 \<Longrightarrow> cc_scaled_gain now n m s \<le> 0"
    by (auto simp: cc_scaled_gain_def Let_def cc_delay_factor_def f64_mul_def)
  have "?w * cc_delay_factor m s \<le> ?w * 1" using w(1) cc_delay_factor_le(1) [OF assms] by (rule mult_left_mono [rotated])
  then have "?w * cc_delay_factor m s \<le> of_int 3000" using w(2) by simp
  then have "f64_round (?w * cc_delay_factor m s) \<le> 3000" using f64_round_le_int [of _ 3000] by simp
  with gain(1) show "cc_scaled_gain now n m s \<le> 3000" by simp
  assume "cc_target s \<le> cc_our_delay m s"
  then have "?w * cc_delay_factor m s \<le> of_int 0"
    using w(1) cc_delay_factor_le(2) [OF assms] by (simp add: mult_nonneg_nonpos)
  then show "cc_scaled_gain now n m s \<le> 0" using gain(2) f64_round_le_int [of _ 0] by simp
qed

section \<open>The new window\<close>

lemma add_to_window_le:
  assumes "max_window s + k \<le> 2 ^ 53" and "g \<le> of_nat k"
  shows "f64_add (f64_of_usize (max_window s)) g \<le> of_nat (max_window s + k)"
proof -
  have "of_nat (max_window s) + g \<le> of_int (int (max_window s + k))" using assms(2) by simp
  then have "f64_round (of_nat (max_window s) + g) \<le> of_int (int (max_window s + k))"
    by (rule f64_round_le_int) (use assms(1) in simp)
  then show ?thesis using assms(1) by (simp add: f64_add_def)
qed

lemma ledbat_cwnd_le:
  assumes "max_window s + k \<le> 2 ^ 53" "MIN_WINDOW_SIZE \<le> max_window s" "cc_scaled_gain now n m s \<le> of_nat k"
  shows "ledbat_cwnd now n m s \<le> max_window s + k"
  using f64_to_usize_le [OF add_to_window_le [OF assms(1,3)]] assms(2) by (simp add: ledbat_cwnd_def Let_def)

lemma ss_cwnd_le:
  assumes "max_window s + 3000 \<le> 2 ^ 53" "get_packet_size s \<le> 1382"
  shows "ss_cwnd n s \<le> max_window s + 3000"
proof -
  have "cc_window_factor n s * of_nat (get_packet_size s) \<le> 1 * of_nat 1382"
    using cc_window_factor_range [of n s] assms(2) by (intro mult_mono) (simp_all del: of_nat_numeral)
  then have "cc_window_factor n s * of_nat (get_packet_size s) \<le> of_int 3000" by simp
  then have "f64_mul (cc_window_factor n s) (f64_of_usize (get_packet_size s)) \<le> of_nat 3000"
    using f64_round_le_int [of _ 3000] assms(2) by (simp add: f64_mul_def)
  from f64_to_usize_le [OF add_to_window_le [OF assms(1) this]] show ?thesis by (simp add: ss_cwnd_def)
qed

lemma clamp_le: "usize_clamp lo hi x = Some w \<Longrightarrow> lo \<le> b \<Longrightarrow> x \<le> b \<Longrightarrow> w \<le> b"
  by (auto simp: usize_clamp_def split: if_splits)

lemma apply_ccontrol_le:
  assumes "apply_ccontrol now n m s = Some s'" "MIN_WINDOW_SIZE \<le> max_window s"
    and "ledbat_cwnd now n m s \<le> b" "max_window s \<le> b"
    and "slow_start s \<Longrightarrow> ss_cwnd n s \<le> b
      \<or> f64_of_i32 (cc_our_delay m s) > f64_mul (f64_of_i32 (cc_target s)) (f64_round (9 / 10))"
  shows "max_window s' \<le> b"
proof -
  have lo: "MIN_WINDOW_SIZE \<le> b" using assms(2,4) by simp
  show ?thesis
    using assms(1,3-5) clamp_le [OF _ lo]
    by (auto simp: apply_ccontrol_def Let_def split: if_splits)
qed

section \<open>Properties\<close>

text \<open>C18. The congestion window grows by at most 3000 bytes for one acknowledgement, in slow start and out of
  it, rounding of the floating-point arithmetic included.\<close>

theorem window_growth_bounded:
  assumes "cwnd_inv s" and "max_window s + 3000 \<le> 2 ^ 53" and "0 \<le> cc_our_delay min_rtt s"
    and "apply_ccontrol now acked min_rtt s = Some s'"
  shows "max_window s' \<le> max_window s + 3000"
proof -
  have s: "MIN_WINDOW_SIZE \<le> max_window s" "get_packet_size s \<le> 1382"
    using assms(1) mtu_inv_packet_size [of s] by (simp_all add: cwnd_inv_def)
  show ?thesis
    by (rule apply_ccontrol_le [OF assms(4) s(1)])
      (use ledbat_cwnd_le [OF assms(2) s(1)] cc_scaled_gain_le(1) [OF assms(3)] ss_cwnd_le [OF assms(2) s(2)] in simp_all)
qed

lemma still_ccontrol: "cc_our_delay 5 still_sock = 0" "max_window still_sock = 1382" "cwnd_inv still_sock"
proof -
  show "cc_our_delay 5 still_sock = 0"
    by (simp add: cc_our_delay_def still_defs Let_def dh_get_value_def dh_new_def CUR_DELAY_SIZE_def numeral_eq_Suc)
  show "max_window still_sock = 1382" by (simp add: still_defs Let_def get_packet_size_def usize_sub_def HEADER_SIZE_def)
  show "cwnd_inv still_sock" using still_conn_inv by (simp add: conn_inv_def still_eng_def)
qed

theorem window_growth_bounded_witness: "\<exists>s'. apply_ccontrol 2000 500 5 still_sock = Some s' \<and> max_window s' \<le> 4382"
proof -
  have "\<not> opt_sndbuf still_sock < MIN_WINDOW_SIZE" using still_limits(2) by (simp add: still_eng_def)
  then obtain s' where r: "apply_ccontrol 2000 500 5 still_sock = Some s'"
    using apply_ccontrol_None [of 2000 500 5 still_sock] by (cases "apply_ccontrol 2000 500 5 still_sock") auto
  from window_growth_bounded [OF still_ccontrol(3) _ _ r] r show ?thesis by (simp add: still_ccontrol)
qed

text \<open>C19. Above its delay target the controller never grows the window, not even in slow start.\<close>

theorem no_growth_above_target:
  assumes "cwnd_inv s" and "max_window s \<le> 2 ^ 53" and "cc_target s < cc_our_delay min_rtt s"
    and "apply_ccontrol now acked min_rtt s = Some s'"
  shows "max_window s' \<le> max_window s"
proof -
  have s: "MIN_WINDOW_SIZE \<le> max_window s" using assms(1) by (simp add: cwnd_inv_def)
  have d: "0 \<le> cc_our_delay min_rtt s" using assms(3) cc_target_range(1) [of s] by simp
  have "f64_round (9 / 10) \<le> of_int 1" by (rule f64_round_le_int) simp_all
  then have "of_int (cc_target s) * f64_round (9 / 10) \<le> of_int (cc_target s) * 1"
    using cc_target_range(1) [of s] by (intro mult_left_mono) simp_all
  then have "f64_mul (f64_of_i32 (cc_target s)) (f64_round (9 / 10)) \<le> of_int (cc_target s)"
    using cc_target_range [of s] by (simp add: f64_mul_def f64_of_i32_exact f64_round_le_int)
  also have "\<dots> < f64_of_i32 (cc_our_delay min_rtt s)"
    using assms(3) d cc_our_delay_range [of min_rtt s] by (simp add: f64_of_i32_exact)
  finally have fast: "f64_of_i32 (cc_our_delay min_rtt s) > f64_mul (f64_of_i32 (cc_target s)) (f64_round (9 / 10))" .
  show ?thesis
    by (rule apply_ccontrol_le [OF assms(4) s])
      (use ledbat_cwnd_le [of s 0 now acked min_rtt] cc_scaled_gain_le(2) [OF d, of now acked] assms(2,3) s fast in simp_all)
qed

theorem no_growth_above_target_witness:
  "\<exists>s'. apply_ccontrol 2000 500 5 (still_sock\<lparr>target_delay := 1, clock_drift := -200700\<rparr>) = Some s' \<and> max_window s' \<le> 1382"
proof -
  let ?s = "still_sock\<lparr>target_delay := 1, clock_drift := -200700\<rparr>"
  have "dh_get_value (our_hist ?s) = 0"
    by (simp add: still_defs Let_def dh_get_value_def dh_new_def CUR_DELAY_SIZE_def numeral_eq_Suc)
  then have f: "max_window ?s = 1382" "cc_our_delay 5 ?s = 100" "cc_target ?s = 1" "opt_sndbuf ?s = opt_sndbuf still_sock"
    using still_ccontrol by (simp_all add: cc_our_delay_def cc_target_def rust_div_def)
  have "cwnd_inv ?s" using still_ccontrol(3) cwnd_inv_cong [of ?s still_sock] by (simp add: core_cc_def)
  moreover obtain s' where r: "apply_ccontrol 2000 500 5 ?s = Some s'"
    using apply_ccontrol_None [of 2000 500 5 ?s] still_limits(2) f(4)
    by (cases "apply_ccontrol 2000 500 5 ?s") (auto simp: still_eng_def)
  ultimately show ?thesis using no_growth_above_target [OF _ _ _ r] f r by simp
qed



end
