(* ===== verification/Send_Queue.thy ===== *)
theory Send_Queue
  imports No_Panic
begin

text \<open>
  The transmission window as a queue of bytes: what a write appends to it. Sending and resending
  restamp headers but leave the queue alone, and the packetiser appends what it takes: an
  interpretation of \<open>write_invariant\<close>.
\<close>

section \<open>The bytes in the transmission window\<close>

definition slot_bytes :: "outgoing_packet option \<Rightarrow> bytes" where
  "slot_bytes x = (case x of None \<Rightarrow> [] | Some p \<Rightarrow> drop HEADER_SIZE (pkt_data p))"

text \<open>The payloads of the packets in the window, oldest first.\<close>

definition pending :: "utp_sock \<Rightarrow> bytes" where
  "pending s = concat (map (\<lambda>j. slot_bytes (cb_get (outbuf s) (unat (seq_nr s - cur_window_packets s) + j)))
     [0..<unat (cur_window_packets s)])"

definition same_queue :: "utp_sock \<Rightarrow> utp_sock \<Rightarrow> bool" where
  "same_queue s s' \<longleftrightarrow> seq_nr s' = seq_nr s \<and> cur_window_packets s' = cur_window_packets s
     \<and> (\<forall>i. slot_bytes (cb_get (outbuf s') i) = slot_bytes (cb_get (outbuf s) i))"

lemma same_queue_refl [simp]: "same_queue s s"
  by (simp add: same_queue_def)

lemma same_queue_trans: "same_queue a b \<Longrightarrow> same_queue b c \<Longrightarrow> same_queue a c"
  by (simp add: same_queue_def)

lemma same_queue_pending: "same_queue s s' \<Longrightarrow> pending s' = pending s"
  by (simp add: same_queue_def pending_def)

lemma quiet_same_queue: "quiet e e' \<Longrightarrow> same_queue (sk e) (sk e')"
  by (simp add: quiet_def core_defs same_queue_def)

lemma same_queue_put:
  assumes "cb_wf (outbuf s)" "slot_bytes v = slot_bytes (cb_get (outbuf s) i)"
    and "outbuf s' = cb_put (outbuf s) i v" "seq_nr s' = seq_nr s" "cur_window_packets s' = cur_window_packets s"
  shows "same_queue s s'"
proof -
  have "slot_bytes (cb_get (cb_put (outbuf s) i v) j) = slot_bytes (cb_get (outbuf s) j)" for j
    using assms(2) cb_get_cong [OF assms(1), of i j] by (simp add: cb_get_put [OF assms(1)])
  then show ?thesis using assms(3-5) by (simp add: same_queue_def)
qed

lemma drop_send_data [simp]: "drop HEADER_SIZE (fst (send_data b e)) = drop HEADER_SIZE b"
  by (simp add: send_data_def split_beta Let_def)

lemma send_same_queue:
  assumes "cb_wf (outbuf (sk e))"
  shows "same_queue (sk e) (sk (send_packet_at q e))"
proof (cases "cb_get (outbuf (sk e)) (unat q)")
  case (Some p)
  have "\<exists>v. slot_bytes v = slot_bytes (Some p) \<and> outbuf (sk (send_packet_at q e)) = cb_put (cb_put (outbuf (sk e)) (unat q) None) (unat q) v"
    using Some by (simp add: send_packet_at_def split_beta Let_def sk_send_data)
      (rule exI, rule conjI [rotated], rule refl, simp add: slot_bytes_def)
  then obtain v where v: "slot_bytes v = slot_bytes (Some p)"
      "outbuf (sk (send_packet_at q e)) = cb_put (outbuf (sk e)) (unat q) v" using cb_put_twice by metis
  show ?thesis
    by (rule same_queue_put [OF assms _ v(2)]) (use v(1) Some in simp_all)
qed (simp add: send_packet_at_def)

section \<open>Appending\<close>

lemma slot_bytes_None [simp]: "slot_bytes None = []"
  by (simp add: slot_bytes_def)

lemma drop_stamp_header [simp]: "drop HEADER_SIZE (stamp_header fl c w a b) = drop HEADER_SIZE b"
  by (simp add: stamp_header_def)

lemma pending_append:
  assumes wf: "cb_wf (outbuf s)" "cb_wf (outbuf s')" and sz: "unat (cur_window_packets s) < cb_size (outbuf s')"
    and same: "\<And>j. j < unat (cur_window_packets s) \<Longrightarrow>
      slot_bytes (cb_get (outbuf s') (unat (seq_nr s - cur_window_packets s) + j))
        = slot_bytes (cb_get (outbuf s) (unat (seq_nr s - cur_window_packets s) + j))"
    and new: "slot_bytes (cb_get (outbuf s') (unat (seq_nr s - cur_window_packets s) + unat (cur_window_packets s))) = d"
    and s': "seq_nr s' = seq_nr s + 1" "cur_window_packets s' = cur_window_packets s + 1"
      "unat (cur_window_packets s + 1) = Suc (unat (cur_window_packets s))"
  shows "pending s' = pending s @ d"
proof -
  let ?f = "\<lambda>j. slot_bytes (cb_get (outbuf s') (unat (seq_nr s - cur_window_packets s) + j))"
  have "pending s' = concat (map ?f [0..<unat (cur_window_packets s)]) @ ?f (unat (cur_window_packets s))"
    by (simp add: pending_def s')
  also have "map ?f [0..<unat (cur_window_packets s)]
    = map (\<lambda>j. slot_bytes (cb_get (outbuf s) (unat (seq_nr s - cur_window_packets s) + j))) [0..<unat (cur_window_packets s)]"
    by (rule map_cong) (simp_all add: same)
  finally show ?thesis by (simp add: pending_def new)
qed

lemma pending_extend:
  assumes "cur_window_packets s > 0" "unat (cur_window_packets s) \<le> cb_size (outbuf s)" "cb_wf (outbuf s)"
    and "outbuf s' = cb_put (outbuf s) (unat (seq_nr s - 1)) v"
    and "slot_bytes v = slot_bytes (cb_get (outbuf s) (unat (seq_nr s - 1))) @ d"
    and s': "seq_nr s' = seq_nr s" "cur_window_packets s' = cur_window_packets s"
  shows "pending s' = pending s @ d"
proof -
  let ?c = "unat (cur_window_packets s)" and ?b = "outbuf s" and ?base = "unat (seq_nr s - cur_window_packets s)"
  obtain k where k: "?c = Suc k" using assms(1) by (metis gr0_conv_Suc unat_gt_0 word_neq_0_conv)
  have "(?base + k) mod cb_size ?b = unat (seq_nr s - 1) mod cb_size ?b"
  proof -
    have "cur_window_packets s = 1 + of_nat k" using arg_cong [OF k, of "of_nat :: nat \<Rightarrow> u16"] by simp
    then have eq: "seq_nr s - 1 = (seq_nr s - cur_window_packets s) + of_nat k" by simp
    show ?thesis
      using unat_u16_add_mod [OF cb_size_dvd [OF assms(3)], of "seq_nr s - cur_window_packets s" k]
      by (simp only: eq)
  qed
  note at = this
  have get: "cb_get (outbuf s') (?base + j) = (if j = k then v else cb_get ?b (?base + j))" if "j \<le> k" for j
  proof -
    have "unat (seq_nr s - 1) mod cb_size ?b = (?base + j) mod cb_size ?b \<longleftrightarrow> j = k"
      unfolding at [symmetric] using mod_add_inj [of ?base k "cb_size ?b" j] that k assms(2) by auto
    then show ?thesis unfolding assms(4) cb_get_put [OF assms(3)] by simp
  qed
  have last: "cb_get ?b (?base + k) = cb_get ?b (unat (seq_nr s - 1))" by (rule cb_get_cong [OF assms(3) at])
  have "map (\<lambda>j. slot_bytes (cb_get (outbuf s') (?base + j))) [0..<k] = map (\<lambda>j. slot_bytes (cb_get ?b (?base + j))) [0..<k]"
    by (rule map_cong) (simp_all add: get)
  from arg_cong [OF this, of concat] show ?thesis
    using get [of k] last assms(5) by (simp add: pending_def s' k del: map_eq_conv)
qed

lemma write_step_pending:
  assumes "conn_inv e" "send_room e" "payload \<le> length data"
    and st: "write_step ps fl payload data e = (added, data1, e1)"
  shows "pending (sk e1) = pending (sk e) @ take added data"
proof -
  let ?s = "(sk e)\<lparr>last_rcv_win := get_rcv_window e\<rparr>"
  have w: "window_inv ?s" using assms(1) by (simp add: conn_inv_def flight_inv_def window_inv_def)
  then have wf: "cb_wf (outbuf ?s)" and fit: "unat (cur_window_packets ?s) \<le> cb_size (outbuf ?s)"
    by (simp_all add: window_inv_def)
  have lt: "unat (cur_window_packets ?s) < 2 ^ 15"
    using assms(2) by (auto simp: send_room_def of_bool_def split: if_splits)
  have p0: "pending ?s = pending (sk e)" by (simp add: pending_def)
  show ?thesis
  proof (cases "extend_last ps payload ?s")
    case None
    define q c where "q = seq_nr (sk e)" and "c = cur_window_packets (sk e)"
    define ob where "ob = cb_ensure_size (outbuf (sk e)) (unat q) (unat c)"
    define p1 where "p1 = \<lparr>pkt_payload = payload, pkt_time_sent = 0, pkt_transmissions = 0, pkt_need_resend = False,
        pkt_data = set_seq_nr (stamp_header fl (ucast (conn_id_send ?s)) (u32_of_usize (get_rcv_window e)) (ack_nr ?s)
          (replicate HEADER_SIZE 0 @ take (min payload (length data)) data)) q\<rparr>"
    have eff: "added = payload" "sk e1 = ?s\<lparr>outbuf := cb_put ob (unat q) (Some p1), seq_nr := q + 1, cur_window_packets := c + 1\<rparr>"
      using st None by (auto simp: write_step_def Let_def p1_def ob_def q_def c_def)
    have lt: "unat c < 2 ^ 15" and wf: "cb_wf (outbuf (sk e))" and fit: "unat c \<le> cb_size (outbuf (sk e))"
      using lt wf fit by (simp_all add: c_def)
    let ?base = "unat (q - c)"
    have item: "(?base + unat c) mod 2 ^ 16 = unat q mod 2 ^ 16"
      using unat_u16_add_mod [of "2 ^ 16" "q - c" "unat c"] by simp
    note en = ring.ensure_wf [OF wf lt, of "unat q", folded ob_def] ring.ensure_room [OF wf lt, of "unat q", folded ob_def]
    have at: "unat q mod cb_size ob = (?base + j) mod cb_size ob \<longleftrightarrow> j = unat c" if "j \<le> unat c" for j
      using unat_u16_add_mod [OF cb_size_dvd [OF en(1)], of "q - c" "unat c"] mod_add_inj [of ?base "unat c" "cb_size ob" j] that en(2)
      by auto
    have "cb_get ob (?base + j) = cb_get (outbuf (sk e)) (?base + j)" if "j < unat c" for j
      using ring.ensure_get [OF wf lt item, of j, folded ob_def] that en(2) fit by simp
    then have get: "cb_get (cb_put ob (unat q) (Some p1)) (?base + j)
        = (if j = unat c then Some p1 else cb_get (outbuf (sk e)) (?base + j))" if "j \<le> unat c" for j
      unfolding cb_get_put [OF en(1)] using at [OF that] that by auto
    have "slot_bytes (Some p1) = take payload data"
      using assms(3) by (simp add: slot_bytes_def p1_def)
    then have "pending (sk e1) = pending ?s @ take payload data"
      unfolding eff(2)
      by (intro pending_append [of ?s]) (use wf en lt get in \<open>simp_all add: unat_word_ariths flip: q_def c_def\<close>)
    then show ?thesis by (simp add: eff(1) p0)
  next
    case (Some p)
    then have p: "cb_get (outbuf ?s) (unat (seq_nr ?s - 1)) = Some p" "cur_window_packets ?s > 0"
      by (auto simp: extend_last_def split: if_splits option.splits)
    define a where "a = min (payload + pkt_payload p) (max ps (pkt_payload p)) - pkt_payload p"
    define p1 where "p1 = p\<lparr>pkt_data := stamp_header fl (ucast (conn_id_send ?s)) (u32_of_usize (get_rcv_window e)) (ack_nr ?s)
        (pkt_data p @ take (min a (length data)) data), pkt_payload := pkt_payload p + a\<rparr>"
    have eff: "added = a" "sk e1 = ?s\<lparr>outbuf := cb_put (outbuf ?s) (unat (seq_nr ?s - 1)) (Some p1)\<rparr>"
      using st Some by (auto simp: write_step_def Let_def p1_def a_def)
    have len: "HEADER_SIZE \<le> length (pkt_data p)" using w p(1) by (auto simp: window_inv_def)
    have "a \<le> length data" using assms(3) by (simp add: a_def)
    then have "slot_bytes (Some p1) = slot_bytes (cb_get (outbuf ?s) (unat (seq_nr ?s - 1))) @ take a data"
      using len unfolding p(1) by (simp add: slot_bytes_def p1_def)
    then have "pending (sk e1) = pending ?s @ take a data"
      unfolding eff(2) by (intro pending_extend [OF p(2) fit wf]) simp_all
    then show ?thesis by (simp add: eff(1) p0)
  qed
qed

interpretation queue: write_invariant "\<lambda>W e. conn_inv e \<and> pending (sk e) = W"
proof (unfold_locales, goal_cases)
  case (1 W e e') then show ?case using conn.quiet same_queue_pending [OF quiet_same_queue] by blast
next
  case (2 W e q) then show ?case using conn.send same_queue_pending [OF send_same_queue [OF conn.ring]] by blast
next
  case (3 W e payload data fl ps added data1 e1)
  then show ?case using conn_inv_queue [of e payload data ps fl] write_step_pending [of e payload data ps fl] by simp
qed

section \<open>Properties\<close>

text \<open>C5. A write takes a prefix of the data and loses none of it: the number it returns is at most the
  length of the buffer, and the payload bytes waiting in the transmission window afterwards are those
  that waited before followed by exactly that many bytes of the buffer, however they were cut into
  packets, merged into a partly filled one or sent at once.\<close>

theorem write_appends_prefix:
  assumes "conn_inv e" and "write_engine buf e = (n, e')"
  shows "n \<le> length buf \<and> pending (sk e') = pending (sk e) @ take n buf"
  using queue.write_engine_inv [of e "pending (sk e)" buf n e'] assms by simp

theorem write_appends_prefix_witness:
  "\<exists>n e'. write_engine [1, 2, 3] still_eng = (n, e') \<and> n \<le> 3
    \<and> pending (sk e') = pending (sk still_eng) @ take n [1, 2, 3]"
proof -
  obtain n e' where r: "write_engine [1, 2, 3] still_eng = (n, e')" by fastforce
  from write_appends_prefix [OF still_conn_inv this] r show ?thesis by auto
qed

end
