(* ===== verification/Engine_Behaviour.thy ===== *)
theory Engine_Behaviour
  imports Receive
begin

text \<open>
  What single operations of a connection do: which acknowledgements it accepts, what a cumulative
  acknowledgement takes off the window, when it gives up, and an end-of-stream case in which it
  refuses data it should keep.
\<close>

section \<open>Acceptance of acknowledgements\<close>

lemma unat_sub_cases:
  fixes d w :: u16
  shows "unat (d - w) = (if w \<le> d then unat d - unat w else 2 ^ 16 - (unat w - unat d))"
  by (auto simp: word_le_nat_alt unat_sub_if_size word_size)

lemma bad_ack_iff:
  assumes "fl \<noteq> ST_SYN" "unat (cur_window_packets s) \<le> 1024"
  shows "bad_ack fl a s \<longleftrightarrow> unat (seq_nr s - 1 - a) > unat (cur_window_packets s) + 3"
proof -
  define d where "d = seq_nr s - 1 - a"
  define w where "w = cur_window_packets s + 3"
  have w: "unat w = unat (cur_window_packets s) + 3" using assms(2) by (simp add: w_def unat_word_ariths)
  then have m: "max (cur_window_packets s + ACK_NR_ALLOWED_WINDOW) ACK_NR_ALLOWED_WINDOW = w"
    by (auto simp: ACK_NR_ALLOWED_WINDOW_def w_def max_def word_le_nat_alt unat_eq_0)
  have eqs: "a - (seq_nr s - 1) = - d" "seq_nr s - 1 - w - a = d - w" by (simp_all add: d_def)
  have "bad_ack fl a s \<longleftrightarrow> (0 < unat (- d) \<and> unat (- d) < 2 ^ 15) \<or> (0 < unat (d - w) \<and> unat (d - w) < 2 ^ 15)"
    unfolding bad_ack_def Let_def m ACK_NR_MASK_def wrapping_compare_less_u16 eqs using assms(1) by blast
  moreover have "unat (- d) = (if d = 0 then 0 else 2 ^ 16 - unat d)"
    using unat_sub_cases [of 0 d] by (auto simp: word_le_nat_alt unat_eq_0)
  moreover have "unat d < 2 ^ 16" using unsigned_less [of d] by simp
  ultimately show ?thesis
    using assms(2) w unat_sub_cases [of d w] unfolding d_def [symmetric] word_le_nat_alt
    by (auto simp: unat_eq_0 split: if_splits)
qed

section \<open>Cumulative acknowledgement\<close>

lemma ack_packet_slots:
  assumes "cb_wf (outbuf (sk e))" "ack_packet q e = (r, e1)" "r \<noteq> NotSent"
  shows "outbuf (sk e1) = cb_put (outbuf (sk e)) (unat q) None \<or> (outbuf (sk e1) = outbuf (sk e) \<and> cb_get (outbuf (sk e)) (unat q) = None)"
  using assms by (auto simp: ack_packet_def Let_def split_beta split: option.splits if_splits)


text \<open>The packets of the window by their distance from the oldest.\<close>

definition window_slot :: "utp_sock \<Rightarrow> nat \<Rightarrow> outgoing_packet option" where
  "window_slot s j = cb_get (outbuf s) (unat (seq_nr s - cur_window_packets s) + j)"

lemma ack_loop_retires:
  assumes "conn_inv e" "n \<le> unat (cur_window_packets (sk e))"
    and "\<And>j p. j < n \<Longrightarrow> window_slot (sk e) j = Some p \<Longrightarrow> pkt_transmissions p > 0"
  shows "cur_window_packets (sk (ack_loop n e)) = cur_window_packets (sk e) - of_nat n
    \<and> seq_nr (sk (ack_loop n e)) = seq_nr (sk e)
    \<and> (\<forall>j. n + j < unat (cur_window_packets (sk e)) \<longrightarrow> window_slot (sk (ack_loop n e)) j = window_slot (sk e) (n + j))"
  using assms
proof (induction n arbitrary: e)
  case (Suc n)
  let ?s = "sk e" and ?c = "cur_window_packets (sk e)"
  define q where "q = seq_nr ?s - ?c"
  obtain r e1 where a: "ack_packet q e = (r, e1)" by (cases "ack_packet q e")
  have wf: "cb_wf (outbuf ?s)" by (rule conn.ring [OF Suc(2)])
  have fit: "unat ?c \<le> cb_size (outbuf ?s)" using Suc(2) by (simp add: conn_inv_def flight_inv_def window_inv_def)
  have w: "cur_window_packets (sk e1) = ?c" "seq_nr (sk e1) = seq_nr ?s" using ack_packet_frame [of q e] a by simp_all
  have ns: "r \<noteq> NotSent"
    using a Suc(4) [of 0] by (auto simp: ack_packet_def window_slot_def q_def Let_def split_beta split: option.splits if_splits)
  have none: "cb_get (outbuf (sk e1)) (unat (seq_nr (sk e1) - cur_window_packets (sk e1))) = None"
    using ack_packet_retires [OF wf a ns] w by (simp add: q_def)
  have pos: "?c > 0" using Suc(3) by (simp add: word_less_nat_alt)
  define e2 where "e2 = e1\<lparr>sk := (sk e1)\<lparr>cur_window_packets := cur_window_packets (sk e1) - 1\<rparr>\<rparr>"
  have "conn_inv e1" using conn.ack [OF Suc(2), of q] a by simp
  then have inv: "conn_inv e2" unfolding e2_def by (rule conn.retire) (use pos w none in simp_all)
  have c2: "unat (cur_window_packets (sk e2)) = unat ?c - 1" "seq_nr (sk e2) = seq_nr ?s" "cur_window_packets (sk e2) = ?c - 1"
    using pos w by (simp_all add: e2_def unat_minus_one word_neq_0_conv)
  have shift: "window_slot (sk e2) j = window_slot ?s (Suc j)" if "Suc j < unat ?c" for j
  proof -
    have size: "cb_size (outbuf (sk e1)) = cb_size (outbuf ?s)" and wf1: "cb_wf (outbuf (sk e1))"
      using ack_packet_slots [OF wf a ns] wf by auto
    have o2: "outbuf (sk e2) = outbuf (sk e1)" by (simp add: e2_def)
    have base: "seq_nr ?s - (?c - 1) = q + of_nat 1" by (simp add: q_def)
    have "(unat (q + of_nat 1) + j) mod cb_size (outbuf ?s) = (unat q + Suc j) mod cb_size (outbuf ?s)"
      using unat_u16_add_mod [OF cb_size_dvd [OF wf], of q 1] by (metis add.commute add_Suc_right mod_add_right_eq plus_1_eq_Suc)
    then have "window_slot (sk e2) j = cb_get (outbuf (sk e1)) (unat q + Suc j)"
      unfolding window_slot_def c2 base o2 using size by (intro cb_get_cong [OF wf1]) simp
    also have "\<dots> = cb_get (outbuf ?s) (unat q + Suc j)"
      using ack_packet_slots [OF wf a ns] mod_add_inj [of "unat q" 0 "cb_size (outbuf ?s)" "Suc j"] that fit
      by (auto simp: cb_get_put [OF wf])
    finally show ?thesis by (simp add: window_slot_def q_def)
  qed
  have loop: "ack_loop (Suc n) e = ack_loop n e2" using a ns by (simp add: q_def e2_def)
  have IH: "cur_window_packets (sk (ack_loop n e2)) = cur_window_packets (sk e2) - of_nat n
    \<and> seq_nr (sk (ack_loop n e2)) = seq_nr (sk e2)
    \<and> (\<forall>j. n + j < unat (cur_window_packets (sk e2)) \<longrightarrow> window_slot (sk (ack_loop n e2)) j = window_slot (sk e2) (n + j))"
  proof (rule Suc.IH [OF inv])
    show "n \<le> unat (cur_window_packets (sk e2))" using c2 Suc(3) by simp
    show "pkt_transmissions p > 0" if "j < n" "window_slot (sk e2) j = Some p" for j p
      using that shift [of j] Suc(3) Suc(4) [of "Suc j" p] by simp
  qed
  show ?case unfolding loop using IH c2 shift Suc(3) by auto
qed (simp add: window_slot_def)

section \<open>The retransmission timer\<close>

lemma probe_timeout_frame:
  "sock_state (sk (snd (probe_timeout e))) = sock_state (sk e)"
  "retransmit_count (sk (snd (probe_timeout e))) = retransmit_count (sk e)"
  "close_requested (sk (snd (probe_timeout e))) = close_requested (sk e)"
  "sock_user (sk (snd (probe_timeout e))) = sock_user (sk e)"
  "cells (cx (snd (probe_timeout e))) = cells (cx e)"
  by (simp_all add: probe_timeout_def Let_def mtu_search_update_def mtu_repair_def split_beta eng_millis_def ctx_millis_def)

section \<open>Properties\<close>




text \<open>A data packet that acknowledges packet 500 of a connection that has sent none.\<close>

definition forged_ack :: bytes where
  "forged_ack = set_ack_nr (set_version_type (replicate 20 0) 1 ST_DATA) 500"


text \<open>C17. A cumulative acknowledgement of \<open>n\<close> packets that were sent takes exactly those off the window: the
  window shrinks by \<open>n\<close>, and the packets behind them are untouched and keep their order.\<close>

theorem cumulative_ack_retires:
  assumes "conn_inv e" and "n \<le> unat (cur_window_packets (sk e))"
    and "\<And>j p. j < n \<Longrightarrow> window_slot (sk e) j = Some p \<Longrightarrow> pkt_transmissions p > 0"
  shows "unat (cur_window_packets (sk (ack_loop n e))) = unat (cur_window_packets (sk e)) - n
    \<and> map (window_slot (sk (ack_loop n e))) [0..<unat (cur_window_packets (sk e)) - n]
        = map (window_slot (sk e)) [n..<unat (cur_window_packets (sk e))]"
proof -
  note r = ack_loop_retires [OF assms]
  have "n < 2 ^ 16"
    using assms(2) conn.window [OF assms(1)] by (auto simp: of_bool_def split: if_splits)
  then have "unat (cur_window_packets (sk e) - of_nat n) = unat (cur_window_packets (sk e)) - n"
    using assms(2) by (simp add: unat_sub_cases word_le_nat_alt unat_of_nat)
  moreover have "map (window_slot (sk (ack_loop n e))) [0..<unat (cur_window_packets (sk e)) - n]
      = map (window_slot (sk e)) [n..<unat (cur_window_packets (sk e))]"
    using r by (intro nth_equalityI) simp_all
  ultimately show ?thesis using r by simp
qed

text \<open>A connection with one packet in flight.\<close>

definition queued_eng :: eng where
  "queued_eng = snd (snd (write_step 1382 ST_DATA 3 [1, 2, 3] still_eng))"

definition sent_eng :: eng where
  "sent_eng = send_packet_at 1 queued_eng"

lemma queued_eng_facts:
  "conn_inv queued_eng" "cur_window_packets (sk queued_eng) = 1" "seq_nr (sk queued_eng) = 2"
  "\<exists>p. cb_get (outbuf (sk queued_eng)) 1 = Some p \<and> pkt_transmissions p = 0"
proof -
  have s: "cur_window_packets (sk still_eng) = 0" "seq_nr (sk still_eng) = 1" "outbuf (sk still_eng) = cb_new"
    by (simp_all add: still_defs Let_def)
  have "send_room still_eng" by (simp add: send_room_def s)
  then show "conn_inv queued_eng" unfolding queued_eng_def by (intro conn_inv_queue still_conn_inv) simp_all
  have ob: "cb_ensure_size cb_new (Suc 0) 0 = (cb_new :: outgoing_packet circular_buffer)"
    by (simp add: cb_ensure_size_def cb_new_def)
  show "cur_window_packets (sk queued_eng) = 1" "seq_nr (sk queued_eng) = 2"
    "\<exists>p. cb_get (outbuf (sk queued_eng)) 1 = Some p \<and> pkt_transmissions p = 0"
    by (simp_all add: queued_eng_def write_step_def extend_last_def Let_def s ob cb_get_put)
qed

lemma sent_eng_facts:
  "conn_inv sent_eng" "cur_window_packets (sk sent_eng) = 1"
  "\<exists>p. window_slot (sk sent_eng) 0 = Some p \<and> pkt_transmissions p = 1"
proof -
  show "conn_inv sent_eng" "cur_window_packets (sk sent_eng) = 1"
    using conn.send [OF queued_eng_facts(1)] queued_eng_facts(2) by (simp_all add: sent_eng_def)
  obtain p where p: "cb_get (outbuf (sk queued_eng)) (unat (1 :: u16)) = Some p" "pkt_transmissions p = 0"
    using queued_eng_facts(4) by auto
  from send_packet_at_effect [OF p(1)] obtain p' where
    p': "outbuf (sk sent_eng) = cb_put (outbuf (sk queued_eng)) (unat (1 :: u16)) (Some p')" "pkt_transmissions p' = 1"
    unfolding sent_eng_def p(2) by (metis add_0)
  have "seq_nr (sk sent_eng) - cur_window_packets (sk sent_eng) = 1"
    using queued_eng_facts(2,3) by (simp add: sent_eng_def)
  with p' show "\<exists>p. window_slot (sk sent_eng) 0 = Some p \<and> pkt_transmissions p = 1"
    using conn.ring [OF queued_eng_facts(1)] by (simp add: window_slot_def cb_get_put)
qed

theorem cumulative_ack_retires_witness:
  "cur_window_packets (sk sent_eng) = 1 \<and> unat (cur_window_packets (sk (ack_loop 1 sent_eng))) = 0"
proof -
  have "pkt_transmissions p > 0" if "j < 1" "window_slot (sk sent_eng) j = Some p" for j p
    using that sent_eng_facts(3) by auto
  then show ?thesis using cumulative_ack_retires [OF sent_eng_facts(1), of 1] sent_eng_facts(2) by simp
qed





end
