(* ===== verification/System.thy ===== *)
theory System
  imports Socket_Api Context_Behaviour Sack Congestion Send_Queue Engine_Behaviour
begin

text \<open>
  Executions of a port: the critical sections of all threads in any order. The invariant of the port
  holds in every reachable state, so the bounds of the windows, queues and caches hold at every
  moment of every execution.
\<close>

section \<open>The invariant of a port\<close>

definition port_inv :: "shared \<Rightarrow> bool" where
  "port_inv g \<longleftrightarrow> ctx_inv (sh_ctx g) \<and> length (sh_backlog g) \<le> BACKLOG \<and> length (sh_non_utp g) \<le> NON_UTP_BACKLOG
     \<and> (sh_closed g \<longrightarrow> sockets (sh_ctx g) = [] \<and> sh_backlog g = [] \<and> sh_non_utp g = [])"

lemma port_inv_start: "port_inv (with_transport clk r t local)"
  by (simp add: port_inv_def with_transport_def Context_new_def ctx_inv_def RST_INFO_LIMIT_def)

lemma with_sock_empty [simp]: "sockets c = [] \<Longrightarrow> with_sock k f c = (None, c)"
  by (simp add: with_sock_def)

lemma ack_one_empty: "sockets c = [] \<Longrightarrow> ack_one k c = c"
  by (simp add: ack_one_def)

lemma issue_deferred_acks_empty: "sockets c = [] \<Longrightarrow> sockets (issue_deferred_acks c) = []"
proof -
  have "sockets c = [] \<Longrightarrow> fold ack_one ks c = c" for ks c by (induction ks) (simp_all add: ack_one_empty)
  then show "sockets c = [] \<Longrightarrow> sockets (issue_deferred_acks c) = []" by (simp add: issue_deferred_acks_def)
qed

lemma ctx_check_timeouts_empty: "sockets c = [] \<Longrightarrow> sockets (ctx_check_timeouts c) = []"
  by (simp add: ctx_check_timeouts_def ctx_millis_def split_beta Let_def)

lemma sockets_ctx_cell [simp]: "sockets (ctx_cell u f c) = sockets c"
  by (simp add: ctx_cell_def)

lemma sockets_send_to [simp]: "sockets (snd (send_to_addr b a c)) = sockets c"
  by (simp add: send_to_addr_def split_beta)

lemma port_inv_ctx:
  assumes "port_inv g" "ctx_inv c" "sockets (sh_ctx g) = [] \<Longrightarrow> sockets c = []"
  shows "port_inv (g\<lparr>sh_ctx := c\<rparr>)"
  using assms by (simp add: port_inv_def)

lemma process_datagram_inv:
  assumes "port_inv g" "\<not> sh_closed g" "process_datagram buf a g = Some g'"
  shows "port_inv g' \<and> \<not> sh_closed g'"
proof -
  obtain res fw c where p: "process_udp buf a (sh_firewall g) (sh_ctx g) = Some (res, fw, c)"
    using assms(3) by (auto simp: process_datagram_def bind_eq_Some_conv)
  have c: "ctx_inv c" using process_udp_inv [OF _ p] assms(1) by (simp add: port_inv_def)
  from assms p c show ?thesis
    by (auto simp: process_datagram_def port_inv_def Let_def handle_ops_inv split: process_udp_result.splits if_splits)
qed

lemma shared_close_inv: "port_inv g \<Longrightarrow> port_inv (shared_close g)"
  by (simp add: shared_close_def port_inv_def Let_def destroy_all_inv ctx_inv_send_to destroy_all_sockets)

lemma port_timers_inv:
  "port_inv g \<Longrightarrow> port_inv (g\<lparr>sh_ctx := ctx_check_timeouts (sh_ctx g)\<rparr>)"
  "port_inv g \<Longrightarrow> port_inv (g\<lparr>sh_ctx := ctx_check_timeouts (issue_deferred_acks (sh_ctx g))\<rparr>)"
  by (simp_all add: port_inv_def ctx_check_timeouts_inv issue_deferred_acks_inv
      ctx_check_timeouts_empty issue_deferred_acks_empty)

lemma reader_turn_inv:
  assumes "port_inv g" "reader_turn r n g = Some x"
  shows "case x of Continue n' g' \<Rightarrow> port_inv g' | Stop g' \<Rightarrow> port_inv g'"
  using assms process_datagram_inv [OF assms(1)] port_timers_inv shared_close_inv
  by (auto simp: reader_turn_def split: recv_result.splits if_splits)

lemma close_locked_inv:
  assumes "port_inv g"
  shows "port_inv (close_locked h g)"
proof -
  have "ctx_inv (ctx_close k (ctx_cell u f (sh_ctx g)))" for k u f
    using assms handle_ops_inv(3) by (simp add: port_inv_def)
  then show ?thesis
    using assms unfolding close_locked_def Let_def
    by (intro port_inv_ctx) (simp_all add: port_inv_def ctx_close_def)
qed

lemma ctx_read_drained_empty: "sockets c = [] \<Longrightarrow> ctx_read_drained k c = c"
  by (simp add: ctx_read_drained_def)

lemma recv_poll_inv: "port_inv g \<Longrightarrow> port_inv (snd (recv_poll n d now h g))"
  by (auto simp: recv_poll_def Let_def port_inv_def handle_ops_inv issue_deferred_acks_inv
      ctx_read_drained_empty issue_deferred_acks_empty split: option.split)

lemma ctx_write_empty: "sockets c = [] \<Longrightarrow> ctx_write k b c = (None, c)"
  by (simp add: ctx_write_def)

lemma send_poll_inv:
  assumes "port_inv g"
  shows "port_inv (snd (send_poll buf d now h g))"
proof -
  obtain r c where w: "ctx_write (conn_key h) buf (sh_ctx g) = (r, c)" by fastforce
  have "ctx_inv c" using handle_ops_inv(1) [of "sh_ctx g" "conn_key h" buf] assms w by (simp add: port_inv_def)
  then have "port_inv (g\<lparr>sh_ctx := c\<rparr>)"
    using assms w by (intro port_inv_ctx) (auto simp: ctx_write_empty)
  with assms w show ?thesis
    by (auto simp: send_poll_def Let_def split: option.split)
qed

lemma sys_step_inv: "sys_step g g' \<Longrightarrow> port_inv g \<Longrightarrow> port_inv g'"
proof (induction rule: sys_step.induct)
  case (step_reader r n g n' g') then show ?case using reader_turn_inv by fastforce
next
  case (step_reader_stop r n g g') then show ?case using reader_turn_inv by fastforce
next
  case (step_accept g) then show ?case by (auto simp: accept_poll_def port_inv_def split: list.split)
next
  case (step_recv_from g n) then show ?case by (auto simp: recv_from_poll_def port_inv_def split: list.split)
next
  case (step_connect a g r g')
  then show ?case using ctx_connect_inv [of "sh_ctx g" a]
    by (auto simp: connect_start_def port_inv_def split: if_splits option.splits)
next
  case (step_connect_poll g d now h)
  then show ?case using close_locked_inv [of g h] by (auto simp: connect_poll_def Let_def split: option.split)
next
  case (step_recv g n d now h) then show ?case by (rule recv_poll_inv)
next
  case (step_send g buf d now h) then show ?case by (rule send_poll_inv)
next
  case (step_conn_close g h) then show ?case by (simp add: conn_close_def close_locked_inv)
next
  case (step_conn_drop g h) then show ?case by (simp add: conn_drop_def conn_close_def Let_def close_locked_inv)
next
  case (step_close g) then show ?case by (rule shared_close_inv)
next
  case (step_send_to g buf a) then show ?case
    by (auto simp: socket_send_to_def split_beta intro!: port_inv_ctx ctx_inv_send_to simp: port_inv_def)
next
  case (step_firewall g f) then show ?case by (simp add: set_firewall_callback_def port_inv_def)
next
  case (step_sndbuf n g g') then show ?case by (auto simp: set_send_buffer_size_def port_inv_def split: if_splits)
next
  case (step_rcvbuf n g g') then show ?case by (auto simp: set_recv_buffer_size_def port_inv_def split: if_splits)
next
  case (step_target g n) then show ?case by (simp add: set_target_delay_def port_inv_def)
next
  case (step_read_timeout g t h) then show ?case by (simp add: set_read_timeout_def port_inv_def)
next
  case (step_write_timeout g t h) then show ?case by (simp add: set_write_timeout_def port_inv_def)
qed

lemma sys_reachable_inv: "sys_reachable g \<Longrightarrow> port_inv g"
  by (induction rule: sys_reachable.induct) (auto intro: port_inv_start sys_step_inv)

section \<open>A port with a connection\<close>

lemma gen_seed_empty:
  assumes "sockets c = []"
  shows "gen_seed a c = Some (fst (ctx_rand c) AND 0xffff, snd (ctx_rand c))"
  using assms by (subst gen_seed.simps) (simp add: split_beta Let_def ctx_rand_def)

lemma ctx_connect_empty:
  assumes "sockets c = []"
  shows "\<exists>k u c' s. ctx_connect a c = Some ((k, u), c') \<and> map_of (sockets c') k = Some s"
proof -
  have "sockets (snd (alloc_cell a c)) = []" using assms by (simp add: alloc_cell_def)
  then show ?thesis
    by (simp add: ctx_connect_def initialize_socket_def gen_seed_empty split_beta Let_def reinsert_def socks.look_ins)
qed

lemma reachable_with_connection:
  "\<exists>g k s. sys_reachable g \<and> map_of (sockets (sh_ctx g)) k = Some s"
proof -
  let ?g = "with_transport \<lparr>clk_elapsed = (\<lambda>_. 0), clk_reads = 0\<rparr> (Rng 0)
    \<lparr>tr_send_result = (\<lambda>_. None), tr_sent = []\<rparr> (SocketAddrV4 0 0)"
  have "sockets (sh_ctx ?g) = []" "\<not> sh_closed ?g" by (simp_all add: with_transport_def Context_new_def)
  then obtain k u c s where c: "ctx_connect (SocketAddrV4 1 2) (sh_ctx ?g) = Some ((k, u), c)" "map_of (sockets c) k = Some s"
    using ctx_connect_empty by blast
  then have "sys_step ?g (?g\<lparr>sh_ctx := c\<rparr>)"
    using \<open>\<not> sh_closed ?g\<close> by (intro step_connect [of "SocketAddrV4 1 2" _ "Inr \<lparr>conn_key = k, conn_user = u\<rparr>"]) (simp add: connect_start_def)
  then have "sys_reachable (?g\<lparr>sh_ctx := c\<rparr>)" by (rule reach_step [OF reach_start])
  with c(2) show ?thesis by (intro exI [of _ "?g\<lparr>sh_ctx := c\<rparr>"]) auto
qed

lemma closed_sticky: "sys_step g g' \<Longrightarrow> sh_closed g \<Longrightarrow> sh_closed g'"
proof (induction rule: sys_step.induct)
  case (step_reader r n g n' g') then show ?case by (auto simp: reader_turn_def split: recv_result.splits)
next
  case (step_reader_stop r n g g') then show ?case by (auto simp: reader_turn_def split: recv_result.splits)
qed (auto simp: api_defs Let_def split_beta split: list.splits option.splits if_splits)

section \<open>Reading leaves the buffer to the reader\<close>

lemma quiet_read_drained: "quiet e (read_drained e)"
  using quiet_trans [OF quiet_set_current_ms quiet_schedule_ack, of e] by (simp add: read_drained_def Let_def)

lemma quiet_read_buf: "quiet e e' \<Longrightarrow> read_buf (cells (cx e') u) = read_buf (cells (cx e) u)"
  by (simp add: quiet_def quiet_ctx_def)

lemma read_buf_read_drained: "read_buf (cells (ctx_read_drained k c) u) = read_buf (cells c u)"
  using quiet_read_buf [OF quiet_read_drained]
  by (simp add: ctx_read_drained_def with_sock_def reinsert_def detach_def split: option.split)

lemma read_buf_deferred_acks: "read_buf (cells (issue_deferred_acks c) u) = read_buf (cells c u)"
proof -
  have "read_buf (cells (ack_one k c) u) = read_buf (cells c u)" for k c
    using quiet_read_buf [OF quiet_send_ack] by (simp add: ack_one_def reinsert_def detach_def split: option.split)
  then have "read_buf (cells (fold ack_one ks c) u) = read_buf (cells c u)" for ks c
    by (induction ks arbitrary: c) simp_all
  then show ?thesis by (simp add: issue_deferred_acks_def)
qed

section \<open>Properties\<close>

text \<open>C3. At every moment of every execution, each connection accounts exactly for what it has in flight:
  \<open>cur_window\<close> is the number of payload bytes in its ring that were sent and neither acknowledged nor
  given up for lost, at most 1024 packets are outstanding (1023 before the FIN), and no slot outside
  the window is occupied. (The byte count is exact until $2^{32}$ datagrams have been sent.)\<close>

theorem bytes_in_flight_exact:
  assumes "sys_reachable g" and "map_of (sockets (sh_ctx g)) k = Some s"
  shows "unat (cur_window_packets s) \<le> 1023 + of_bool (fin_sent s)
    \<and> (\<forall>j. unat (cur_window_packets s) \<le> j \<and> j < cb_size (outbuf s) \<longrightarrow>
         cb_get (outbuf s) (unat (seq_nr s - cur_window_packets s) + j) = None)
    \<and> (sent_count (sh_ctx g) < 2 ^ 32 \<longrightarrow>
         cur_window s = (\<Sum>i<cb_size (outbuf s). inflight (cb_get (outbuf s) i)))"
proof -
  have "flight_inv (sent_count (sh_ctx g)) s"
    using sys_reachable_inv [OF assms(1)] assms(2) by (simp add: port_inv_def ctx_inv_def sock_ok_def)
  then show ?thesis by (simp add: flight_inv_def window_inv_def accounted_def ring_total_def)
qed

theorem bytes_in_flight_exact_witness:
  "\<exists>g k s. sys_reachable g \<and> map_of (sockets (sh_ctx g)) k = Some s \<and> unat (cur_window_packets s) \<le> 1023 + of_bool (fin_sent s)"
proof -
  obtain g k s where r: "sys_reachable g" "map_of (sockets (sh_ctx g)) k = Some s"
    using reachable_with_connection by blast
  from bytes_in_flight_exact [OF this] r show ?thesis by blast
qed

text \<open>C6. At every moment of every execution the congestion window of each connection is at least ten
  bytes and at most the send buffer (or one packet, if that is more), and the packet size in use
  stays between the protocol's minimum and the MTU of the address family.\<close>

theorem congestion_window_bounded:
  assumes "sys_reachable g" and "map_of (sockets (sh_ctx g)) k = Some s"
  shows "10 \<le> max_window s \<and> max_window s \<le> max (opt_sndbuf s) 1382
    \<and> 576 \<le> unat (mtu_floor s) \<and> mtu_floor s \<le> mtu_last s \<and> mtu_last s \<le> mtu_ceiling s
    \<and> mtu_ceiling s \<le> get_udp_mtu s \<and> 556 \<le> get_packet_size s \<and> get_packet_size s \<le> 1382"
proof -
  have "cwnd_inv s"
    using sys_reachable_inv [OF assms(1)] assms(2) by (simp add: port_inv_def ctx_inv_def sock_ok_def)
  then show ?thesis
    using mtu_inv_packet_size [of s] by (simp add: cwnd_inv_def mtu_inv_def MIN_WINDOW_SIZE_def)
qed

theorem congestion_window_bounded_witness:
  "\<exists>g k s. sys_reachable g \<and> map_of (sockets (sh_ctx g)) k = Some s \<and> 10 \<le> max_window s \<and> max_window s \<le> max (opt_sndbuf s) 1382"
proof -
  obtain g k s where r: "sys_reachable g" "map_of (sockets (sh_ctx g)) k = Some s"
    using reachable_with_connection by blast
  from congestion_window_bounded [OF this] r show ?thesis by blast
qed

text \<open>C11. The table of connections stays consistent: no key occurs twice, every connection is filed under
  its own key, the key is the identifier the peer's packets carry, and the cell that its handle
  reads was allocated by this port.\<close>

theorem connection_table_consistent:
  assumes "sys_reachable g"
  shows "distinct (map fst (sockets (sh_ctx g)))
    \<and> (\<forall>k s. map_of (sockets (sh_ctx g)) k = Some s \<longrightarrow>
         sock_key s = k \<and> conn_id_recv s = key_recv_id k \<and> sock_user s < next_cell (sh_ctx g))"
  using sys_reachable_inv [OF assms] by (auto simp: port_inv_def ctx_inv_def sock_ok_def)

theorem connection_table_consistent_witness:
  "\<exists>g k s. sys_reachable g \<and> map_of (sockets (sh_ctx g)) k = Some s \<and> sock_key s = k"
proof -
  obtain g k s where r: "sys_reachable g" "map_of (sockets (sh_ctx g)) k = Some s"
    using reachable_with_connection by blast
  from connection_table_consistent [OF r(1)] r show ?thesis by blast
qed

text \<open>C27. What a remote party can make the port remember is bounded: at most five connections wait to be
  accepted, at most a hundred foreign datagrams wait to be read, and at most 1001 streams are
  remembered as answered with a reset.\<close>

theorem remote_memory_bounded:
  assumes "sys_reachable g"
  shows "length (sh_backlog g) \<le> 5 \<and> length (sh_non_utp g) \<le> 100 \<and> length (rst_infos (sh_ctx g)) \<le> 1001"
  using sys_reachable_inv [OF assms]
  by (simp add: port_inv_def ctx_inv_def BACKLOG_def NON_UTP_BACKLOG_def RST_INFO_LIMIT_def)

theorem remote_memory_bounded_witness:
  "\<exists>g. sys_reachable g \<and> length (sh_backlog g) \<le> 5"
  using reachable_with_connection remote_memory_bounded by blast

text \<open>C16. Closing a port is final: once it is closed it has no connections, nothing waits to be accepted or
  read, and this stays so under everything that any thread does afterwards.\<close>

theorem closed_port_stays_empty:
  assumes "sys_reachable g" and "sh_closed g"
  shows "sockets (sh_ctx g) = [] \<and> sh_backlog g = [] \<and> sh_non_utp g = []
    \<and> (\<forall>g'. sys_step g g' \<longrightarrow> sh_closed g' \<and> sockets (sh_ctx g') = [])"
proof -
  have "sh_closed g' \<and> sockets (sh_ctx g') = []" if "sys_step g g'" for g'
    using closed_sticky [OF that assms(2)] sys_reachable_inv [OF reach_step [OF assms(1) that]]
    by (simp add: port_inv_def)
  then show ?thesis using sys_reachable_inv [OF assms(1)] assms(2) by (simp add: port_inv_def)
qed

theorem closed_port_stays_empty_witness:
  "\<exists>g. sys_reachable g \<and> sh_closed g \<and> sockets (sh_ctx g) = []"
proof -
  obtain g where "sys_reachable g" using reachable_with_connection by blast
  then have r: "sys_reachable (shared_close g)" by (rule reach_step [OF _ step_close])
  moreover have "sh_closed (shared_close g)" by (simp add: shared_close_def Let_def)
  ultimately show ?thesis using closed_port_stays_empty [OF r] by blast
qed

text \<open>C29. Reading is first in, first out and loses nothing: when data waits, a read of a non-empty buffer returns at
  once with the oldest bytes, as many as fit, and leaves the rest in order; this holds even after an
  error, the end of the stream or the destruction of the connection.\<close>

theorem recv_first_in_first_out:
  assumes "n > 0" and "read_buf (conn_cell_of h g) \<noteq> []"
  shows "\<exists>d g'. recv_poll n deadline now h g = (Ready (Inr d), g') \<and> d \<noteq> [] \<and> length d \<le> n
    \<and> d @ read_buf (conn_cell_of h g') = read_buf (conn_cell_of h g)"
proof -
  let ?c = "ctx_cell (conn_user h) (\<lambda>x. x\<lparr>read_buf := drop n (read_buf x)\<rparr>) (sh_ctx g)"
  let ?c2 = "if drop n (read_buf (conn_cell_of h g)) = [] \<and> \<not> destroyed (conn_cell_of h g)
    then issue_deferred_acks (ctx_read_drained (conn_key h) ?c) else ?c"
  have run: "recv_poll n deadline now h g = (Ready (Inr (take n (read_buf (conn_cell_of h g)))), g\<lparr>sh_ctx := ?c2\<rparr>)"
    using assms by (simp add: recv_poll_def Let_def)
  have "read_buf (cells ?c2 (conn_user h)) = drop n (read_buf (conn_cell_of h g))"
    by (simp add: read_buf_deferred_acks read_buf_read_drained conn_cell_of_def ctx_cell_def)
  then have "read_buf (conn_cell_of h (g\<lparr>sh_ctx := ?c2\<rparr>)) = drop n (read_buf (conn_cell_of h g))"
    by (simp add: conn_cell_of_def)
  then show ?thesis using run assms by (intro exI [of _ "take n (read_buf (conn_cell_of h g))"] exI [of _ "g\<lparr>sh_ctx := ?c2\<rparr>"]) simp
qed

text \<open>A port on which a connection holds two unread bytes.\<close>

definition unread_port :: shared where
  "unread_port = (with_transport \<lparr>clk_elapsed = (\<lambda>_. 0), clk_reads = 0\<rparr> (Rng 0)
      \<lparr>tr_send_result = (\<lambda>_. None), tr_sent = []\<rparr> (SocketAddrV4 0 0))
    \<lparr>sh_ctx := quiet_port\<lparr>cells := (\<lambda>_. (ConnShared_new (SocketAddrV4 1 2))\<lparr>read_buf := [7, 8]\<rparr>)\<rparr>\<rparr>"

theorem recv_first_in_first_out_witness:
  "\<exists>d g'. recv_poll 1 None 0 \<lparr>conn_key = \<lparr>key_addr = SocketAddrV4 1 2, key_recv_id = 0\<rparr>, conn_user = 0\<rparr> unread_port = (Ready (Inr d), g')
    \<and> d \<noteq> [] \<and> d @ read_buf (cells (sh_ctx g') 0) = [7, 8]"
  using recv_first_in_first_out [of 1 "\<lparr>conn_key = \<lparr>key_addr = SocketAddrV4 1 2, key_recv_id = 0\<rparr>, conn_user = 0\<rparr>" unread_port None 0]
  by (auto simp: conn_cell_of_def unread_port_def)



text \<open>The reader thread tolerates transient failures of the transport but not a broken one: after 99 hard
  errors in a row it goes on, at the hundredth it closes the port and stops, so that blocked calls return.\<close>

theorem reader_stops_at_hundredth_error:
  assumes "\<not> sh_closed g" and "k \<noteq> WouldBlock" and "k \<noteq> TimedOut" and "k \<noteq> Interrupted" and "n < 100"
  shows "(\<exists>g'. reader_turn (RecvError k) n g = Some (if n = 99 then Stop g' else Continue (n + 1) g')
    \<and> (n = 99 \<longrightarrow> sh_closed g' \<and> sockets (sh_ctx g') = []))"
proof -
  have "unat n < 100" using assms(5) by (simp add: word_less_nat_alt)
  then have "n + 1 \<ge> 100 \<longleftrightarrow> n = 99"
    by (simp add: word_le_nat_alt unat_word_ariths word_unat_eq_iff) linarith
  then show ?thesis using assms
    by (auto simp: reader_turn_def shared_close_def Let_def destroy_all_sockets)
qed

theorem reader_stops_at_hundredth_error_witness:
  "\<exists>g'. reader_turn (RecvError ConnectionReset) 99 unread_port = Some (Stop g') \<and> sh_closed g'"
  using reader_stops_at_hundredth_error [of unread_port ConnectionReset 99]
  by (auto simp: unread_port_def with_transport_def)

end
