(* ===== verification/Port_Moves.thy ===== *)
theory Port_Moves
  imports System
begin

text \<open>
  What one critical section may do to the connections and cells of a port. By \<open>ctx_moves\<close> a connection
  stays in the table under its key, with its cell, until the cell says that it is destroyed; the
  flags of a cell only go up, and no flag changes, no data arrives in an empty buffer and no connection
  becomes writable without a notification. Every step of a port satisfies it.
\<close>

section \<open>What a step does to the connections it does not name\<close>

definition woken :: "cell_id \<Rightarrow> utp_context \<Rightarrow> utp_context \<Rightarrow> bool" where
  "woken u c c' \<longleftrightarrow> notified (cells c u) < notified (cells c' u)"

definition sock_moves :: "utp_context \<Rightarrow> key \<Rightarrow> utp_sock \<Rightarrow> utp_context \<Rightarrow> bool" where
  "sock_moves c k s c' \<longleftrightarrow> destroyed (cells c' (sock_user s))
     \<or> (\<exists>s'. map_of (sockets c') k = Some s' \<and> sock_user s' = sock_user s \<and> (fin_sent s \<longrightarrow> fin_sent s')
          \<and> (sock_state s' = Connected \<longrightarrow> sock_state s = Connected \<or> woken (sock_user s) c c'))"

definition ctx_moves :: "utp_context \<Rightarrow> utp_context \<Rightarrow> bool" where
  "ctx_moves c c' \<longleftrightarrow> next_cell c \<le> next_cell c' \<and> (\<forall>u<next_cell c. signalled (cells c u) (cells c' u))
     \<and> (\<forall>k s. map_of (sockets c) k = Some s \<longrightarrow> sock_moves c k s c')"

lemma ctx_inv_user: "ctx_inv c \<Longrightarrow> map_of (sockets c) k = Some s \<Longrightarrow> sock_user s < next_cell c"
  by (simp add: ctx_inv_def sock_ok_def)

lemma ctx_moves_same:
  "sockets c' = sockets c \<Longrightarrow> next_cell c \<le> next_cell c' \<Longrightarrow> (\<And>u. u < next_cell c \<Longrightarrow> signalled (cells c u) (cells c' u)) \<Longrightarrow>
   ctx_moves c c'"
  by (auto simp: ctx_moves_def sock_moves_def)

lemma ctx_moves_refl [simp]: "ctx_moves c c"
  by (simp add: ctx_moves_same)

lemma ctx_moves_trans:
  assumes "ctx_inv c" "ctx_moves c c'" "ctx_moves c' c''"
  shows "ctx_moves c c''"
proof -
  have n: "next_cell c \<le> next_cell c'" "next_cell c' \<le> next_cell c''" using assms(2,3) by (simp_all add: ctx_moves_def)
  have sg: "signalled (cells c u) (cells c' u)" "signalled (cells c' u) (cells c'' u)" if "u < next_cell c" for u
    using assms(2,3) n that by (simp_all add: ctx_moves_def)
  have "sock_moves c k s c''" if k: "map_of (sockets c) k = Some s" for k s
  proof -
    let ?u = "sock_user s"
    have u: "?u < next_cell c" by (rule ctx_inv_user [OF assms(1) k])
    have le: "notified (cells c ?u) \<le> notified (cells c' ?u)" "notified (cells c' ?u) \<le> notified (cells c'' ?u)"
      using sg [OF u] by (simp_all add: signalled_def)
    have "sock_moves c k s c'" using assms(2) k by (simp add: ctx_moves_def)
    then consider "destroyed (cells c' ?u)"
      | s' where "map_of (sockets c') k = Some s'" "sock_user s' = ?u" "fin_sent s \<longrightarrow> fin_sent s'"
        "sock_state s' = Connected \<longrightarrow> sock_state s = Connected \<or> woken ?u c c'"
      unfolding sock_moves_def by blast
    then show ?thesis
    proof cases
      case 1
      then show ?thesis using signalled_destroyed [OF sg(2) [OF u]] by (simp add: sock_moves_def)
    next
      case (2 s')
      then have "sock_moves c' k s' c''" using assms(3) by (simp add: ctx_moves_def)
      then show ?thesis using 2 le unfolding sock_moves_def woken_def by fastforce
    qed
  qed
  then show ?thesis using n sg signalled_trans unfolding ctx_moves_def by (meson order_trans)
qed

lemma reinsert_frame [simp]: "next_cell (reinsert k e) = next_cell (cx e)" "cells (reinsert k e) = cells (cx e)"
  by (simp_all add: reinsert_def)

lemma put_back_moves:
  assumes k: "map_of (sockets c) k = Some s" and e: "kept (detach k s' c) e"
    and s': "sock_user s' = sock_user s" "fin_sent s' = fin_sent s" "sock_state s' = sock_state s"
  shows "ctx_moves c (reinsert k e)"
proof -
  have so: "sockets (cx e) = table_remove k (sockets c)" and nc: "next_cell (cx e) = next_cell c"
    and sg: "signalled (cells c u) (cells (cx e) u)" for u
    using e by (simp_all add: kept_def ctx_kept_def detach_def)
  have "sock_moves c k s (reinsert k e)"
    using e s' by (auto simp: sock_moves_def reinsert_def socks.look_ins kept_def opened_def woken_def detach_def)
  moreover have "sock_moves c k' t (reinsert k e)" if "k' \<noteq> k" "map_of (sockets c) k' = Some t" for k' t
    using that by (simp add: sock_moves_def reinsert_def so socks.look_ins socks.look_del)
  ultimately have "sock_moves c k' t (reinsert k e)" if "map_of (sockets c) k' = Some t" for k' t
    using that k by (cases "k' = k") auto
  then show ?thesis by (simp add: ctx_moves_def nc sg)
qed


lemma with_sock_moves:
  assumes "ctx_inv c" and "\<And>e. conn_inv e \<Longrightarrow> kept e (snd (f e))"
  shows "ctx_moves c (snd (with_sock k f c))"
proof (cases "map_of (sockets c) k")
  case (Some s)
  have "kept (detach k s c) (snd (f (detach k s c)))" by (rule assms(2) [OF detach_inv [OF assms(1) Some]])
  from put_back_moves [OF Some this] Some show ?thesis by (simp add: with_sock_def split_beta)
qed (simp add: with_sock_def)

lemma handle_ops_moves:
  assumes "ctx_inv c"
  shows "ctx_moves c (snd (ctx_write k buf c))" "ctx_moves c (ctx_read_drained k c)" "ctx_moves c (ctx_close k c)"
  unfolding ctx_write_def ctx_read_drained_def ctx_close_def
  by (rule with_sock_moves [OF assms]; use sock_ops_kept in simp)+

lemma fold_moves:
  assumes "\<And>x c. ctx_inv c \<Longrightarrow> ctx_inv (f x c) \<and> ctx_moves c (f x c)" "ctx_inv c"
  shows "ctx_moves c (fold f xs c)"
  using assms(2)
proof (induction xs arbitrary: c)
  case (Cons x xs)
  have "ctx_inv (f x c)" "ctx_moves c (f x c)" using assms(1) [OF Cons.prems] by blast+
  from ctx_moves_trans [OF Cons.prems this(2) Cons.IH [OF this(1)]] show ?case by simp
qed simp

lemma ack_one_moves:
  assumes "ctx_inv c"
  shows "ctx_moves c (ack_one k c)"
proof (cases "map_of (sockets c) k")
  case (Some s)
  let ?s = "s\<lparr>in_ack_list := False\<rparr>"
  have "kept (detach k ?s c) (send_ack (detach k ?s c))" by (rule quiet_kept) simp
  then show ?thesis using put_back_moves [OF Some, of ?s] Some by (simp add: ack_one_def)
qed (simp add: ack_one_def)

lemma issue_deferred_acks_moves:
  assumes "ctx_inv c"
  shows "ctx_moves c (issue_deferred_acks c)"
proof (rule ctx_moves_trans [OF assms])
  show "ctx_moves c (c\<lparr>ack_list := []\<rparr>)" by (rule ctx_moves_same) simp_all
  show "ctx_moves (c\<lparr>ack_list := []\<rparr>) (issue_deferred_acks c)"
    unfolding issue_deferred_acks_def using assms by (intro fold_moves) (simp_all add: ack_one_inv ack_one_moves)
qed

text \<open>A connection leaves the table only together with the announcement in its cell.\<close>

lemma remove_moves:
  assumes k: "map_of (sockets c) k = Some s" and so: "sockets c' = table_remove k (sockets c)"
    and "next_cell c' = next_cell c" "\<And>u. signalled (cells c u) (cells c' u)" "destroyed (cells c' (sock_user s))"
  shows "ctx_moves c c'"
  using assms unfolding ctx_moves_def sock_moves_def by (auto simp: socks.look_del)

lemma destroy_sock_frame:
  "sockets (destroy_sock s c) = sockets c" "next_cell (destroy_sock s c) = next_cell c"
  "signalled (cells c u) (cells (destroy_sock s c) u)" "destroyed (cells (destroy_sock s c) (sock_user s))"
  by (simp_all add: destroy_sock_def ack_list_remove_def user_call_def ctx_cell_def) (simp add: callback_defs)

lemma timeout_one_moves:
  assumes "ctx_inv c"
  shows "ctx_moves c (timeout_one k c)"
proof (cases "map_of (sockets c) k")
  case (Some s)
  define e where "e = sock_check_timeouts (detach k s c)"
  have e: "kept (detach k s c) e" using sock_ops_kept(2) [OF detach_inv [OF assms Some]] by (simp add: e_def)
  then have f: "sockets (cx e) = table_remove k (sockets c)" "next_cell (cx e) = next_cell c" "sock_user (sk e) = sock_user s"
      "signalled (cells c u) (cells (cx e) u)" for u
    by (simp_all add: kept_def ctx_kept_def detach_def)
  then have "signalled (cells c u) (cells (destroy_sock (sk e) (cx e)) u)" for u
    using signalled_trans destroy_sock_frame(3) by blast
  then have "ctx_moves c (destroy_sock (sk e) (cx e))"
    by (intro remove_moves [OF Some]) (use destroy_sock_frame(4) [of "sk e" "cx e"] in \<open>simp_all add: destroy_sock_frame(1,2) f\<close>)
  then show ?thesis using put_back_moves [OF Some e] Some by (simp add: timeout_one_def e_def Let_def)
qed (simp add: timeout_one_def)

lemma ctx_check_timeouts_moves:
  assumes "ctx_inv c"
  shows "ctx_moves c (ctx_check_timeouts c)"
proof -
  obtain now c1 where t: "ctx_millis c = (now, c1)" by (cases "ctx_millis c")
  then have c1: "sockets c1 = sockets c" "next_cell c1 = next_cell c" "cells c1 = cells c"
    by (auto simp: ctx_millis_def split_beta)
  let ?c = "c1\<lparr>current_ms := now, last_check := now, rst_infos := rst_sweep now 0 (rst_infos c1)\<rparr>"
  have "ctx_inv (c1\<lparr>current_ms := now\<rparr>)" using assms ctx_inv_clock(1) [of c] t by simp
  then have "ctx_inv ?c"
    using rst_sweep_length [of now 0 "rst_infos c1"]
    by (rule_tac ctx_inv_mono [of "c1\<lparr>current_ms := now\<rparr>"]) (simp_all add: ctx_inv_def sent_count_def)
  then have "ctx_moves ?c (fold timeout_one (map fst (sockets c1)) ?c)"
    by (intro fold_moves) (simp_all add: timeout_one_inv timeout_one_moves)
  then have "ctx_moves c (fold timeout_one (map fst (sockets c1)) ?c)"
    by (rule ctx_moves_trans [OF assms ctx_moves_same, rotated -1]) (simp_all add: c1)
  moreover have "ctx_moves c (c1\<lparr>current_ms := now\<rparr>)" by (rule ctx_moves_same) (simp_all add: c1)
  ultimately show ?thesis by (simp add: ctx_check_timeouts_def t Let_def)
qed

lemma destroy_one_moves: "ctx_moves c (destroy_one k c)"
proof (cases "map_of (sockets c) k")
  case (Some s)
  let ?c = "c\<lparr>sockets := table_remove k (sockets c)\<rparr>"
  show ?thesis
    using remove_moves [OF Some, of "destroy_sock s ?c"] destroy_sock_frame [where s = s and c = ?c] Some
    by (simp add: destroy_one_def)
qed (simp add: destroy_one_def)

lemma destroy_all_moves:
  assumes "ctx_inv c"
  shows "ctx_moves c (destroy_all c)"
proof -
  have "ctx_moves c (fold destroy_one (map fst (sockets c)) c)"
    using assms by (intro fold_moves) (simp_all add: destroy_one_inv destroy_one_moves)
  then show ?thesis by (simp add: destroy_all_def ctx_moves_def sock_moves_def woken_def)
qed

lemma handle_reset_moves:
  assumes "ctx_inv c"
  shows "ctx_moves c (handle_reset a i c)"
proof -
  have "kept e (snd (reset_sock e))" for e
  proof -
    let ?e = "e\<lparr>sk := (sk e)\<lparr>sock_state := (if close_requested (sk e) then Destroy else Reset)\<rparr>\<rparr>"
    have "quiet e (user_call (on_error ConnectionReset) ?e)"
      by (rule quiet_trans [OF quiet_core quiet_callbacks(4)]) (simp_all add: core_defs)
    then show ?thesis using quiet_kept by (simp add: reset_sock_def)
  qed
  then have "ctx_moves c (snd (with_sock k reset_sock c))" for k by (rule with_sock_moves [OF assms])
  then show ?thesis by (simp add: handle_reset_def split: option.split)
qed

lemma reject_unknown_moves: "ctx_moves c (reject_unknown a i sq c)"
  by (rule ctx_moves_same)
    (simp_all add: reject_unknown_def Let_def split_beta send_rst_def send_to_addr_def ctx_rand_def ctx_millis_def split: option.split)

lemma handle_packet_moves:
  assumes "ctx_inv c" "map_of (sockets c) k = Some s" "handle_packet buf k s c = Some c'"
  shows "ctx_moves c c'"
proof -
  obtain n e where run: "process_incoming buf False (detach k s c) = Some (n, e)" and c': "c' = reinsert k e"
    using assms(3) by (auto simp: handle_packet_def bind_eq_Some_conv)
  from sock_ops_kept(6) [OF detach_inv [OF assms(1,2)] run] show ?thesis
    unfolding c' using put_back_moves [OF assms(2)] by blast
qed


lemma insert_moves:
  assumes "map_of (sockets c) k = None" "map_of (sockets c') = (map_of (sockets c))(k \<mapsto> s)"
    and "ctx_kept (snd (alloc_cell a c)) (c'\<lparr>sockets := sockets c\<rparr>)"
  shows "ctx_moves c c'"
  using assms(1,2) alloc_cell_kept [OF assms(3)] by (auto simp: ctx_moves_def sock_moves_def)

lemma ctx_connect_moves: "ctx_connect a c = Some ((k, u), c') \<Longrightarrow> ctx_moves c c'"
  using ctx_connect_spec insert_moves by metis

lemma process_udp_moves:
  assumes "ctx_inv c" "process_udp buf a fw c = Some (r, fw', c')"
  shows "ctx_moves c c'"
  using assms(2)
proof (cases rule: process_udp_cases)
  case (accept i sq)
  then show ?thesis using accept_syn_spec [OF accept(2), of a i sq c] insert_moves by (metis option.inject prod.inject)
qed (use assms(1) in \<open>auto intro: handle_reset_moves reject_unknown_moves handle_packet_moves\<close>)

lemma process_udp_accepted:
  assumes "process_udp buf a fw c = Some (Accepted k u, fw', c')"
  shows "u = next_cell c \<and> u < next_cell c' \<and> (\<exists>s. map_of (sockets c') k = Some s \<and> sock_user s = u)"
  using assms
proof (cases rule: process_udp_cases)
  case (accept i sq)
  then obtain s where s: "Accepted k u = Accepted \<lparr>key_addr = a, key_recv_id = i + 1\<rparr> (next_cell c)"
      "map_of (sockets c') = (map_of (sockets c))(\<lparr>key_addr = a, key_recv_id = i + 1\<rparr> \<mapsto> s)" "sock_user s = next_cell c"
      "ctx_kept (snd (alloc_cell a c)) (c'\<lparr>sockets := sockets c\<rparr>)"
    using accept_syn_spec [OF accept(2), of a i sq c] by auto
  then show ?thesis using alloc_cell_kept(1) [OF s(4)] by auto
qed simp_all

section \<open>Every step of a port\<close>

lemma cell_moves: "(\<And>x. signalled x (f x)) \<Longrightarrow> ctx_moves c (ctx_cell u f c)"
  by (rule ctx_moves_same) (simp_all add: ctx_cell_def)

lemma new_cell_moves:
  assumes "ctx_inv c" "ctx_moves c c'" "next_cell c \<le> u"
  shows "ctx_moves c (ctx_cell u f c')"
proof -
  have cell: "cells (ctx_cell u f c') v = cells c' v" if "v < next_cell c" for v
    using that assms(3) by (simp add: ctx_cell_def)
  have "sock_moves c k s (ctx_cell u f c')" if "map_of (sockets c) k = Some s" for k s
    using assms(2) that cell [OF ctx_inv_user [OF assms(1) that]] by (simp add: ctx_moves_def sock_moves_def woken_def)
  then show ?thesis using assms(2) cell by (simp add: ctx_moves_def) (simp add: ctx_cell_def)
qed

text \<open>The flag of a closed connection is raised first and announced last.\<close>

lemma close_moves:
  assumes "ctx_inv c" "ctx_moves (ctx_cell u (\<lambda>x. x\<lparr>cell_closed := True\<rparr>) c) c2"
  shows "ctx_moves c (ctx_cell u notify_all c2)"
proof -
  let ?c1 = "ctx_cell u (\<lambda>x. x\<lparr>cell_closed := True\<rparr>) c"
  have n: "next_cell c \<le> next_cell c2" using assms(2) by (simp add: ctx_moves_def ctx_cell_def)
  have sg: "signalled (cells ?c1 v) (cells c2 v)" if "v < next_cell c" for v
    using assms(2) that by (simp add: ctx_moves_def ctx_cell_def)
  have "signalled (cells c v) (cells (ctx_cell u notify_all c2) v)" if "v < next_cell c" for v
    using sg [OF that] by (cases "v = u") (auto simp: ctx_cell_def signalled_def notify_all_def)
  moreover have "sock_moves c k s (ctx_cell u notify_all c2)" if k: "map_of (sockets c) k = Some s" for k s
  proof -
    have "sock_moves ?c1 k s c2" using assms(2) k by (simp add: ctx_moves_def)
    then show ?thesis by (auto simp: sock_moves_def woken_def ctx_cell_def notify_all_def split: if_splits)
  qed
  ultimately show ?thesis using n by (simp add: ctx_moves_def) (simp add: ctx_cell_def)
qed

lemma close_locked_moves:
  assumes "ctx_inv (sh_ctx g)"
  shows "ctx_moves (sh_ctx g) (sh_ctx (close_locked h g))"
proof -
  let ?c1 = "ctx_cell (conn_user h) (\<lambda>x. x\<lparr>cell_closed := True\<rparr>) (sh_ctx g)"
  have "ctx_moves ?c1 (ctx_close (conn_key h) ?c1)" using assms by (intro handle_ops_moves) simp
  then show ?thesis using close_moves [OF assms] by (simp add: close_locked_def Let_def)
qed

lemma shared_close_moves:
  assumes "ctx_inv (sh_ctx g)"
  shows "ctx_moves (sh_ctx g) (sh_ctx (shared_close g))"
proof -
  have "ctx_moves (destroy_all (sh_ctx g)) (snd (send_to_addr b a (destroy_all (sh_ctx g))))" for a b
    by (rule ctx_moves_same) (simp_all add: send_to_addr_def split_beta)
  from ctx_moves_trans [OF assms destroy_all_moves [OF assms] this] show ?thesis
    by (simp add: shared_close_def Let_def)
qed

lemma process_datagram_moves:
  assumes "ctx_inv (sh_ctx g)" "process_datagram buf a g = Some g'"
  shows "ctx_moves (sh_ctx g) (sh_ctx g')"
proof -
  obtain res fw c where p: "process_udp buf a (sh_firewall g) (sh_ctx g) = Some (res, fw, c)"
    using assms(2) by (auto simp: process_datagram_def bind_eq_Some_conv)
  have m: "ctx_moves (sh_ctx g) c" by (rule process_udp_moves [OF assms(1) p])
  have "ctx_moves (sh_ctx g) (ctx_close k (ctx_cell u (\<lambda>x. x\<lparr>cell_closed := True\<rparr>) c))" if "res = Accepted k u" for k u
  proof -
    let ?c1 = "ctx_cell u (\<lambda>x. x\<lparr>cell_closed := True\<rparr>) c"
    have "u = next_cell (sh_ctx g)" using process_udp_accepted p that by blast
    then have "ctx_moves (sh_ctx g) ?c1"
      using new_cell_moves [OF assms(1) m] by simp
    moreover have "ctx_moves ?c1 (ctx_close k ?c1)"
      by (rule handle_ops_moves) (simp add: process_udp_inv [OF assms(1) p])
    ultimately show ?thesis by (rule ctx_moves_trans [OF assms(1)])
  qed
  with m p assms(2) show ?thesis
    by (auto simp: process_datagram_def Let_def split: process_udp_result.splits if_splits)
qed


lemma timers_moves:
  assumes "ctx_inv c"
  shows "ctx_moves c (ctx_check_timeouts (issue_deferred_acks c))"
  by (rule ctx_moves_trans [OF assms issue_deferred_acks_moves [OF assms] ctx_check_timeouts_moves
        [OF issue_deferred_acks_inv [OF assms]]])

lemma reader_turn_moves:
  assumes "port_inv g" "reader_turn r n g = Some x"
  shows "case x of Continue n' g' \<Rightarrow> ctx_moves (sh_ctx g) (sh_ctx g') | Stop g' \<Rightarrow> ctx_moves (sh_ctx g) (sh_ctx g')"
proof -
  have inv: "ctx_inv (sh_ctx g)" using assms(1) by (simp add: port_inv_def)
  have "ctx_moves (sh_ctx g) (ctx_check_timeouts (issue_deferred_acks (sh_ctx g1)))"
    if "process_datagram buf a g = Some g1" "\<not> sh_closed g" for buf a g1
  proof (rule ctx_moves_trans [OF inv process_datagram_moves [OF inv that(1)]])
    show "ctx_moves (sh_ctx g1) (ctx_check_timeouts (issue_deferred_acks (sh_ctx g1)))"
      using process_datagram_inv [OF assms(1) that(2,1)] by (intro timers_moves) (simp add: port_inv_def)
  qed
  with assms(2) ctx_check_timeouts_moves [OF inv] shared_close_moves [OF inv] show ?thesis
    by (auto simp: reader_turn_def split: recv_result.splits if_splits)
qed

lemma recv_poll_moves:
  assumes "ctx_inv (sh_ctx g)"
  shows "ctx_moves (sh_ctx g) (sh_ctx (snd (recv_poll n d now h g)))"
proof -
  let ?c = "ctx_cell (conn_user h) (\<lambda>x. x\<lparr>read_buf := drop n (read_buf x)\<rparr>) (sh_ctx g)"
  have m: "ctx_moves (sh_ctx g) ?c" by (rule cell_moves) (simp add: signalled_def cell_flags_def)
  have inv: "ctx_inv ?c" "ctx_inv (ctx_read_drained (conn_key h) ?c)" using assms handle_ops_inv(2) by simp_all
  have "ctx_moves ?c (issue_deferred_acks (ctx_read_drained (conn_key h) ?c))"
    by (rule ctx_moves_trans [OF inv(1) handle_ops_moves(2) [OF inv(1)] issue_deferred_acks_moves [OF inv(2)]])
  with m ctx_moves_trans [OF assms m] show ?thesis
    by (auto simp: recv_poll_def Let_def split: option.split)
qed

lemma send_poll_ctx:
  "sh_ctx (snd (send_poll buf d now h g)) = sh_ctx g \<or> sh_ctx (snd (send_poll buf d now h g)) = snd (ctx_write (conn_key h) buf (sh_ctx g))"
  by (auto simp: send_poll_def Let_def split_beta split: option.split)

lemma same_ctx_moves: "sh_ctx g' = sh_ctx g \<Longrightarrow> ctx_moves (sh_ctx g) (sh_ctx g')"
  by simp

lemma sys_step_moves: "sys_step g g' \<Longrightarrow> port_inv g \<Longrightarrow> ctx_moves (sh_ctx g) (sh_ctx g')"
proof (induction rule: sys_step.induct)
  case (step_reader r n g n' g') then show ?case using reader_turn_moves by fastforce
next
  case (step_reader_stop r n g g') then show ?case using reader_turn_moves by fastforce
next
  case (step_accept g) then show ?case by (intro same_ctx_moves) (simp add: accept_poll_def split: list.split)
next
  case (step_recv_from g n) then show ?case by (intro same_ctx_moves) (simp add: recv_from_poll_def split: list.split)
next
  case (step_connect a g r g')
  then show ?case using ctx_connect_moves [of a "sh_ctx g"]
    by (auto simp: connect_start_def split: if_splits option.splits)
next
  case (step_connect_poll g d now h)
  then show ?case using close_locked_moves [of g h]
    by (auto simp: connect_poll_def Let_def port_inv_def split: option.split)
next
  case (step_recv g n d now h) then show ?case by (intro recv_poll_moves) (simp add: port_inv_def)
next
  case (step_send g buf d now h)
  then show ?case
    using send_poll_ctx [of buf d now h g] handle_ops_moves(1) [of "sh_ctx g" "conn_key h" buf]
    by (auto simp: port_inv_def)
next
  case (step_conn_close g h) then show ?case by (simp add: conn_close_def close_locked_moves port_inv_def)
next
  case (step_conn_drop g h) then show ?case by (simp add: conn_drop_def conn_close_def Let_def close_locked_moves port_inv_def)
next
  case (step_close g) then show ?case by (intro shared_close_moves) (simp add: port_inv_def)
next
  case (step_send_to g buf a) then show ?case
    by (intro ctx_moves_same) (simp_all add: socket_send_to_def send_to_addr_def split_beta)
next
  case (step_firewall g f) then show ?case by (intro same_ctx_moves) (simp add: set_firewall_callback_def)
next
  case (step_sndbuf n g g') then show ?case
    by (intro ctx_moves_same) (auto simp: set_send_buffer_size_def split: if_splits)
next
  case (step_rcvbuf n g g') then show ?case
    by (intro ctx_moves_same) (auto simp: set_recv_buffer_size_def split: if_splits)
next
  case (step_target g n) then show ?case by (intro ctx_moves_same) (auto simp: set_target_delay_def)
next
  case (step_read_timeout g t h) then show ?case
    by (simp add: set_read_timeout_def cell_moves signalled_def cell_flags_def)
next
  case (step_write_timeout g t h) then show ?case
    by (simp add: set_write_timeout_def cell_moves signalled_def cell_flags_def)
qed

end
