(* ===== verification/Wakeup.thy ===== *)
theory Wakeup
  imports Port_Moves
begin

text \<open>
  The condition variables of the blocking calls. A thread that found its call blocked sleeps until the
  next \<^verbatim>\<open>notify_all\<close>, so whatever makes its call ready must notify. From the moves of a port it follows
  that a handle given out names its own connection until that is destroyed, that no wake-up of a
  blocking call is lost, and that closing the port ends them all.
\<close>

section \<open>A write that takes nothing\<close>

lemma write_engine_loop_ge: "st \<le> fst (write_engine_loop ps num st rem e)"
proof (induction ps num st rem e rule: write_engine_loop.induct)
  case (1 ps num st rem e)
  obtain b e1 where f: "eng_is_full (Some num) e = (b, e1)" by fastforce
  obtain r e2 where w: "write_outgoing_packet num ST_DATA rem e1 = (r, e2)" by fastforce
  show ?case
    using 1 [OF f [symmetric] refl _ w [symmetric] refl refl] f w by (subst write_engine_loop.simps) (auto simp: Let_def)
qed

lemma is_full_snd: "fst (is_full t w s) \<Longrightarrow> snd (is_full t w s) = s\<lparr>last_maxed_out_window := t\<rparr>"
  by (cases "OUTGOING_BUFFER_MAX_SIZE - 1 \<le> unat (cur_window_packets s)";
      cases "max_send s < cur_window s + (case w of None \<Rightarrow> get_packet_size s | Some b \<Rightarrow> min b (get_packet_size s))")
    (simp_all add: is_full_def Let_def)

lemma is_full_iff: "fst (is_full t w s) \<longleftrightarrow> unat (cur_window_packets s) \<ge> OUTGOING_BUFFER_MAX_SIZE - 1
      \<or> cur_window s + (case w of None \<Rightarrow> get_packet_size s | Some b \<Rightarrow> min b (get_packet_size s)) > max_send s" 
    by (simp add: is_full_def Let_def)

lemma is_full_none: "fst (is_full t (Some n) s) \<Longrightarrow> fst (is_full t' None (snd (is_full t (Some n) s)))"
proof -
  assume full: "fst (is_full t (Some n) s)"
  let ?s = "s\<lparr>last_maxed_out_window := t\<rparr>"
  have "get_packet_size ?s = get_packet_size s" "max_send ?s = max_send s" by (simp_all add: get_packet_size_def max_send_def)
  moreover have "max_send s < cur_window s + min n (get_packet_size s) \<Longrightarrow> max_send s < cur_window s + get_packet_size s" by simp
  ultimately show ?thesis using full unfolding is_full_snd [OF full] is_full_iff by auto
qed

lemma write_zero:
  assumes "conn_inv e" "buf \<noteq> []" "write_engine buf e = (0, e')"
  shows "cells (cx e') = cells (cx e)" "sock_state (sk e') \<noteq> Connected \<or> fin_sent (sk e')"
proof -
  let ?e1 = "set_current_ms e"
  let ?ps = "get_packet_size (sk ?e1)"
  let ?n = "min (length buf) ?ps"
  let ?full = "eng_is_full (Some ?n) ?e1"
  have "conn_inv ?e1" by (rule conn.quiet [OF assms(1) quiet_set_current_ms])
  then have "0 < ?n" using mtu_inv_packet_size [of "sk ?e1"] assms(2) by (auto simp: conn_inv_def cwnd_inv_def)
  have cl: "cells (cx ?e1) = cells (cx e)"
    by (simp add: set_current_ms_def eng_millis_def ctx_millis_def split_beta Let_def)
  have "cells (cx e') = cells (cx e) \<and> (sock_state (sk e') \<noteq> Connected \<or> fin_sent (sk e'))"
  proof (cases "sock_state (sk e) \<noteq> Connected \<or> fin_sent (sk e)")
    case True
    then show ?thesis using assms(3) by (auto simp: write_engine_def split: if_splits)
  next
    case False
    have st: "write_engine_loop ?ps ?n 0 buf ?e1 = (0, False, snd ?full) \<and> fst ?full"
      if "fst (write_engine_loop ?ps ?n 0 buf ?e1) = 0"
    proof (cases "fst ?full")
      case True
      then show ?thesis by (subst write_engine_loop.simps) (simp add: split_beta Let_def)
    next
      case no: False
      obtain r1 e2 where w: "write_outgoing_packet ?n ST_DATA buf (snd ?full) = (r1, e2)" by fastforce
      have "?n \<le> fst (write_engine_loop ?ps ?n 0 buf ?e1)"
        using no w write_engine_loop_ge [of "0 + ?n"]
        by (subst write_engine_loop.simps) (auto simp: split_beta Let_def)
      then show ?thesis using that \<open>0 < ?n\<close> by simp
    qed
    obtain n fin e2 where l: "write_engine_loop ?ps ?n 0 buf ?e1 = (n, fin, e2)" by (metis prod_cases3)
    then have "n = 0" using False assms(3) by (auto simp: write_engine_def Let_def split_beta split: if_splits)
    with st l have e2: "e2 = snd ?full" "\<not> fin" "fst ?full" by auto
    have f2: "fst (eng_is_full None e2)"
      using e2(3) is_full_none unfolding e2(1) by (simp add: eng_is_full_def split_beta)
    have "e' = (snd (eng_is_full None e2))\<lparr>sk := (sk (snd (eng_is_full None e2)))\<lparr>sock_state := ConnectedFull\<rparr>\<rparr>"
      using assms(3) False l e2(2) f2 by (simp add: write_engine_def Let_def split_beta)
    then show ?thesis using cl by (simp add: e2(1) eng_is_full_def split_beta)
  qed
  then show "cells (cx e') = cells (cx e)" "sock_state (sk e') \<noteq> Connected \<or> fin_sent (sk e')" by blast+
qed

section \<open>Handles\<close>

definition handle_ok :: "conn \<Rightarrow> utp_context \<Rightarrow> bool" where
  "handle_ok h c \<longleftrightarrow> conn_user h < next_cell c
     \<and> (destroyed (cells c (conn_user h))
        \<or> (\<exists>s. map_of (sockets c) (conn_key h) = Some s \<and> sock_user s = conn_user h))"

lemma handle_ok_moves:
  assumes "ctx_moves c c'" "handle_ok h c"
  shows "handle_ok h c'"
proof -
  have u: "conn_user h < next_cell c" using assms(2) by (simp add: handle_ok_def)
  then have "conn_user h < next_cell c'" "signalled (cells c (conn_user h)) (cells c' (conn_user h))"
    using assms(1) by (auto simp: ctx_moves_def)
  then show ?thesis
    using assms signalled_destroyed unfolding handle_ok_def ctx_moves_def sock_moves_def by metis
qed

inductive issued :: "conn \<Rightarrow> shared \<Rightarrow> bool" where
  issued_connect: "sys_reachable g \<Longrightarrow> connect_start a g = (Some (Inr h), g') \<Longrightarrow> issued h g'"
| issued_accept: "sys_reachable g \<Longrightarrow> accept_poll g = (Ready (Inr h), g') \<Longrightarrow> issued h g'"
| issued_step: "issued h g \<Longrightarrow> sys_step g g' \<Longrightarrow> issued h g'"

lemma issued_reachable: "issued h g \<Longrightarrow> sys_reachable g"
proof (induction rule: issued.induct)
  case (issued_connect g a h g') then show ?case using reach_step [OF _ step_connect] by blast
next
  case (issued_accept g h g')
  then have "g' = snd (accept_poll g)" by simp
  then show ?case using reach_step [OF issued_accept(1) step_accept] by simp
next
  case (issued_step h g g') then show ?case by (blast intro: reach_step)
qed

text \<open>The connections that wait to be accepted.\<close>

definition backlog_ok :: "shared \<Rightarrow> bool" where
  "backlog_ok g \<longleftrightarrow> (\<forall>(k, u) \<in> set (sh_backlog g). handle_ok \<lparr>conn_key = k, conn_user = u\<rparr> (sh_ctx g))"

lemma backlog_ok_shrinks:
  assumes "backlog_ok g" "ctx_moves (sh_ctx g) (sh_ctx g')" "set (sh_backlog g') \<subseteq> set (sh_backlog g)"
  shows "backlog_ok g'"
  using assms handle_ok_moves unfolding backlog_ok_def by fast

lemma process_datagram_backlog:
  assumes "port_inv g" "backlog_ok g" "process_datagram buf a g = Some g'"
  shows "backlog_ok g'"
proof -
  have inv: "ctx_inv (sh_ctx g)" using assms(1) by (simp add: port_inv_def)
  obtain res fw c where p: "process_udp buf a (sh_firewall g) (sh_ctx g) = Some (res, fw, c)"
    using assms(3) by (auto simp: process_datagram_def bind_eq_Some_conv)
  show ?thesis
  proof (cases "set (sh_backlog g') \<subseteq> set (sh_backlog g)")
    case True
    then show ?thesis by (rule backlog_ok_shrinks [OF assms(2) process_datagram_moves [OF inv assms(3)]])
  next
    case False
    with p assms(3) obtain k u where r: "res = Accepted k u" "sh_backlog g' = sh_backlog g @ [(k, u)]" "sh_ctx g' = c"
      by (auto simp: process_datagram_def Let_def split: process_udp_result.splits if_splits)
    have "handle_ok \<lparr>conn_key = k, conn_user = u\<rparr> c" using process_udp_accepted p r(1) by (auto simp: handle_ok_def)
    moreover have "backlog_ok (g\<lparr>sh_ctx := c\<rparr>)"
      by (rule backlog_ok_shrinks [OF assms(2)]) (use process_udp_moves [OF inv p] in simp_all)
    ultimately show ?thesis using r by (auto simp: backlog_ok_def)
  qed
qed

text \<open>Most critical sections leave the queues and condition variables of the port alone.\<close>

definition same_port :: "shared \<Rightarrow> shared \<Rightarrow> bool" where
  "same_port g g' \<longleftrightarrow> sh_backlog g' = sh_backlog g \<and> sh_non_utp g' = sh_non_utp g \<and> sh_closed g' = sh_closed g
     \<and> sh_accept_cond g' = sh_accept_cond g \<and> sh_non_utp_cond g' = sh_non_utp_cond g"

lemma same_port_ctx [simp]: "same_port g g" "same_port g (g\<lparr>sh_ctx := c\<rparr>)" "same_port g (g\<lparr>sh_firewall := f\<rparr>)"
  by (simp_all add: same_port_def)

lemma same_port_close [simp]: "same_port g (close_locked h g)"
  by (simp add: close_locked_def Let_def)

lemma same_port_polls [simp]:
  "same_port g (snd (recv_poll n d now h g))" "same_port g (snd (send_poll buf d now h g))"
  "same_port g (snd (connect_poll d now h g))"
  by (simp_all add: recv_poll_def send_poll_def connect_poll_def Let_def split_beta split: option.split)

lemma same_port_connect: "connect_start a g = (r, g') \<Longrightarrow> same_port g g'"
  by (auto simp: connect_start_def split: if_splits option.splits)

lemma sys_step_port:
  assumes "sys_step g g'"
  obtains (same) "same_port g g'" | (accept) "g' = snd (accept_poll g)" | (recv_from) n where "g' = snd (recv_from_poll n g)"
  | (close) "g' = shared_close g"
  | (datagram) buf a g1 where "\<not> sh_closed g" "process_datagram buf a g = Some g1"
      "g' = g1\<lparr>sh_ctx := ctx_check_timeouts (issue_deferred_acks (sh_ctx g1))\<rparr>"
  using assms
proof (cases rule: sys_step.cases)
  case (step_reader r n n')
  then show ?thesis using same datagram by (auto simp: reader_turn_def split: recv_result.splits if_splits)
next
  case (step_reader_stop r n)
  then show ?thesis using same close by (auto simp: reader_turn_def split: recv_result.splits if_splits)
next
  case (step_connect a r) then show ?thesis using same same_port_connect by blast
next
  case (step_conn_drop h) then show ?thesis using same by (simp add: conn_drop_def conn_close_def Let_def)
next
  case (step_conn_close h) then show ?thesis using same by (simp add: conn_close_def)
next
  case (step_send_to buf a) then show ?thesis using same by (simp add: socket_send_to_def split_beta)
qed (use same accept recv_from close in \<open>auto simp: set_firewall_callback_def set_send_buffer_size_def
  set_recv_buffer_size_def set_target_delay_def set_read_timeout_def set_write_timeout_def split: if_splits\<close>)

lemma backlog_ok_step:
  assumes "sys_step g g'" "port_inv g" "backlog_ok g"
  shows "backlog_ok g'"
proof -
  note shrinks = backlog_ok_shrinks [OF assms(3) sys_step_moves [OF assms(1,2)]]
  from assms(1) show ?thesis
  proof (cases rule: sys_step_port)
    case same then show ?thesis by (intro shrinks) (simp add: same_port_def)
  next
    case accept then show ?thesis by (intro shrinks) (auto simp: accept_poll_def split: list.splits)
  next
    case (recv_from n) then show ?thesis by (intro shrinks) (auto simp: recv_from_poll_def split: list.splits)
  next
    case close then show ?thesis by (intro shrinks) (simp add: shared_close_def Let_def)
  next
    case (datagram buf a g1)
    have "ctx_inv (sh_ctx g1)" using process_datagram_inv [OF assms(2) datagram(1,2)] by (simp add: port_inv_def)
    from timers_moves [OF this] show ?thesis
      using backlog_ok_shrinks [OF process_datagram_backlog [OF assms(2,3) datagram(2)]] datagram(3) by simp
  qed
qed

lemma reachable_backlog: "sys_reachable g \<Longrightarrow> backlog_ok g"
proof (induction rule: sys_reachable.induct)
  case (reach_start clk r t local) then show ?case by (simp add: backlog_ok_def with_transport_def)
next
  case (reach_step g g') then show ?case using backlog_ok_step sys_reachable_inv by blast
qed

lemma issued_ok: "issued h g \<Longrightarrow> handle_ok h (sh_ctx g)"
proof (induction rule: issued.induct)
  case (issued_connect g a h g')
  then obtain k u c where c: "ctx_connect a (sh_ctx g) = Some ((k, u), c)" "h = \<lparr>conn_key = k, conn_user = u\<rparr>" "sh_ctx g' = c"
    by (auto simp: connect_start_def split: if_splits option.splits)
  then show ?case using ctx_connect_spec [OF c(1)] alloc_cell_kept(1) [of a "sh_ctx g" "c\<lparr>sockets := sockets (sh_ctx g)\<rparr>"]
    by (auto simp: handle_ok_def)
next
  case (issued_accept g h g')
  then show ?case using reachable_backlog [OF issued_accept(1)]
    by (auto simp: accept_poll_def backlog_ok_def split: list.splits if_splits)
next
  case (issued_step h g g')
  then show ?case
    using handle_ok_moves [OF sys_step_moves] sys_reachable_inv [OF issued_reachable] by blast
qed

section \<open>Blocking calls\<close>

lemma issued_live:
  assumes "issued h g" "\<not> destroyed (conn_cell_of h g)"
  obtains s where "map_of (sockets (sh_ctx g)) (conn_key h) = Some s" "sock_user s = conn_user h"
  using issued_ok [OF assms(1)] assms(2) by (auto simp: handle_ok_def conn_cell_of_def)

lemma issued_signalled:
  assumes "issued h g" "sys_step g g'"
  shows "signalled (conn_cell_of h g) (conn_cell_of h g')"
  using sys_step_moves [OF assms(2) sys_reachable_inv [OF issued_reachable [OF assms(1)]]] issued_ok [OF assms(1)]
  by (simp add: ctx_moves_def handle_ok_def conn_cell_of_def)

lemma closed_destroyed:
  assumes "issued h g" "sh_closed g"
  shows "destroyed (conn_cell_of h g)"
proof -
  have "sockets (sh_ctx g) = []" using sys_reachable_inv [OF issued_reachable [OF assms(1)]] assms(2) by (simp add: port_inv_def)
  then show ?thesis using issued_live [OF assms(1)] by fastforce
qed

lemma unsignalled_same:
  assumes "signalled c c'" "\<not> notified c < notified c'"
  shows "cell_flags c' = cell_flags c" "read_buf c = [] \<Longrightarrow> read_buf c' = []"
  using assms by (auto simp: signalled_def)

lemma recv_not_lost:
  assumes h: "issued h g" and b: "fst (recv_poll n d now h g) = Blocked" and st: "sys_step g g'"
    and "\<not> past_deadline d now'" "fst (recv_poll n d now' h g') \<noteq> Blocked"
  shows "notified (conn_cell_of h g) < notified (conn_cell_of h g')"
proof (rule ccontr)
  assume "\<not> ?thesis"
  note same = unsignalled_same [OF issued_signalled [OF h st] this]
  from b have "n \<noteq> 0" "read_buf (conn_cell_of h g) = []" "cell_flags (conn_cell_of h g) = (False, got_connect (conn_cell_of h g), False, False, None)"
    by (auto simp: recv_poll_def Let_def cell_flags_def split: if_splits option.splits)
  with same assms(4,5) show False by (auto simp: recv_poll_def Let_def cell_flags_def)
qed

lemma connect_not_lost:
  assumes h: "issued h g" and b: "fst (connect_poll d now h g) = Blocked" and st: "sys_step g g'"
    and "\<not> past_deadline d now'" "fst (connect_poll d now' h g') \<noteq> Blocked"
  shows "notified (conn_cell_of h g) < notified (conn_cell_of h g')"
proof (rule ccontr)
  assume "\<not> ?thesis"
  note same = unsignalled_same [OF issued_signalled [OF h st] this]
  from b have "cell_flags (conn_cell_of h g) = (got_eof (conn_cell_of h g), False, False, False, None)" 
    by (auto simp: connect_poll_def Let_def cell_flags_def split: if_splits option.splits)
  with same(1) have f: "cell_flags (conn_cell_of h g') = (got_eof (conn_cell_of h g), False, False, False, None)" by simp
  have "\<not> sh_closed g'" using closed_destroyed [OF issued_step [OF h st]] f by (auto simp: cell_flags_def)
  with f assms(4,5) show False by (auto simp: connect_poll_def Let_def cell_flags_def)
qed

text \<open>A blocked write leaves a connection that is not writable.\<close>

lemma send_blocked:
  assumes h: "issued h g" and b: "send_poll buf d now h g = (Blocked, g1)"
  shows "buf \<noteq> []" "cell_error (conn_cell_of h g1) = None" "\<not> cell_closed (conn_cell_of h g1)"
    "\<not> destroyed (conn_cell_of h g1)" "issued h g1"
    "\<exists>s. map_of (sockets (sh_ctx g1)) (conn_key h) = Some s \<and> sock_user s = conn_user h \<and> (sock_state s \<noteq> Connected \<or> fin_sent s)"
proof -
  let ?c = "sh_ctx g"
  from b have f: "buf \<noteq> []" "cell_error (conn_cell_of h g) = None" "\<not> cell_closed (conn_cell_of h g)"
      "\<not> destroyed (conn_cell_of h g)" 
    and w: "sh_ctx g1 = snd (ctx_write (conn_key h) buf ?c)" "fst (ctx_write (conn_key h) buf ?c) \<in> {None, Some 0}"
    by (auto simp: send_poll_def Let_def split_beta split: if_splits option.splits)
  obtain s where s: "map_of (sockets ?c) (conn_key h) = Some s" "sock_user s = conn_user h" by (rule issued_live [OF h f(4)])
  let ?e = "detach (conn_key h) s ?c"
  have inv: "ctx_inv ?c" using sys_reachable_inv [OF issued_reachable [OF h]] by (simp add: port_inv_def)
  have ce: "conn_inv ?e" by (rule detach_inv [OF inv s(1)])
  obtain n e' where r: "write_engine buf ?e = (n, e')" by fastforce
  have "n = 0" and c1: "sh_ctx g1 = reinsert (conn_key h) e'" using w s r by (simp_all add: ctx_write_def with_sock_def)
  with r have r: "write_engine buf ?e = (0, e')" by simp
  note z = write_zero [OF ce f(1) r]
  have cell: "conn_cell_of h g1 = conn_cell_of h g" using z(1) c1 by (simp add: conn_cell_of_def detach_def)
  have "kept ?e e'" using sock_ops_kept(1) [OF ce, of buf] r by simp
  then have "sock_user (sk e') = conn_user h" using s(2) by (simp add: kept_def detach_def)
  with z(2) c1 show "\<exists>s. map_of (sockets (sh_ctx g1)) (conn_key h) = Some s \<and> sock_user s = conn_user h
      \<and> (sock_state s \<noteq> Connected \<or> fin_sent s)"
    by (simp add: reinsert_def socks.look_ins)
  have "g1 = snd (send_poll buf d now h g)" using b by simp
  then show "issued h g1" using issued_step [OF h step_send] by simp
  show "buf \<noteq> []" "cell_error (conn_cell_of h g1) = None" "\<not> cell_closed (conn_cell_of h g1)"
    "\<not> destroyed (conn_cell_of h g1)" using cell f by simp_all
qed

lemma send_not_lost:
  assumes h: "issued h g" and b: "send_poll buf d now h g = (Blocked, g1)" and st: "sys_step g1 g'"
    and "\<not> past_deadline d now'" "fst (send_poll buf d now' h g') \<noteq> Blocked"
  shows "notified (conn_cell_of h g1) < notified (conn_cell_of h g')"
proof (rule ccontr)
  assume n: "\<not> ?thesis"
  note bl = send_blocked [OF h b]
  have f: "cell_flags (conn_cell_of h g') = cell_flags (conn_cell_of h g1)"
    by (rule unsignalled_same(1) [OF issued_signalled [OF bl(5) st] n])
  obtain s where s: "map_of (sockets (sh_ctx g1)) (conn_key h) = Some s" "sock_user s = conn_user h"
    "sock_state s \<noteq> Connected \<or> fin_sent s" using bl(6) by blast
  have "sock_moves (sh_ctx g1) (conn_key h) s (sh_ctx g')"
    using sys_step_moves [OF st sys_reachable_inv [OF issued_reachable [OF bl(5)]]] s(1) by (simp add: ctx_moves_def)
  moreover have "\<not> destroyed (cells (sh_ctx g') (conn_user h))" using f bl(4) by (simp add: cell_flags_def conn_cell_of_def)
  ultimately obtain s' where s': "map_of (sockets (sh_ctx g')) (conn_key h) = Some s'"
      "sock_state s' \<noteq> Connected \<or> fin_sent s'"
    using s n unfolding sock_moves_def woken_def conn_cell_of_def by metis
  then have "fst (ctx_write (conn_key h) buf (sh_ctx g')) = Some 0"
    by (auto simp: ctx_write_def with_sock_def write_engine_def detach_def)
  with f bl(1-4) assms(4,5) show False
    by (auto simp: send_poll_def Let_def split_beta cell_flags_def)
qed

text \<open>The two condition variables of the port itself.\<close>

lemma port_signalled:
  assumes "sys_step g g'" "\<not> sh_closed g"
  shows "sh_accept_cond g < sh_accept_cond g' \<or> \<not> sh_closed g' \<and> (sh_backlog g = [] \<longrightarrow> sh_backlog g' = [])"
    and "sh_non_utp_cond g < sh_non_utp_cond g' \<or> \<not> sh_closed g' \<and> (sh_non_utp g = [] \<longrightarrow> sh_non_utp g' = [])"
proof -
  have "(sh_accept_cond g < sh_accept_cond g' \<or> \<not> sh_closed g' \<and> (sh_backlog g = [] \<longrightarrow> sh_backlog g' = []))
    \<and> (sh_non_utp_cond g < sh_non_utp_cond g' \<or> \<not> sh_closed g' \<and> (sh_non_utp g = [] \<longrightarrow> sh_non_utp g' = []))"
    using assms(1)
  proof (cases rule: sys_step_port)
    case same then show ?thesis using assms(2) by (simp add: same_port_def)
  next
    case accept then show ?thesis using assms(2) by (simp add: accept_poll_def split: list.split)
  next
    case (recv_from n) then show ?thesis using assms(2) by (simp add: recv_from_poll_def split: list.split)
  next
    case close then show ?thesis using assms(2) by (simp add: shared_close_def Let_def)
  next
    case (datagram buf a g1) then show ?thesis
      by (auto simp: process_datagram_def Let_def bind_eq_Some_conv split: if_splits process_udp_result.splits)
  qed
  then show "sh_accept_cond g < sh_accept_cond g' \<or> \<not> sh_closed g' \<and> (sh_backlog g = [] \<longrightarrow> sh_backlog g' = [])"
    and "sh_non_utp_cond g < sh_non_utp_cond g' \<or> \<not> sh_closed g' \<and> (sh_non_utp g = [] \<longrightarrow> sh_non_utp g' = [])"
    by blast+
qed

lemma accept_not_lost:
  assumes "sys_step g g'" "fst (accept_poll g) = Blocked" "fst (accept_poll g') \<noteq> Blocked"
  shows "sh_accept_cond g < sh_accept_cond g'"
  using assms(2,3) port_signalled(1) [OF assms(1)] by (auto simp: accept_poll_def split: list.splits if_splits)

lemma recv_from_not_lost:
  assumes "sys_step g g'" "fst (recv_from_poll m g) = Blocked" "fst (recv_from_poll m g') \<noteq> Blocked"
  shows "sh_non_utp_cond g < sh_non_utp_cond g'"
  using assms(2,3) port_signalled(2) [OF assms(1)] by (auto simp: recv_from_poll_def split: list.splits if_splits)

text \<open>On a closed port no call blocks.\<close>

lemma closed_ready:
  assumes "issued h g" "sh_closed g"
  shows "fst (recv_poll n d now h g) \<noteq> Blocked" "fst (send_poll buf d now h g) \<noteq> Blocked"
    "fst (connect_poll d now h g) \<noteq> Blocked"
  using closed_destroyed [OF assms] by (auto simp: recv_poll_def send_poll_def connect_poll_def Let_def split: option.split)

lemma closed_port_ready:
  "sh_closed g \<Longrightarrow> fst (accept_poll g) \<noteq> Blocked" "sh_closed g \<Longrightarrow> fst (recv_from_poll m g) \<noteq> Blocked"
  by (simp_all add: accept_poll_def recv_from_poll_def split: list.split)

text \<open>After its deadline no call on a connection blocks.\<close>

lemma deadline_ready:
  assumes "past_deadline d now"
  shows "fst (recv_poll n d now h g) \<noteq> Blocked" "fst (send_poll buf d now h g) \<noteq> Blocked"
    "fst (connect_poll d now h g) \<noteq> Blocked"
  using assms by (auto simp: recv_poll_def send_poll_def connect_poll_def Let_def split_beta split: option.split)

section \<open>A port that has dialled\<close>

lemma cells_send_packet_at:
  "(\<And>n. tr_send_result (ctx_transport (cx e)) n = None) \<Longrightarrow> cells (cx (send_packet_at q e)) = cells (cx e)"
  by (simp add: send_packet_at_def send_data_def send_to_addr_def transport_send_to_def ack_list_remove_def
      eng_millis_def eng_micros_def ctx_millis_def ctx_micros_def split_beta Let_def split: option.split)

lemma start_connect_cells:
  "(\<And>n. tr_send_result (ctx_transport c) n = None) \<Longrightarrow> cells (cx (start_connect s c)) = cells c"
  unfolding start_connect_def Let_def split_beta
  by (subst cells_send_packet_at) (simp_all add: ctx_millis_def ctx_rand_def split_beta)

definition empty_port :: shared where
  "empty_port = with_transport \<lparr>clk_elapsed = (\<lambda>_. 0), clk_reads = 0\<rparr> (Rng 0)
     \<lparr>tr_send_result = (\<lambda>_. None), tr_sent = []\<rparr> (SocketAddrV4 0 0)"

lemma dialled_port:
  "\<exists>h g. connect_start (SocketAddrV4 1 2) empty_port = (Some (Inr h), g) \<and> issued h g
     \<and> \<not> sh_closed g \<and> sh_backlog g = [] \<and> sh_non_utp g = []
     \<and> conn_cell_of h g = ConnShared_new (SocketAddrV4 1 2)
     \<and> (\<exists>s. map_of (sockets (sh_ctx g)) (conn_key h) = Some s \<and> sock_state s = SynSent)"
proof -
  let ?a = "SocketAddrV4 1 2"
  let ?c = "sh_ctx empty_port"
  have e: "sockets ?c = []" "\<not> sh_closed empty_port" "sh_backlog empty_port = []" "sh_non_utp empty_port = []"
      "tr_send_result (ctx_transport ?c) n = None" for n
    by (simp_all add: empty_port_def with_transport_def Context_new_def)
  obtain k u c where c: "ctx_connect ?a ?c = Some ((k, u), c)" using ctx_connect_empty [OF e(1), of ?a] by blast
  obtain s where s: "map_of (sockets c) k = Some s" "sock_state s = SynSent" "u = next_cell ?c"
    using ctx_connect_spec [OF c] by auto
  obtain c1 where al: "alloc_cell ?a ?c = (u, c1)" and c1: "sockets c1 = []" "cells c1 u = ConnShared_new ?a"
      "tr_send_result (ctx_transport c1) n = None" for n
    using e s(3) by (simp add: alloc_cell_def)
  have "cells c u = ConnShared_new ?a"
    using c c1(2,3) by (auto simp: ctx_connect_def initialize_socket_def al gen_seed_empty [OF c1(1)] split_beta Let_def
        init_fields_def start_connect_cells ctx_millis_def ctx_rand_def)
  moreover have st: "connect_start ?a empty_port = (Some (Inr \<lparr>conn_key = k, conn_user = u\<rparr>), empty_port\<lparr>sh_ctx := c\<rparr>)"
    using e(2) c by (simp add: connect_start_def)
  moreover have "issued \<lparr>conn_key = k, conn_user = u\<rparr> (empty_port\<lparr>sh_ctx := c\<rparr>)"
    by (rule issued_connect [OF _ st]) (simp add: empty_port_def reach_start)
  ultimately show ?thesis
    using s e by (intro exI [of _ "\<lparr>conn_key = k, conn_user = u\<rparr>"] exI [of _ "empty_port\<lparr>sh_ctx := c\<rparr>"])
      (simp add: conn_cell_of_def)
qed

lemma poll_ready: "x \<noteq> Blocked \<longleftrightarrow> (\<exists>r. x = Ready r)"
  by (cases x) simp_all

section \<open>Properties\<close>

text \<open>C13. No wake-up is lost. Take any handle that the port has given out and any call that found nothing to
  do and went to sleep: if a critical section of another thread makes the call ready, that section
  has notified the condition variable the call sleeps on. This holds for reading, writing,
  connecting, accepting and receiving foreign datagrams, in every interleaving.\<close>

theorem no_lost_wakeup:
  assumes "issued h g" and "\<not> past_deadline d now'"
  shows "(\<forall>n g'. fst (recv_poll n d now h g) = Blocked \<and> sys_step g g' \<and> fst (recv_poll n d now' h g') \<noteq> Blocked \<longrightarrow>
        notified (conn_cell_of h g) < notified (conn_cell_of h g'))
    \<and> (\<forall>buf g1 g'. send_poll buf d now h g = (Blocked, g1) \<and> sys_step g1 g' \<and> fst (send_poll buf d now' h g') \<noteq> Blocked \<longrightarrow>
        notified (conn_cell_of h g1) < notified (conn_cell_of h g'))
    \<and> (\<forall>g'. fst (connect_poll d now h g) = Blocked \<and> sys_step g g' \<and> fst (connect_poll d now' h g') \<noteq> Blocked \<longrightarrow>
        notified (conn_cell_of h g) < notified (conn_cell_of h g'))
    \<and> (\<forall>g'. fst (accept_poll g) = Blocked \<and> sys_step g g' \<and> fst (accept_poll g') \<noteq> Blocked \<longrightarrow>
        sh_accept_cond g < sh_accept_cond g')
    \<and> (\<forall>m g'. fst (recv_from_poll m g) = Blocked \<and> sys_step g g' \<and> fst (recv_from_poll m g') \<noteq> Blocked \<longrightarrow>
        sh_non_utp_cond g < sh_non_utp_cond g')"
  using recv_not_lost [OF assms(1)] send_not_lost [OF assms(1)] connect_not_lost [OF assms(1)]
    accept_not_lost recv_from_not_lost assms(2) by blast

theorem no_lost_wakeup_witness:
  "\<exists>h g g1 g'. issued h g \<and> fst (recv_poll 1 None 0 h g) = Blocked \<and> fst (connect_poll None 0 h g) = Blocked
     \<and> send_poll [7] None 0 h g = (Blocked, g1) \<and> fst (accept_poll g) = Blocked
     \<and> fst (recv_from_poll 1 g) = Blocked \<and> sys_step g g' \<and> fst (recv_poll 1 None 0 h g') \<noteq> Blocked
     \<and> notified (conn_cell_of h g) < notified (conn_cell_of h g') \<and> sh_accept_cond g < sh_accept_cond g'
     \<and> sh_non_utp_cond g < sh_non_utp_cond g' \<and> notified (conn_cell_of h g1) < notified (conn_cell_of h (shared_close g1))"
proof -
  obtain h g s where g: "issued h g" "\<not> sh_closed g" "sh_backlog g = []" "sh_non_utp g = []"
      "conn_cell_of h g = ConnShared_new (SocketAddrV4 1 2)"
      "map_of (sockets (sh_ctx g)) (conn_key h) = Some s" "sock_state s = SynSent"
    using dialled_port by blast
  let ?g = "shared_close g"
  have bl: "fst (recv_poll 1 None 0 h g) = Blocked" "fst (connect_poll None 0 h g) = Blocked"
      "fst (accept_poll g) = Blocked" "fst (recv_from_poll 1 g) = Blocked"
    using g by (simp_all add: recv_poll_def connect_poll_def accept_poll_def recv_from_poll_def ConnShared_new_def
        past_deadline_def Let_def)
  have "fst (send_poll [7] None 0 h g) = Blocked"
    using g by (simp add: send_poll_def ConnShared_new_def past_deadline_def Let_def split_beta ctx_write_def with_sock_def
        write_engine_def detach_def)
  then obtain g1 where g1: "send_poll [7] None 0 h g = (Blocked, g1)" by (metis fst_conv surj_pair)
  have i1: "issued h g1" using issued_step [OF g(1) step_send, of "[7]" None 0 h] g1 by simp
  have cl: "sh_closed (shared_close x)" for x by (simp add: shared_close_def Let_def)
  note r = closed_ready [OF issued_step [OF g(1) step_close] cl] closed_ready [OF issued_step [OF i1 step_close] cl]
    closed_port_ready [OF cl]
  from no_lost_wakeup [OF g(1), of None 0 0] bl g1 r step_close
  have "notified (conn_cell_of h g) < notified (conn_cell_of h ?g)" "sh_accept_cond g < sh_accept_cond ?g"
    "sh_non_utp_cond g < sh_non_utp_cond ?g" "notified (conn_cell_of h g1) < notified (conn_cell_of h (shared_close g1))"
    by (auto simp: past_deadline_def)
  then show ?thesis
    by (intro exI [of _ h] exI [of _ g] exI [of _ g1] exI [of _ ?g] conjI bl g(1) g1 step_close r(1))
qed

text \<open>C14. Blocked calls end. Once the port is closed, whatever the threads did before, no call on it or on any
  handle it has given out waits any more: each returns at its next look at the state, and accepting and
  receiving report \<open>NotConnected\<close>. A call on a connection also returns at the first look after its deadline.\<close>

theorem blocked_calls_end:
  assumes "issued h g"
  shows "(sh_closed g \<longrightarrow>
        (\<forall>n d now. \<exists>r. fst (recv_poll n d now h g) = Ready r) \<and> (\<forall>buf d now. \<exists>r. fst (send_poll buf d now h g) = Ready r)
        \<and> (\<forall>d now. \<exists>r. fst (connect_poll d now h g) = Ready r) \<and> fst (accept_poll g) = Ready (Inl NotConnected)
        \<and> (\<forall>m. fst (recv_from_poll m g) = Ready (Inl NotConnected)) \<and> destroyed (conn_cell_of h g))
    \<and> (\<forall>d now. past_deadline d now \<longrightarrow> (\<forall>n. \<exists>r. fst (recv_poll n d now h g) = Ready r)
        \<and> (\<forall>buf. \<exists>r. fst (send_poll buf d now h g) = Ready r) \<and> (\<exists>r. fst (connect_poll d now h g) = Ready r))"
proof -
  have "port_inv g" by (rule sys_reachable_inv [OF issued_reachable [OF assms]])
  then have port: "fst (accept_poll g) = Ready (Inl NotConnected)" "fst (recv_from_poll m g) = Ready (Inl NotConnected)"
    if "sh_closed g" for m
    using that by (simp_all add: port_inv_def accept_poll_def recv_from_poll_def)
  show ?thesis
    unfolding poll_ready [symmetric]
    using closed_ready [OF assms] closed_destroyed [OF assms] deadline_ready by (simp add: port)
qed

theorem blocked_calls_end_witness:
  "\<exists>h g. issued h g \<and> fst (recv_poll 1 (Some 5) 4 h g) = Blocked
     \<and> (\<exists>r. fst (recv_poll 1 (Some 5) 4 h (shared_close g)) = Ready r) \<and> (\<exists>r. fst (recv_poll 1 (Some 5) 5 h g) = Ready r)"
proof -
  obtain h g where g: "issued h g" "conn_cell_of h g = ConnShared_new (SocketAddrV4 1 2)" using dialled_port by blast
  have "fst (recv_poll 1 (Some 5) 4 h g) = Blocked"
    using g by (simp add: recv_poll_def ConnShared_new_def past_deadline_def Let_def)
  moreover have "sh_closed (shared_close g)" "past_deadline (Some 5) 5"
    by (simp_all add: shared_close_def Let_def past_deadline_def)
  moreover from this blocked_calls_end [OF issued_step [OF g(1) step_close]] blocked_calls_end [OF g(1)]
  have "\<exists>r. fst (recv_poll 1 (Some 5) 4 h (shared_close g)) = Ready r" "\<exists>r. fst (recv_poll 1 (Some 5) 5 h g) = Ready r"
    by simp_all
  ultimately show ?thesis using g(1) by (intro exI [of _ h] exI [of _ g] conjI)
qed

end
