(* ===== verification/Udp_Transport.thy ===== *)
theory Udp_Transport
  imports Environment
begin

text \<open>
  \<^verbatim>\<open>UdpTransport\<close> of \<^verbatim>\<open>src/transport.rs\<close>: the stock transport. The operating system's socket is a parameter: the
  outcome of setting its read timeout, and the calls of \<^verbatim>\<open>setsockopt\<close> made on it, whose results the code
  ignores. Receiving, sending and the local address are forwarded to the system as they are; in the
  model they are the reader's input and the transport of the context.
\<close>

definition RECV_POLL_INTERVAL :: nat where "RECV_POLL_INTERVAL = 500"

text \<open>The platforms the source distinguishes: Linux and Android, the other Unix systems, Windows, the rest.\<close>

datatype platform = Linux | Bsd | Windows | Other_Platform

record sockopt =
  opt_level :: int
  opt_name :: int
  opt_val :: int

definition set_udp_buffer_sizes :: "platform \<Rightarrow> int \<Rightarrow> sockopt list" where
  "set_udp_buffer_sizes p bytes =
     (case p of
        Linux \<Rightarrow> [\<lparr>opt_level = 1, opt_name = 8, opt_val = bytes\<rparr>, \<lparr>opt_level = 1, opt_name = 7, opt_val = bytes\<rparr>]
      | Bsd \<Rightarrow> [\<lparr>opt_level = 0xffff, opt_name = 0x1002, opt_val = bytes\<rparr>,
                \<lparr>opt_level = 0xffff, opt_name = 0x1001, opt_val = bytes\<rparr>]
      | Windows \<Rightarrow> [\<lparr>opt_level = 0xffff, opt_name = 0x1002, opt_val = bytes\<rparr>,
                    \<lparr>opt_level = 0xffff, opt_name = 0x1001, opt_val = bytes\<rparr>]
      | Other_Platform \<Rightarrow> [])"

text \<open>
  The operating system's socket: what its \<^verbatim>\<open>set_read_timeout\<close> answers, its local address, and what the
  code has set on it.
\<close>

record udp_socket =
  udp_timeout_result :: "error_kind option"
  udp_local_addr :: "error_kind + socket_addr"
  udp_read_timeout :: "nat option"
  udp_options :: "sockopt list"

definition UdpTransport_new :: "platform \<Rightarrow> udp_socket \<Rightarrow> error_kind + udp_socket" where
  "UdpTransport_new p u =
     (case udp_timeout_result u of
        Some k \<Rightarrow> Inl k
      | None \<Rightarrow> Inr (u\<lparr>udp_read_timeout := Some RECV_POLL_INTERVAL,
                       udp_options := udp_options u @ set_udp_buffer_sizes p (4 * 2 ^ 20)\<rparr>))"

text \<open>A transport that is handed out polls: it never blocks the reader for longer than half a second.\<close>

lemma UdpTransport_polls: "UdpTransport_new p u = Inr u' \<Longrightarrow> udp_read_timeout u' = Some 500"
  by (auto simp: UdpTransport_new_def RECV_POLL_INTERVAL_def split: option.splits)

end
