(* ===== verification/Socket_Calls.thy ===== *)
theory Socket_Calls
  imports Wakeup Udp_Transport
begin

text \<open>
  The public calls of \<^verbatim>\<open>src/socket.rs\<close> as a whole. Opening a port runs through the fallible steps of
  \<^verbatim>\<open>bind\<close>, \<^verbatim>\<open>from_udp\<close> and \<^verbatim>\<open>with_transport\<close>. The reader thread is the loop around its turns. A blocking call alternates its critical section with waits during
  which other threads take their steps; the relation \<open>awaits\<close> relates the state in which it starts to
  its result and the state in which it returns. The locale \<open>blocking_call\<close> is the contract of the
  critical sections, and each call is an interpretation of it.
\<close>

section \<open>Opening a port\<close>

text \<open>
  The outcomes of the system's calls are parameters: binding a UDP socket, its local address, starting the
  reader thread.
\<close>

definition socket_with_transport ::
  "clock \<Rightarrow> rng \<Rightarrow> transport \<Rightarrow> error_kind + socket_addr \<Rightarrow> error_kind option \<Rightarrow> error_kind + shared"
where
  "socket_with_transport clk r t local spawned =
     (case local of
        Inl k \<Rightarrow> Inl k
      | Inr a \<Rightarrow> (case spawned of Some k \<Rightarrow> Inl k | None \<Rightarrow> Inr (with_transport clk r t a)))"

definition from_udp ::
  "platform \<Rightarrow> clock \<Rightarrow> rng \<Rightarrow> transport \<Rightarrow> udp_socket \<Rightarrow> error_kind option \<Rightarrow> error_kind + shared"
where
  "from_udp p clk r t u spawned =
     (case UdpTransport_new p u of
        Inl k \<Rightarrow> Inl k
      | Inr u1 \<Rightarrow> socket_with_transport clk r t (udp_local_addr u1) spawned)"

definition socket_bind ::
  "platform \<Rightarrow> clock \<Rightarrow> rng \<Rightarrow> transport \<Rightarrow> error_kind + udp_socket \<Rightarrow> error_kind option \<Rightarrow> error_kind + shared"
where
  "socket_bind p clk r t bound spawned =
     (case bound of Inl k \<Rightarrow> Inl k | Inr u \<Rightarrow> from_udp p clk r t u spawned)"

lemma socket_bind_reachable: "socket_bind p clk r t bound spawned = Inr g \<Longrightarrow> sys_reachable g"
  by (auto simp: socket_bind_def from_udp_def socket_with_transport_def intro: reach_start split: sum.splits option.splits)

text \<open>Closing a socket and dropping it are the same tear-down of the port.\<close>

definition socket_close :: "shared \<Rightarrow> shared" where
  "socket_close g = shared_close g"

definition socket_drop :: "shared \<Rightarrow> shared" where
  "socket_drop g = shared_close g"

definition socket_local_addr :: "shared \<Rightarrow> socket_addr" where
  "socket_local_addr g = sh_local_addr g"

definition conn_local_addr :: "conn \<Rightarrow> shared \<Rightarrow> socket_addr" where
  "conn_local_addr h g = sh_local_addr g"

text \<open>Address resolution: the first address that the system's resolver gives, or an error.\<close>

definition resolve :: "error_kind + socket_addr list \<Rightarrow> error_kind + socket_addr" where
  "resolve addrs =
     (case addrs of Inl k \<Rightarrow> Inl k | Inr [] \<Rightarrow> Inl InvalidInput | Inr (a # _) \<Rightarrow> Inr a)"

section \<open>Blocking calls\<close>

inductive awaits :: "(nat \<Rightarrow> shared \<Rightarrow> 'a poll \<times> shared) \<Rightarrow> nat \<Rightarrow> shared \<Rightarrow> error_kind + 'a \<Rightarrow> shared \<Rightarrow> bool" for poll where
  awaits_ready: "poll now g = (Ready r, g') \<Longrightarrow> awaits poll now g r g'"
| awaits_wait: "poll now g = (Blocked, g1) \<Longrightarrow> sys_step\<^sup>*\<^sup>* g1 g2 \<Longrightarrow> now \<le> now' \<Longrightarrow> awaits poll now' g2 r g' \<Longrightarrow>
    awaits poll now g r g'"

definition accept :: "nat \<Rightarrow> shared \<Rightarrow> error_kind + conn \<Rightarrow> shared \<Rightarrow> bool" where
  "accept = awaits (\<lambda>_. accept_poll)"

definition recv_from :: "nat \<Rightarrow> nat \<Rightarrow> shared \<Rightarrow> error_kind + bytes \<times> socket_addr \<Rightarrow> shared \<Rightarrow> bool" where
  "recv_from buf_len = awaits (\<lambda>_. recv_from_poll buf_len)"

text \<open>
  Reading and writing take their deadline from the connection's cell before they take the port's mutex, so
  other threads may run in between.
\<close>

definition locks_then ::
  "(nat \<Rightarrow> shared \<Rightarrow> 'a poll \<times> shared) \<Rightarrow> nat \<Rightarrow> shared \<Rightarrow> error_kind + 'a \<Rightarrow> shared \<Rightarrow> bool"
where
  "locks_then poll now g r g' \<longleftrightarrow> (\<exists>now1 g1. now \<le> now1 \<and> sys_step\<^sup>*\<^sup>* g g1 \<and> awaits poll now1 g1 r g')"

definition recv_deadline :: "conn \<Rightarrow> nat \<Rightarrow> shared \<Rightarrow> nat option" where
  "recv_deadline h now g = map_option (\<lambda>t. now + t) (read_timeout (conn_cell_of h g))"

definition recv :: "nat \<Rightarrow> conn \<Rightarrow> nat \<Rightarrow> shared \<Rightarrow> error_kind + bytes \<Rightarrow> shared \<Rightarrow> bool" where
  "recv buf_len h now g r g' \<longleftrightarrow>
     (if buf_len = 0 then r = Inr [] \<and> g' = g
      else locks_then (\<lambda>t. recv_poll buf_len (recv_deadline h now g) t h) now g r g')"

definition send_deadline :: "conn \<Rightarrow> nat \<Rightarrow> shared \<Rightarrow> nat option" where
  "send_deadline h now g = map_option (\<lambda>t. now + t) (write_timeout (conn_cell_of h g))"

definition send :: "bytes \<Rightarrow> conn \<Rightarrow> nat \<Rightarrow> shared \<Rightarrow> error_kind + nat \<Rightarrow> shared \<Rightarrow> bool" where
  "send buf h now g r g' \<longleftrightarrow>
     (if buf = [] then r = Inr 0 \<and> g' = g
      else locks_then (\<lambda>t. send_poll buf (send_deadline h now g) t h) now g r g')"

text \<open>
  \<^verbatim>\<open>connect_deadline\<close>: the SYN goes out in the first critical section, then the call waits. When it fails, the
  handle it made is dropped on the way out, while the call still holds the mutex.
\<close>

inductive connect_deadline :: "nat option \<Rightarrow> socket_addr \<Rightarrow> nat \<Rightarrow> shared \<Rightarrow> error_kind + conn \<Rightarrow> shared \<Rightarrow> bool" where
  connect_closed: "connect_start a g = (Some (Inl k), g') \<Longrightarrow> connect_deadline d a now g (Inl k) g'"
| connect_opens: "connect_start a g = (Some (Inr h), g1) \<Longrightarrow> awaits (\<lambda>t. connect_poll d t h) now g1 (Inr h') g' \<Longrightarrow>
    connect_deadline d a now g (Inr h') g'"
| connect_fails: "connect_start a g = (Some (Inr h), g1) \<Longrightarrow> awaits (\<lambda>t. connect_poll d t h) now g1 (Inl k) g2 \<Longrightarrow>
    connect_deadline d a now g (Inl k) (conn_drop h g2)"

inductive connect :: "error_kind + socket_addr list \<Rightarrow> nat option \<Rightarrow> nat \<Rightarrow> shared \<Rightarrow> error_kind + conn \<Rightarrow> shared \<Rightarrow> bool" where
  connect_unresolved: "resolve addrs = Inl k \<Longrightarrow> connect addrs timeout now g (Inl k) g"
| connect_resolved: "resolve addrs = Inr a \<Longrightarrow> connect_deadline (map_option (\<lambda>t. now + t) timeout) a now g r g' \<Longrightarrow>
    connect addrs timeout now g r g'"

inductive_cases connect_deadlineE: "connect_deadline d a now g r g'"
inductive_cases connectE: "connect addrs timeout now g r g'"

text \<open>\<^verbatim>\<open>io::Read\<close> and \<^verbatim>\<open>io::Write\<close> of a connection.\<close>

definition conn_read :: "nat \<Rightarrow> conn \<Rightarrow> nat \<Rightarrow> shared \<Rightarrow> error_kind + bytes \<Rightarrow> shared \<Rightarrow> bool" where
  "conn_read buf_len h now g = recv buf_len h now g"

definition conn_write :: "bytes \<Rightarrow> conn \<Rightarrow> nat \<Rightarrow> shared \<Rightarrow> error_kind + nat \<Rightarrow> shared \<Rightarrow> bool" where
  "conn_write buf h now g = send buf h now g"

definition conn_flush :: "conn \<Rightarrow> shared \<Rightarrow> error_kind + unit" where
  "conn_flush h g = Inr ()"

text \<open>
  The reader thread: turns of its loop, between which other threads run, until one of them stops it. The
  argument counts consecutive receive errors.
\<close>

inductive reader_loop :: "u32 \<Rightarrow> shared \<Rightarrow> shared \<Rightarrow> bool" where
  loop_stop: "reader_turn r errors g = Some (Stop g') \<Longrightarrow> reader_loop errors g g'"
| loop_next: "reader_turn r errors g = Some (Continue errors' g1) \<Longrightarrow> sys_step\<^sup>*\<^sup>* g1 g2 \<Longrightarrow> reader_loop errors' g2 g' \<Longrightarrow>
    reader_loop errors g g'"

section \<open>The contract of a critical section\<close>

locale blocking_call =
  fixes poll :: "nat \<Rightarrow> shared \<Rightarrow> 'a poll \<times> shared"
  assumes poll_step: "sys_step g (snd (poll now g))"
begin

lemma poll_issued: "poll now g = (x, g1) \<Longrightarrow> issued h g \<Longrightarrow> issued h g1"
  using issued_step [OF _ poll_step] by (metis snd_conv)

lemma call_steps: "awaits poll now g r g' \<Longrightarrow> sys_step\<^sup>*\<^sup>* g g'"
proof (induction rule: awaits.induct)
  case (awaits_ready now g r g')
  then show ?case using poll_step [of g now] by auto
next
  case (awaits_wait now g g1 g2 now' r g')
  have "sys_step g g1" using poll_step [of g now] awaits_wait(1) by simp
  then show ?case using awaits_wait(2,5) by (meson converse_rtranclp_into_rtranclp rtranclp_trans)
qed

lemma call_reachable: "awaits poll now g r g' \<Longrightarrow> sys_reachable g \<Longrightarrow> sys_reachable g'"
  using call_steps by (metis (no_types, lifting) reach_step rtranclp_induct)

text \<open>A call returns as soon as it looks at a state in which it is not blocked.\<close>

lemma call_returns: "fst (poll now g) \<noteq> Blocked \<Longrightarrow> \<exists>r g'. awaits poll now g r g'"
  by (metis awaits_ready poll.exhaust prod.collapse)

lemma call_returns_later:
  assumes "poll now g = (Blocked, g1)" "sys_step\<^sup>*\<^sup>* g1 g2" "now \<le> now'" "fst (poll now' g2) \<noteq> Blocked"
  shows "\<exists>r g'. awaits poll now g r g'"
  using call_returns [OF assms(4)] awaits_wait [of poll, OF assms(1-3)] by blast

end

interpretation accept: blocking_call "\<lambda>_. accept_poll"
  by unfold_locales (rule step_accept)

interpretation recv_from: blocking_call "\<lambda>_. recv_from_poll n" for n
  by unfold_locales (rule step_recv_from)

interpretation recv: blocking_call "\<lambda>t. recv_poll n d t h" for n d h
  by unfold_locales (rule step_recv)

interpretation send: blocking_call "\<lambda>t. send_poll buf d t h" for buf d h
  by unfold_locales (rule step_send)

interpretation connect: blocking_call "\<lambda>t. connect_poll d t h" for d h
  by unfold_locales (rule step_connect_poll)


section \<open>What the calls give\<close>

text \<open>The reader runs for as long as the port is open: it stops only on a closed port.\<close>

lemma reader_stops_closed: "reader_loop errors g g' \<Longrightarrow> sh_closed g'"
  by (induction rule: reader_loop.induct)
    (auto simp: reader_turn_def shared_close_def Let_def split: recv_result.splits if_splits)

lemma issued_steps: "sys_step\<^sup>*\<^sup>* g g' \<Longrightarrow> issued h g \<Longrightarrow> issued h g'"
  by (induction rule: rtranclp_induct) (auto intro: issued_step)

text \<open>A successful \<^verbatim>\<open>accept\<close> or \<^verbatim>\<open>connect\<close> hands out a handle of this port; the connection of the latter is open.\<close>

lemma accept_issued:
  "awaits (\<lambda>_. accept_poll) now g r g' \<Longrightarrow> sys_reachable g \<Longrightarrow> r = Inr h \<Longrightarrow> issued h g'"
proof (induction rule: awaits.induct)
  case (awaits_ready now g r g')
  then show ?case using issued_accept by blast
next
  case (awaits_wait now g g1 g2 now' r g')
  have "sys_step g g1" using accept.poll_step [of g] awaits_wait(1) by simp
  then have "sys_step\<^sup>*\<^sup>* g g2" using awaits_wait(2) by (rule converse_rtranclp_into_rtranclp)
  then have "sys_reachable g2" using awaits_wait(6) by (induction rule: rtranclp_induct) (auto intro: reach_step)
  then show ?case using awaits_wait by blast
qed

lemma connect_poll_open:
  "awaits (\<lambda>t. connect_poll d t h) now g r g' \<Longrightarrow> r = Inr h' \<Longrightarrow> h' = h \<and> got_connect (conn_cell_of h g')"
proof (induction rule: awaits.induct)
  case (awaits_ready now g r g')
  then show ?case by (auto simp: connect_poll_def Let_def split: option.splits if_splits)
qed auto

lemma connect_issued:
  assumes "connect addrs timeout now g (Inr h) g'" "sys_reachable g"
  shows "issued h g' \<and> got_connect (conn_cell_of h g')"
proof -
  obtain a where "connect_deadline (map_option (\<lambda>t. now + t) timeout) a now g (Inr h) g'"
    using assms(1) by (auto elim: connectE)
  then obtain h1 g1 where s: "connect_start a g = (Some (Inr h1), g1)"
    and w: "awaits (\<lambda>t. connect_poll (map_option (\<lambda>t. now + t) timeout) t h1) now g1 (Inr h) g'"
    by (auto elim: connect_deadlineE)
  have "issued h1 g'" by (rule issued_steps [OF connect.call_steps [OF w] issued_connect [OF assms(2) s]])
  then show ?thesis using connect_poll_open [OF w] by simp
qed

section \<open>A dial that fails\<close>

lemma close_locked_closed:
  assumes "issued h g"
  shows "cell_closed (conn_cell_of h (close_locked h g))"
proof -
  let ?c = "ctx_cell (conn_user h) (\<lambda>x. x\<lparr>cell_closed := True\<rparr>) (sh_ctx g)"
  have i: "ctx_inv (sh_ctx g)" "conn_user h < next_cell (sh_ctx g)"
    using sys_reachable_inv [OF issued_reachable [OF assms]] issued_ok [OF assms] by (auto simp: port_inv_def handle_ok_def)
  have "ctx_moves ?c (ctx_close (conn_key h) ?c)" using i(1) by (intro handle_ops_moves) simp
  moreover have "conn_user h < next_cell ?c" using i(2) by (simp add: ctx_cell_def)
  ultimately have "signalled (cells ?c (conn_user h)) (cells (ctx_close (conn_key h) ?c) (conn_user h))"
    by (auto simp: ctx_moves_def)
  then show ?thesis by (auto simp: close_locked_def conn_cell_of_def ctx_cell_def Let_def signalled_def notify_all_def)
qed

lemma failed_poll_done:
  assumes "issued h g" "connect_poll d now h g = (Ready (Inl k), g')"
  shows "cell_closed (conn_cell_of h g') \<or> destroyed (conn_cell_of h g')"
  using assms(2) close_locked_closed [OF assms(1)] closed_destroyed [OF assms(1)]
  by (auto simp: connect_poll_def Let_def split: option.splits if_splits)

lemma failed_dial_done:
  "awaits (\<lambda>t. connect_poll d t h) now g r g' \<Longrightarrow> issued h g \<Longrightarrow> r = Inl k \<Longrightarrow>
    cell_closed (conn_cell_of h g') \<or> destroyed (conn_cell_of h g')"
proof (induction rule: awaits.induct)
  case (awaits_ready now g r g')
  then show ?case using failed_poll_done by blast
next
  case (awaits_wait now g g1 g2 now' r g')
  then show ?case using issued_steps connect.poll_issued by blast
qed

text \<open>C15. A dial that fails never deadlocks. \<^verbatim>\<open>connect_deadline\<close> still holds the port's mutex when it drops the
  handle of the connection it gave up, and dropping a live handle takes that mutex. Whatever the other
  threads do while the call waits, and whichever way it fails, the handle it drops is closed or destroyed by
  then: the drop returns without taking the mutex and leaves the port as it is.\<close>

theorem failed_dial_never_deadlocks:
  assumes "sys_reachable g" "connect_start a g = (Some (Inr h), g1)"
    and "awaits (\<lambda>t. connect_poll d t h) now g1 (Inl k) g2"
  shows "(cell_closed (conn_cell_of h g2) \<or> destroyed (conn_cell_of h g2)) \<and> conn_drop h g2 = g2
    \<and> connect_deadline d a now g (Inl k) g2"
proof -
  have "cell_closed (conn_cell_of h g2) \<or> destroyed (conn_cell_of h g2)"
    using failed_dial_done [OF assms(3) issued_connect [OF assms(1,2)]] by simp
  then show ?thesis using connect_fails [OF assms(2,3)] by (simp add: conn_drop_def Let_def)
qed

theorem failed_dial_never_deadlocks_witness:
  "\<exists>h g1 g2. connect_start (SocketAddrV4 1 2) empty_port = (Some (Inr h), g1) \<and> \<not> cell_closed (conn_cell_of h g1)
     \<and> awaits (\<lambda>t. connect_poll (Some 5) t h) 3 g1 (Inl TimedOut) g2 \<and> cell_closed (conn_cell_of h g2)
     \<and> conn_drop h g2 = g2"
proof -
  obtain h g where g: "connect_start (SocketAddrV4 1 2) empty_port = (Some (Inr h), g)" "issued h g" "\<not> sh_closed g"
      "conn_cell_of h g = ConnShared_new (SocketAddrV4 1 2)"
    using dialled_port by blast
  let ?g = "close_locked h g"
  have "connect_poll (Some 5) 3 h g = (Blocked, g)" "connect_poll (Some 5) 5 h g = (Ready (Inl TimedOut), ?g)"
    using g(3,4) by (simp_all add: connect_poll_def ConnShared_new_def past_deadline_def Let_def)
  then have w: "awaits (\<lambda>t. connect_poll (Some 5) t h) 3 g (Inl TimedOut) ?g"
    by (meson awaits_ready awaits_wait rtranclp.rtrancl_refl numeral_le_iff semiring_norm)
  have "sys_reachable empty_port" by (simp add: empty_port_def reach_start)
  from failed_dial_never_deadlocks [OF this g(1) w] have "conn_drop h ?g = ?g" by blast
  then show ?thesis
    using g w close_locked_closed [OF g(2)] by (intro exI [of _ h] exI [of _ g] exI [of _ ?g]) (simp add: ConnShared_new_def)
qed

end
