(* ===== verification/Sent_Stream.thy ===== *)
theory Sent_Stream
  imports Send_Queue
begin

text \<open>
  What a connection puts on the wire. Sequence numbers have 16 bits; \<open>numbering\<close> unwraps those of the
  datagrams that left the port into natural numbers. The invariant \<open>tx_inv\<close> says that there is one stream of
  payloads, indexed by these numbers, such that every datagram ever sent under a number carries exactly the
  payload of that number, and \<open>follows\<close> that the payloads in order are the bytes written. Interpreting
  \<open>write_invariant\<close> and \<open>conn_invariant\<close> on it shows that all operations of the engine keep this, whatever
  datagrams arrive.
\<close>

section \<open>Numbering\<close>

text \<open>The natural number within half of the sequence space of \<open>m\<close> that has the given low 16 bits.\<close>

definition unwrap :: "nat \<Rightarrow> u16 \<Rightarrow> nat" where
  "unwrap m q = m + unat (q - of_nat m + 2 ^ 15) - 2 ^ 15"

lemma unwrap_near:
  assumes "a < m + 2 ^ 15" "m \<le> a + 2 ^ 15" "2 ^ 15 \<le> m"
  shows "unwrap m (of_nat a) = a"
proof -
  have "of_nat a - of_nat m + 2 ^ 15 = (of_nat (a + 2 ^ 15 - m) :: u16)" using assms(2) by (simp add: of_nat_diff)
  moreover have "unat (of_nat (a + 2 ^ 15 - m) :: u16) = a + 2 ^ 15 - m"
    unfolding unat_of_nat using assms(1) by (intro mod_less) simp
  ultimately have "unat (of_nat a - of_nat m + 2 ^ 15 :: u16) = a + 2 ^ 15 - m" by presburger
  then show ?thesis unfolding unwrap_def using assms by linarith
qed

text \<open>
  The datagrams that use up sequence numbers, with their numbers; \<open>m\<close> is one more than the largest number so
  far. Bare acknowledgements are left out.
\<close>

fun numbering :: "nat \<Rightarrow> (bytes \<times> socket_addr) list \<Rightarrow> (nat \<times> bytes) list" where
  "numbering m [] = []"
| "numbering m ((d, to) # xs) =
     (if hdr_packet_type d = Some ST_STATE then numbering m xs
      else case hdr_seq_nr d of
             None \<Rightarrow> numbering m xs
           | Some q \<Rightarrow> (unwrap m q, d) # numbering (max m (Suc (unwrap m q))) xs)"

definition next_nr :: "nat \<Rightarrow> (nat \<times> bytes) list \<Rightarrow> nat" where
  "next_nr m xs = fold (\<lambda>(a, d) k. max k (Suc a)) xs m"

lemma next_nr_Nil [simp]: "next_nr m [] = m"
  by (simp add: next_nr_def)

lemma next_nr_snoc [simp]: "next_nr m (xs @ [(a, d)]) = max (next_nr m xs) (Suc a)"
  by (simp add: next_nr_def)

lemma next_nr_Cons [simp]: "next_nr m ((a, d) # xs) = next_nr (max m (Suc a)) xs"
  by (simp add: next_nr_def)

lemma next_nr_ge: "m \<le> next_nr m xs"
proof (induction xs arbitrary: m)
  case (Cons x xs)
  then show ?case by (cases x) (metis max.bounded_iff next_nr_Cons)
qed simp

lemma next_nr_above: "(a, d) \<in> set xs \<Longrightarrow> a < next_nr m xs"
proof (induction xs arbitrary: m)
  case (Cons x xs)
  then show ?case using next_nr_ge [of "max m (Suc a)" xs] by (cases x) auto
qed simp

lemma numbering_append: "numbering m (xs @ ys) = numbering m xs @ numbering (next_nr m (numbering m xs)) ys"
  by (induction m xs rule: numbering.induct) (auto split: option.split)

lemma numbering_acks: "\<forall>x \<in> set xs. hdr_packet_type (fst x) = Some ST_STATE \<Longrightarrow> numbering m xs = []"
  by (induction xs arbitrary: m) auto

section \<open>Datagrams of the stream\<close>

definition numbered :: "nat \<Rightarrow> bytes \<Rightarrow> bytes \<Rightarrow> bool" where
  "numbered a d b \<longleftrightarrow> HEADER_SIZE \<le> length b \<and> hdr_seq_nr b = Some (of_nat a) \<and> hdr_ext b = Some 0
     \<and> hdr_packet_type b \<noteq> Some ST_STATE \<and> drop HEADER_SIZE b = d"

lemma numbered_stamps:
  "numbered a d b \<Longrightarrow> numbered a d (set_ack_nr b k)"
  "numbered a d b \<Longrightarrow> numbered a d (fst (send_data b e))"
  by (simp_all add: numbered_def wire_simps send_data_def split_beta Let_def)

lemma hdr_seq_append: "HEADER_SIZE \<le> length b \<Longrightarrow> hdr_seq_nr (b @ r) = hdr_seq_nr b"
  by (simp add: hdr_seq_nr_def u16_at_def byte_at_def HEADER_SIZE_def nth_append)

lemma numbered_stamp_header:
  assumes "hdr_seq_nr b = Some (of_nat a)" "HEADER_SIZE \<le> length b" "fl < 16" "fl \<noteq> ST_STATE"
  shows "numbered a (drop HEADER_SIZE b) (stamp_header fl c w k b)"
  using assms by (simp add: numbered_def stamp_header_def wire_simps)

section \<open>One stream on the wire\<close>

text \<open>
  The slot of packet \<open>a\<close> in the window: empty once the packet has been sent and acknowledged; otherwise it holds the
  payload of \<open>a\<close>, and nothing went out under \<open>a\<close> while its count of transmissions is 0.
\<close>

definition tx_slot :: "(nat \<Rightarrow> bytes) \<Rightarrow> nat set \<Rightarrow> nat \<Rightarrow> nat \<Rightarrow> outgoing_packet option \<Rightarrow> bool" where
  "tx_slot str sent m a x \<longleftrightarrow>
     (case x of
        None \<Rightarrow> a < m
      | Some p \<Rightarrow> numbered a (str a) (pkt_data p) \<and> (if pkt_transmissions p = 0 then a \<notin> sent else a < m))"

abbreviation in_window :: "nat \<Rightarrow> utp_sock \<Rightarrow> nat \<Rightarrow> bool" where
  "in_window n s a \<equiv> a < n \<and> n \<le> a + unat (cur_window_packets s)"

text \<open>The numbers that packets of the stream can no longer take.\<close>

definition used :: "nat \<Rightarrow> (nat \<times> bytes) list \<Rightarrow> nat set" where
  "used b xs = {..<b} \<union> fst ` set xs"

text \<open>\<open>b\<close> is the number of the first packet of the stream, \<open>xs\<close> what has been sent, \<open>n\<close> the next number to be used.\<close>

definition tx_sock :: "nat \<Rightarrow> (nat \<times> bytes) list \<Rightarrow> (nat \<Rightarrow> bytes) \<Rightarrow> nat \<Rightarrow> utp_sock \<Rightarrow> bool" where
  "tx_sock b xs str n s \<longleftrightarrow> seq_nr s = of_nat n \<and> 2 ^ 16 \<le> b
     \<and> n \<le> next_nr b xs + unat (cur_window_packets s) \<and> next_nr b xs \<le> n
     \<and> (\<forall>a. in_window n s a \<longrightarrow> tx_slot str (used b xs) (next_nr b xs) a (cb_get (outbuf s) a))
     \<and> (\<forall>a\<ge>n. str a = []) \<and> (\<forall>(a, d) \<in> set xs. numbered a (str a) d)"

lemma tx_sock_cong:
  "outbuf s' = outbuf s \<Longrightarrow> cur_window_packets s' = cur_window_packets s \<Longrightarrow> seq_nr s' = seq_nr s \<Longrightarrow>
   tx_sock b xs str n s' = tx_sock b xs str n s"
  by (simp add: tx_sock_def)

lemma tx_room: "tx_sock b xs str n s \<Longrightarrow> unat (cur_window_packets s) < n"
  using next_nr_ge [of b xs] unat_bound [of "cur_window_packets s"] by (simp add: tx_sock_def)

text \<open>The slots of the ring are those of the window.\<close>

lemma tx_index:
  assumes "tx_sock b xs str n s" "m dvd 2 ^ 16"
  shows "(unat (seq_nr s - cur_window_packets s) + j) mod m = (n - unat (cur_window_packets s) + j) mod m"
proof -
  let ?c = "cur_window_packets s"
  have "seq_nr s - ?c = of_nat (n - unat ?c)"
    using assms(1) tx_room [OF assms(1)] by (simp add: tx_sock_def of_nat_diff)
  then have "unat (seq_nr s - ?c) mod m = (n - unat ?c) mod m" using mod_mod_cancel [OF assms(2)] by (simp add: unat_of_nat)
  then show ?thesis by (rule mod_add_cong) simp
qed

lemma tx_find:
  assumes tx: "tx_sock b xs str n s" and w: "window_inv s" and p: "cb_get (outbuf s) i = Some p"
  obtains a where "in_window n s a" "a mod cb_size (outbuf s) = i mod cb_size (outbuf s)" "cb_get (outbuf s) a = Some p"
proof -
  let ?c = "cur_window_packets s" and ?m = "cb_size (outbuf s)"
  have wf: "cb_wf (outbuf s)" using w by (simp add: window_inv_def)
  obtain j where j: "j < ?m" "(unat (seq_nr s - ?c) + j) mod ?m = i mod ?m" using mod_add_surj [OF cb_size_pos] by metis
  have "cb_get (outbuf s) (unat (seq_nr s - ?c) + j) = Some p" using cb_get_cong [OF wf j(2)] p by simp
  then have jc: "j < unat ?c" using w j(1) unfolding window_inv_def by (metis not_le option.discI)
  let ?a = "n - unat ?c + j"
  have m: "?a mod ?m = i mod ?m" using tx_index [OF tx cb_size_dvd [OF wf]] j(2) by simp
  show thesis
    by (rule that [of ?a]) (use jc tx_room [OF tx] m cb_get_cong [OF wf m] p in auto)
qed

lemma window_inj:
  assumes "in_window n s a" "in_window n s a'" "unat (cur_window_packets s) \<le> m" "a mod m = a' mod (m :: nat)"
  shows "a = a'"
proof -
  let ?b = "n - unat (cur_window_packets s)"
  have "a = ?b + (a - ?b)" "a' = ?b + (a' - ?b)" "a - ?b < m" "a' - ?b < m" using assms(1-3) by auto
  then show ?thesis using mod_add_inj [of ?b "a - ?b" m "a' - ?b"] assms(4) by metis
qed

text \<open>Replacing the packet of one slot, and perhaps sending it.\<close>

lemma tx_replace:
  assumes tx: "tx_sock b xs str n s" and w: "window_inv s" and a: "in_window n s a"
    and i: "i mod cb_size (outbuf s) = a mod cb_size (outbuf s)"
    and xs': "xs' = xs \<or> (\<exists>d. xs' = xs @ [(a, d)] \<and> numbered a (str a) d)"
    and v: "tx_slot str (used b xs') (next_nr b xs') a v"
    and s': "outbuf s' = cb_put (outbuf s) i v" "cur_window_packets s' = cur_window_packets s" "seq_nr s' = seq_nr s"
  shows "tx_sock b xs' str n s'"
proof -
  have wf: "cb_wf (outbuf s)" and fit: "unat (cur_window_packets s) \<le> cb_size (outbuf s)"
    using w by (simp_all add: window_inv_def)
  have t: "next_nr b xs \<le> next_nr b xs'" "next_nr b xs' \<le> n" "\<forall>(a, d) \<in> set xs'. numbered a (str a) d"
    "used b xs' \<subseteq> insert a (used b xs)"
    using xs' tx a by (auto simp: tx_sock_def used_def)
  have "tx_slot str (used b xs') (next_nr b xs') a' (cb_get (outbuf s') a')" if "in_window n s a'" for a'
  proof (cases "a' = a")
    case True
    then show ?thesis using v i unfolding s' cb_get_put [OF wf] by simp
  next
    case False
    have "i mod cb_size (outbuf s) \<noteq> a' mod cb_size (outbuf s)"
      using window_inj [OF that a fit] False i by metis
    then have "cb_get (outbuf s') a' = cb_get (outbuf s) a'" unfolding s' cb_get_put [OF wf] by simp
    moreover have "tx_slot str (used b xs) (next_nr b xs) a' (cb_get (outbuf s) a')" using tx that by (simp add: tx_sock_def)
    moreover have "a' \<notin> used b xs'" if "a' \<notin> used b xs" using t(4) that False by blast
    ultimately show ?thesis using t(1) by (auto simp: tx_slot_def split: option.splits if_splits)
  qed
  with tx t show ?thesis by (simp add: tx_sock_def s')
qed

text \<open>Retiring the oldest packet.\<close>

lemma tx_retire:
  assumes tx: "tx_sock b xs str n s" and w: "window_inv s" and pos: "cur_window_packets s > 0"
    and none: "cb_get (outbuf s) (unat (seq_nr s - cur_window_packets s)) = None"
  shows "tx_sock b xs str n (s\<lparr>cur_window_packets := cur_window_packets s - 1\<rparr>)"
proof -
  let ?c = "cur_window_packets s" and ?a = "n - unat (cur_window_packets s)"
  have wf: "cb_wf (outbuf s)" using w by (simp add: window_inv_def)
  have c: "unat (?c - 1) = unat ?c - 1" "0 < unat ?c"
    using pos by (simp_all add: unat_minus_one word_neq_0_conv word_less_nat_alt)
  have "cb_get (outbuf s) ?a = None"
    using tx_index [OF tx cb_size_dvd [OF wf], of 0] cb_get_cong [OF wf] none by (metis add_0_right)
  moreover have "in_window n s ?a" using c tx_room [OF tx] by simp
  ultimately have "?a < next_nr b xs" using tx by (auto simp: tx_sock_def tx_slot_def)
  moreover have "in_window n s a" if "in_window n (s\<lparr>cur_window_packets := ?c - 1\<rparr>) a" for a using that c by auto
  ultimately show ?thesis using tx c by (auto simp: tx_sock_def)
qed

text \<open>Queueing: a new packet takes the next number, and filling up a packet never sent extends its payload.\<close>

lemma tx_append:
  assumes tx: "tx_sock b xs str n s" and w: "window_inv s" and lt: "unat (cur_window_packets s) < 2 ^ 15"
    and p: "numbered n d (pkt_data p)" "pkt_transmissions p = 0"
    and s': "outbuf s' = cb_put (cb_ensure_size (outbuf s) (unat (seq_nr s)) (unat (cur_window_packets s)))
               (unat (seq_nr s)) (Some p)"
      "seq_nr s' = seq_nr s + 1" "cur_window_packets s' = cur_window_packets s + 1"
  shows "tx_sock b xs (str(n := d)) (Suc n) s'"
proof -
  let ?c = "cur_window_packets s" and ?b = "outbuf s"
  let ?e = "cb_ensure_size ?b (unat (seq_nr s)) (unat ?c)" and ?base = "unat (seq_nr s - ?c)"
  have wf: "cb_wf ?b" and fit: "unat ?c \<le> cb_size ?b" using w by (simp_all add: window_inv_def)
  have wfe: "cb_wf ?e" and roome: "unat ?c < cb_size ?e" and mono: "cb_size ?b \<le> cb_size ?e"
    using ring.ensure_wf [OF wf lt] ring.ensure_room [OF wf lt] ring.ensure_mono [OF wf lt] by blast+
  have c1: "unat (?c + 1) = Suc (unat ?c)" using lt by (simp add: unat_word_ariths)
  have item: "(?base + unat ?c) mod 2 ^ 16 = unat (seq_nr s) mod 2 ^ 16"
    using unat_u16_add_mod [of "2 ^ 16" "seq_nr s - ?c" "unat ?c"] by simp
  note ix = tx_index [OF tx cb_size_dvd [OF wf]] tx_index [OF tx cb_size_dvd [OF wfe]]
  note cn = tx_room [OF tx]
  have seq: "unat (seq_nr s) mod cb_size ?e = n mod cb_size ?e"
    using unat_u16_add_mod [OF cb_size_dvd [OF wfe], of "seq_nr s - ?c" "unat ?c"] ix(2) [of "unat ?c"] cn by simp
  have get: "cb_get (outbuf s') a = (if a = n then Some p else cb_get ?b a)" if "in_window (Suc n) s' a" for a
  proof (cases "a = n")
    case True
    then show ?thesis unfolding s'(1) cb_get_put [OF wfe] using seq by simp
  next
    case False
    then have a: "in_window n s a" using that s'(3) c1 by auto
    then obtain j where j: "a = n - unat ?c + j" "j < unat ?c" using cn by (metis add_diff_cancel_left' le_add_diff_inverse
      le_diff_conv less_diff_conv2 less_imp_le_nat nat_add_left_cancel_less)
    have "n mod cb_size ?e \<noteq> a mod cb_size ?e"
      using mod_add_inj [of "n - unat ?c" j "cb_size ?e" "unat ?c"] j roome cn by auto
    then have "cb_get (outbuf s') a = cb_get ?e a" unfolding s'(1) cb_get_put [OF wfe] seq by simp
    also have "\<dots> = cb_get ?e (?base + j)" using ix(2) j(1) by (intro cb_get_cong [OF wfe]) simp
    also have "\<dots> = cb_get ?b (?base + j)"
      using ring.ensure_get [OF wf lt item, of j] j(2) roome fit by simp
    also have "\<dots> = cb_get ?b a" using ix(1) j(1) by (intro cb_get_cong [OF wf]) simp
    finally show ?thesis using False by simp
  qed
  have old: "a \<noteq> n \<Longrightarrow> in_window (Suc n) s' a \<Longrightarrow> in_window n s a" for a using s'(3) c1 by auto
  have sent: "a < n" if "(a, x) \<in> set xs" for a x using next_nr_above [OF that, of b] tx by (simp add: tx_sock_def)
  have "tx_slot (str(n := d)) (used b xs) (next_nr b xs) a (cb_get (outbuf s') a)" if "in_window (Suc n) s' a" for a
  proof (cases "a = n")
    case True
    have "n \<notin> used b xs" using sent tx next_nr_ge [of b xs] by (force simp: used_def tx_sock_def)
    then show ?thesis using get [OF that] True p by (simp add: tx_slot_def)
  next
    case False
    then have "tx_slot str (used b xs) (next_nr b xs) a (cb_get ?b a)" using old that tx by (simp add: tx_sock_def)
    then show ?thesis using get [OF that] False by (simp add: tx_slot_def split: option.splits)
  qed
  moreover have "\<forall>(a, x) \<in> set xs. numbered a ((str(n := d)) a) x" using tx sent by (fastforce simp: tx_sock_def)
  ultimately show ?thesis using tx s' c1 by (auto simp: tx_sock_def)
qed

lemma tx_last:
  assumes tx: "tx_sock b xs str n s" and w: "window_inv s" and pos: "cur_window_packets s > 0"
    and p: "cb_get (outbuf s) (unat (seq_nr s - 1)) = Some p" "pkt_transmissions p = 0"
  shows "unat (seq_nr s - 1) mod cb_size (outbuf s) = (n - 1) mod cb_size (outbuf s)" "in_window n s (n - 1)"
    "numbered (n - 1) (str (n - 1)) (pkt_data p)" "n - 1 \<notin> used b xs"
proof -
  let ?m = "cb_size (outbuf s)"
  have wf: "cb_wf (outbuf s)" using w by (simp add: window_inv_def)
  note cn = tx_room [OF tx]
  have "0 < unat (cur_window_packets s)" using pos by (simp add: word_less_nat_alt)
  then show l: "in_window n s (n - 1)" using cn by auto
  have "seq_nr s - 1 = of_nat (n - 1)" using tx cn by (simp add: tx_sock_def of_nat_diff)
  then show ix: "unat (seq_nr s - 1) mod ?m = (n - 1) mod ?m"
    using mod_mod_cancel [OF cb_size_dvd [OF wf]] by (simp add: unat_of_nat)
  have "tx_slot str (used b xs) (next_nr b xs) (n - 1) (Some p)"
    using tx l cb_get_cong [OF wf ix] p(1) by (auto simp: tx_sock_def)
  then show "numbered (n - 1) (str (n - 1)) (pkt_data p)" "n - 1 \<notin> used b xs" using p(2) by (simp_all add: tx_slot_def)
qed

lemma tx_extend:
  assumes tx: "tx_sock b xs str n s" and w: "window_inv s" and pos: "cur_window_packets s > 0"
    and p: "cb_get (outbuf s) (unat (seq_nr s - 1)) = Some p" "pkt_transmissions p = 0"
    and p': "numbered (n - 1) (str (n - 1) @ d) (pkt_data p')" "pkt_transmissions p' = 0"
    and s': "outbuf s' = cb_put (outbuf s) (unat (seq_nr s - 1)) (Some p')"
      "seq_nr s' = seq_nr s" "cur_window_packets s' = cur_window_packets s"
  shows "tx_sock b xs (str(n - 1 := str (n - 1) @ d)) n s'"
proof -
  let ?b = "outbuf s" and ?m = "cb_size (outbuf s)" and ?str = "str(n - 1 := str (n - 1) @ d)"
  have wf: "cb_wf ?b" and fit: "unat (cur_window_packets s) \<le> ?m" using w by (simp_all add: window_inv_def)
  note last = tx_last [OF tx w pos p]
  have "tx_slot ?str (used b xs) (next_nr b xs) a (cb_get (outbuf s') a)" if a: "in_window n s a" for a
  proof (cases "a = n - 1")
    case True
    then show ?thesis using p' last(4) unfolding s'(1) cb_get_put [OF wf] last(1) by (simp add: tx_slot_def)
  next
    case False
    have "(n - 1) mod ?m \<noteq> a mod ?m" using window_inj [OF last(2) a fit] False by metis
    then have "cb_get (outbuf s') a = cb_get ?b a" unfolding s'(1) cb_get_put [OF wf] last(1) by simp
    moreover have "tx_slot str (used b xs) (next_nr b xs) a (cb_get ?b a)" using tx a by (simp add: tx_sock_def)
    ultimately show ?thesis using False by (simp add: tx_slot_def split: option.splits)
  qed
  moreover have "\<forall>(a, x) \<in> set xs. numbered a (?str a) x" using tx last(4) by (force simp: tx_sock_def used_def)
  moreover have "\<forall>a\<ge>n. ?str a = []" using tx tx_room [OF tx] by (auto simp: tx_sock_def)
  ultimately show ?thesis using tx s' by (simp add: tx_sock_def)
qed

section \<open>The stream as an invariant\<close>

text \<open>What a context has sent since its log had length \<open>k\<close>.\<close>

definition wire :: "nat \<Rightarrow> nat \<Rightarrow> utp_context \<Rightarrow> (nat \<times> bytes) list" where
  "wire b k c = numbering b (drop k (sent_log c))"

text \<open>
  \<open>W\<close> are the bytes written so far: the payloads from number \<open>b\<close> on, in order; \<open>L\<close> is an earlier log. A count of transmissions has 32 bits,
  so all this holds as long as fewer than $2^{32}$ datagrams have left the port.
\<close>

definition carries_stream :: "nat \<Rightarrow> nat \<Rightarrow> (nat \<Rightarrow> bytes) \<Rightarrow> nat \<Rightarrow> bytes \<Rightarrow> eng \<Rightarrow> bool" where
  "carries_stream b k str n W e \<longleftrightarrow> k \<le> sent_count (cx e) \<and> tx_sock b (wire b k (cx e)) str n (sk e)
     \<and> b \<le> n \<and> W = concat (map str [b..<n])"

definition tx_inv :: "nat \<Rightarrow> nat \<Rightarrow> (bytes \<times> socket_addr) list \<Rightarrow> bytes \<Rightarrow> eng \<Rightarrow> bool" where
  "tx_inv b k L W e \<longleftrightarrow> conn_inv e \<and> (\<exists>new. sent_log (cx e) = L @ new)
     \<and> (sent_count (cx e) < 2 ^ 32 \<longrightarrow> (\<exists>str n. carries_stream b k str n W e))"

lemma tx_invI:
  assumes "tx_inv b k L W e" "conn_inv e'" "sent_log (cx e') = sent_log (cx e) @ new"
    and "\<And>str n. conn_inv e \<Longrightarrow> sent_count (cx e') < 2 ^ 32 \<Longrightarrow> carries_stream b k str n W e \<Longrightarrow>
      \<exists>str' n'. carries_stream b k str' n' W' e'"
  shows "tx_inv b k L W' e'"
proof -
  have "sent_count (cx e) \<le> sent_count (cx e')" using assms(3) by (simp add: sent_log_def sent_count_def)
  with assms show ?thesis unfolding tx_inv_def by (metis append.assoc order_le_less_trans)
qed

lemma window_of_conn: "conn_inv e \<Longrightarrow> window_inv (sk e)"
  by (simp add: conn_inv_def flight_inv_def)

text \<open>A step that sends nothing numbered and leaves the window alone.\<close>

lemma wire_acks:
  assumes "acks_sent c c'" "k \<le> sent_count c"
  shows "wire b k c' = wire b k c"
proof -
  obtain new where "sent_log c' = sent_log c @ new" "\<forall>x \<in> set new. hdr_packet_type (fst x) = Some ST_STATE"
    using assms(1) by (auto simp: acks_sent_def)
  then show ?thesis using assms(2) by (simp add: wire_def numbering_append numbering_acks sent_log_def sent_count_def)
qed

text \<open>Sending a packet of the window: the observer of the log gives it the number it has.\<close>

lemma window_number:
  assumes "tx_sock b xs str n s" "window_inv s" "in_window n s a"
  shows "unwrap (next_nr b xs) (of_nat a) = a"
proof (rule unwrap_near)
  have "unat (cur_window_packets s) \<le> 1024" using assms(2) by (auto simp: window_inv_def of_bool_def split: if_splits)
  then show "a < next_nr b xs + 2 ^ 15" "next_nr b xs \<le> a + 2 ^ 15" "2 ^ 15 \<le> next_nr b xs"
    using assms(1,3) next_nr_ge [of b xs] by (auto simp: tx_sock_def)
qed

lemma send_packet_at_wire:
  assumes "cb_get (outbuf (sk e)) (unat q) = Some p"
  obtains p' to where "outbuf (sk (send_packet_at q e)) = cb_put (outbuf (sk e)) (unat q) (Some p')"
    "sent_log (cx (send_packet_at q e)) = sent_log (cx e) @ [(pkt_data p', to)]"
    "pkt_transmissions p' = pkt_transmissions p + 1"
    "\<forall>a d. numbered a d (pkt_data p) \<longrightarrow> numbered a d (pkt_data p')"
proof -
  obtain t e1 where m: "eng_millis (e\<lparr>sk := (sk e)\<lparr>outbuf := cb_put (outbuf (sk e)) (unat q) None\<rparr>\<rparr>) = (t, e1)"
    by fastforce
  obtain time e2 where u: "eng_micros (e1\<lparr>sk := count_transmission p (sk e1)\<rparr>) = (time, e2)" by fastforce
  let ?b = "set_ack_nr (pkt_data p) (ack_nr (count_transmission p (sk e1)))"
  let ?p = "p\<lparr>pkt_need_resend := False, pkt_data := ?b, pkt_time_sent := time\<rparr>"
  let ?e = "e2\<lparr>sk := begin_probe t ?p (sk e2)\<rparr>"
  obtain buf e3 where d: "send_data ?b ?e = (buf, e3)" by fastforce
  let ?p' = "?p\<lparr>pkt_transmissions := pkt_transmissions p + 1, pkt_data := buf\<rparr>"
  have eq: "send_packet_at q e = e3\<lparr>sk := (sk e3)\<lparr>outbuf := cb_put (outbuf (sk e3)) (unat q) (Some ?p')\<rparr>\<rparr>"
    by (simp add: send_packet_at_def assms m u d Let_def)
  have s: "sk e1 = (sk e)\<lparr>outbuf := cb_put (outbuf (sk e)) (unat q) None\<rparr>" "sk e2 = count_transmission p (sk e1)"
    using arg_cong [OF m, of "\<lambda>x. sk (snd x)"] arg_cong [OF u, of "\<lambda>x. sk (snd x)"] by simp_all
  have "sent_log (cx e1) = sent_log (cx e)" "sent_log (cx e2) = sent_log (cx e1)"
    using arg_cong [OF m, of "\<lambda>x. sent_log (cx (snd x))"] arg_cong [OF u, of "\<lambda>x. sent_log (cx (snd x))"]
    by (simp_all add: eng_millis_def eng_micros_def ctx_millis_def ctx_micros_def sent_log_def split_beta)
  then have "sent_log (cx e3) = sent_log (cx e) @ [(buf, key_addr (sock_key (sk ?e)))]"
    using sent_log_send_data [of ?b ?e] d by simp
  moreover have "outbuf (sk e3) = cb_put (outbuf (sk e)) (unat q) None" using sk_send_data [of ?b ?e] d s by simp
  moreover have "numbered a x buf" if "numbered a x (pkt_data p)" for a x
    using numbered_stamps(2) [OF numbered_stamps(1) [OF that], of "ack_nr (count_transmission p (sk e1))" ?e] d by simp
  ultimately show thesis using that [of ?p'] eq by simp
qed

lemma tx_send:
  assumes "conn_inv e" "carries_stream b k str n W e" "sent_count (cx (send_packet_at q e)) < 2 ^ 32"
  shows "carries_stream b k str n W (send_packet_at q e)"
proof (cases "cb_get (outbuf (sk e)) (unat q)")
  case None
  then show ?thesis using assms(2) by (simp add: send_packet_at_def)
next
  case (Some p)
  let ?e = "send_packet_at q e" and ?xs = "wire b k (cx e)"
  have w: "window_inv (sk e)" by (rule window_of_conn [OF assms(1)])
  have tx: "tx_sock b ?xs str n (sk e)" and k: "k \<le> sent_count (cx e)" using assms(2) by (simp_all add: carries_stream_def)
  obtain a where a: "in_window n (sk e) a" "a mod cb_size (outbuf (sk e)) = unat q mod cb_size (outbuf (sk e))"
      "cb_get (outbuf (sk e)) a = Some p" by (rule tx_find [OF tx w Some])
  obtain p' to where p': "outbuf (sk ?e) = cb_put (outbuf (sk e)) (unat q) (Some p')"
      "sent_log (cx ?e) = sent_log (cx e) @ [(pkt_data p', to)]" "pkt_transmissions p' = pkt_transmissions p + 1"
      "\<forall>a d. numbered a d (pkt_data p) \<longrightarrow> numbered a d (pkt_data p')"
    by (rule send_packet_at_wire [OF Some])
  have "tx_slot str (used b ?xs) (next_nr b ?xs) a (Some p)" using tx a(1,3) by (auto simp: tx_sock_def)
  then have d: "numbered a (str a) (pkt_data p')" using p'(4) by (simp add: tx_slot_def)
  have sc: "sent_count (cx ?e) = Suc (sent_count (cx e))"
    using p'(2) by (simp add: sent_count_def sent_log_def)
  have "unat (pkt_transmissions p) \<le> sent_count (cx e)"
    using assms(1,3) Some sc by (auto simp: conn_inv_def flight_inv_def accounted_def)
  then have "unat (pkt_transmissions p') = Suc (unat (pkt_transmissions p))"
    unfolding p'(3) using assms(3) sc by (simp add: unat_word_ariths)
  then have t0: "pkt_transmissions p' \<noteq> 0" by auto
  have "wire b k (cx ?e) = ?xs @ [(a, pkt_data p')]"
    using k d window_number [OF tx w a(1)] unfolding wire_def p'(2)
    by (simp add: numbering_append numbered_def sent_count_def sent_log_def)
  moreover have "tx_sock b (?xs @ [(a, pkt_data p')]) str n (sk ?e)"
    by (rule tx_replace [OF tx w a(1) a(2) [symmetric] _ _ p'(1)])
      (use d t0 in \<open>auto simp: tx_slot_def\<close>)
  ultimately show ?thesis using assms(2) sc by (simp add: carries_stream_def)
qed

text \<open>Acknowledging, and giving a packet up for lost, leave its number and payload alone.\<close>

lemma tx_ack:
  assumes "tx_sock b xs str n (sk e)" "window_inv (sk e)"
  shows "tx_sock b xs str n (sk (snd (ack_packet q e)))"
proof (cases "cb_get (outbuf (sk e)) (unat q)")
  case (Some p)
  show ?thesis
  proof (cases "pkt_transmissions p = 0")
    case False
    obtain a where a: "in_window n (sk e) a" "a mod cb_size (outbuf (sk e)) = unat q mod cb_size (outbuf (sk e))"
        "cb_get (outbuf (sk e)) a = Some p" by (rule tx_find [OF assms Some])
    then have "tx_slot str (used b xs) (next_nr b xs) a (Some p)" using assms(1) by (auto simp: tx_sock_def)
    then have "tx_slot str (used b xs) (next_nr b xs) a None" using False by (simp add: tx_slot_def)
    then show ?thesis
      using Some False ack_packet_frame [of q e]
      by (intro tx_replace [OF assms a(1) a(2) [symmetric], of xs None]) (simp_all add: ack_packet_def split_beta Let_def)
  qed (use Some assms in \<open>simp add: ack_packet_def\<close>)
qed (use assms in \<open>simp add: ack_packet_def\<close>)

lemma tx_mark:
  assumes "tx_sock b xs str n s" "window_inv s"
  shows "tx_sock b xs str n (mark_lost_step i s)"
proof (cases "cb_get (outbuf s) (unat (seq_nr s - of_nat i - 1))")
  case (Some p)
  show ?thesis
  proof (cases "pkt_transmissions p = 0 \<or> pkt_need_resend p")
    case False
    obtain a where a: "in_window n s a" "a mod cb_size (outbuf s) = unat (seq_nr s - of_nat i - 1) mod cb_size (outbuf s)"
        "cb_get (outbuf s) a = Some p" by (rule tx_find [OF assms Some])
    then have "tx_slot str (used b xs) (next_nr b xs) a (Some p)" using assms(1) by (auto simp: tx_sock_def)
    then have "tx_slot str (used b xs) (next_nr b xs) a (Some (p\<lparr>pkt_need_resend := True\<rparr>))" by (simp add: tx_slot_def)
    then show ?thesis
      using Some False
      by (intro tx_replace [OF assms a(1) a(2) [symmetric], of xs]) (simp_all add: mark_lost_step_def Let_def)
  qed (use Some assms in \<open>simp add: mark_lost_step_def Let_def\<close>)
qed (use assms in \<open>simp add: mark_lost_step_def Let_def\<close>)

text \<open>Queueing appends the bytes taken to the stream.\<close>

lemma concat_extend:
  assumes "b \<le> (n :: nat)"
  shows "concat (map (f(n := d)) [b..<Suc n]) = concat (map f [b..<n]) @ d"
  using assms by simp

lemma tx_queue:
  assumes inv: "conn_inv e" and str: "carries_stream b k str n W e" and room: "send_room e" and len: "payload \<le> length data"
    and fl: "fl = ST_DATA \<or> fl = ST_FIN" and st: "write_step ps fl payload data e = (added, data1, e1)"
  shows "\<exists>str' n'. carries_stream b k str' n' (W @ take added data) e1"
proof -
  let ?s = "(sk e)\<lparr>last_rcv_win := get_rcv_window e\<rparr>"
  let ?stamp = "stamp_header fl (ucast (conn_id_send ?s)) (u32_of_usize (get_rcv_window e)) (ack_nr ?s)"
  have w: "window_inv ?s" using window_of_conn [OF inv] by (simp add: window_inv_def)
  have tx: "tx_sock b (wire b k (cx e)) str n ?s" using str by (simp add: carries_stream_def tx_sock_def)
  have lt: "unat (cur_window_packets ?s) < 2 ^ 15" using room by (auto simp: send_room_def of_bool_def split: if_splits)
  have ctx: "cx e1 = cx e" using st by (auto simp: write_step_def Let_def split: option.splits)
  have fl': "fl < 16" "fl \<noteq> ST_STATE" using fl by (auto simp: ST_DATA_def ST_FIN_def ST_STATE_def)
  have bn: "b \<le> n" "W = concat (map str [b..<n])" "seq_nr ?s = of_nat n" and k: "k \<le> sent_count (cx e)"
    using str by (simp_all add: carries_stream_def tx_sock_def)
  show ?thesis
  proof (cases "extend_last ps payload ?s")
    case None
    let ?p = "\<lparr>pkt_payload = payload, pkt_time_sent = 0, pkt_transmissions = 0, pkt_need_resend = False,
        pkt_data = set_seq_nr (?stamp (replicate HEADER_SIZE 0 @ take (min payload (length data)) data)) (seq_nr ?s)\<rparr>"
    have "numbered n (take payload data) (pkt_data ?p)"
      using fl' bn(3) len by (simp add: numbered_def stamp_header_def wire_simps)
    then have "tx_sock b (wire b k (cx e)) (str(n := take payload data)) (Suc n) (sk e1)"
      by (rule tx_append [OF tx w lt]) (use None st in \<open>auto simp: write_step_def Let_def\<close>)
    moreover have "added = payload" using None st by (simp add: write_step_def Let_def)
    ultimately have "carries_stream b k (str(n := take payload data)) (Suc n) (W @ take added data) e1"
      using bn k concat_extend [OF bn(1), of str] by (simp add: carries_stream_def ctx del: upt_Suc)
    then show ?thesis by blast
  next
    case (Some p)
    then have p: "cb_get (outbuf ?s) (unat (seq_nr ?s - 1)) = Some p" "cur_window_packets ?s > 0" "pkt_transmissions p = 0"
      by (auto simp: extend_last_def split: if_splits option.splits)
    define a where "a = min (payload + pkt_payload p) (max ps (pkt_payload p)) - pkt_payload p"
    define p1 where "p1 = p\<lparr>pkt_data := ?stamp (pkt_data p @ take (min a (length data)) data), pkt_payload := pkt_payload p + a\<rparr>"
    have eff: "added = a" "sk e1 = ?s\<lparr>outbuf := cb_put (outbuf ?s) (unat (seq_nr ?s - 1)) (Some p1)\<rparr>"
      using st Some by (auto simp: write_step_def Let_def p1_def a_def)
    note last = tx_last [OF tx w p(2,1,3)]
    have al: "a \<le> length data" using len by (simp add: a_def)
    then have "numbered (n - 1) (str (n - 1) @ take a data) (pkt_data p1)"
      using last(3) fl' numbered_stamp_header [of "pkt_data p @ take a data" "n - 1" fl]
      by (simp add: p1_def numbered_def hdr_seq_append)
    then have "tx_sock b (wire b k (cx e)) (str(n - 1 := str (n - 1) @ take a data)) n (sk e1)"
      by (rule tx_extend [OF tx w p(2,1,3)]) (use p(3) eff(2) in \<open>simp_all add: p1_def\<close>)
    moreover have "W @ take a data = concat (map (str(n - 1 := str (n - 1) @ take a data)) [b..<n])"
    proof -
      have n: "n = Suc (n - 1)" "b \<le> n - 1" using last(2,4) by (auto simp: used_def)
      have "concat (map f [b..<n]) = concat (map f [b..<n - 1]) @ f (n - 1)" for f :: "nat \<Rightarrow> bytes"
        using concat_extend [OF n(2), of f "f (n - 1)"] n(1) by simp
      from this [of str] concat_extend [OF n(2), of str "str (n - 1) @ take a data"] show ?thesis
        using bn(2) n(1) by simp
    qed
    ultimately have "carries_stream b k (str(n - 1 := str (n - 1) @ take a data)) n (W @ take added data) e1"
      using bn k by (simp add: carries_stream_def ctx eff(1))
    then show ?thesis by blast
  qed
qed

section \<open>All operations keep the stream\<close>

lemma tx_inv_moves:
  assumes "tx_inv b k L W e" "conn_inv e'" "acks_sent (cx e) (cx e')"
    and "\<And>xs str n. tx_sock b xs str n (sk e) \<Longrightarrow> window_inv (sk e) \<Longrightarrow> tx_sock b xs str n (sk e')"
  shows "tx_inv b k L W e'"
proof -
  obtain new where new: "sent_log (cx e') = sent_log (cx e) @ new" using assms(3) by (auto simp: acks_sent_def)
  then have sc: "sent_count (cx e) \<le> sent_count (cx e')" by (simp add: sent_log_def sent_count_def)
  show ?thesis
  proof (rule tx_invI [OF assms(1,2) new])
    fix str n assume "conn_inv e" "carries_stream b k str n W e"
    then have "carries_stream b k str n W e'"
      using assms(4) sc window_of_conn wire_acks [OF assms(3)] by (simp add: carries_stream_def)
    then show "\<exists>str' n'. carries_stream b k str' n' W e'" by blast
  qed
qed

lemma tx_inv_quiet:
  assumes "tx_inv b k L W e" "quiet e e'"
  shows "tx_inv b k L W e'"
proof (rule tx_inv_moves [OF assms(1)])
  show "conn_inv e'" using conn.quiet [OF _ assms(2)] assms(1) by (simp add: tx_inv_def)
  have "outbuf (sk e') = outbuf (sk e)" "cur_window_packets (sk e') = cur_window_packets (sk e)" "seq_nr (sk e') = seq_nr (sk e)"
    using assms(2) by (simp_all add: quiet_def core_defs)
  from tx_sock_cong [OF this] show "tx_sock b xs str n (sk e')" if "tx_sock b xs str n (sk e)" for xs str n using that by simp
  show "acks_sent (cx e) (cx e')" using assms(2) by (simp add: quiet_def)
qed

lemma sent_log_send_packet_at: "\<exists>new. sent_log (cx (send_packet_at q e)) = sent_log (cx e) @ new"
proof (cases "cb_get (outbuf (sk e)) (unat q)")
  case (Some p) then show ?thesis using send_packet_at_wire [OF Some] by metis
qed (simp add: send_packet_at_def)

lemma tx_inv_send:
  assumes "tx_inv b k L W e"
  shows "tx_inv b k L W (send_packet_at q e)"
proof -
  obtain new where new: "sent_log (cx (send_packet_at q e)) = sent_log (cx e) @ new" using sent_log_send_packet_at by blast
  show ?thesis
  proof (rule tx_invI [OF assms _ new])
    show "conn_inv (send_packet_at q e)" using conn.send assms by (simp add: tx_inv_def)
    fix str n assume "conn_inv e" "sent_count (cx (send_packet_at q e)) < 2 ^ 32" "carries_stream b k str n W e"
    from tx_send [OF this(1,3,2)] show "\<exists>str' n'. carries_stream b k str' n' W (send_packet_at q e)" by blast
  qed
qed

lemma tx_inv_queue:
  assumes "tx_inv b k L W e" "send_room e" "payload \<le> length data" "fl = ST_DATA \<or> fl = ST_FIN"
    and st: "write_step ps fl payload data e = (added, data1, e1)"
  shows "tx_inv b k L (W @ take added data) e1"
proof (rule tx_invI [OF assms(1), of _ "[]"])
  show "conn_inv e1" using conn_inv_queue [OF _ assms(2,3), of ps fl] assms(1) st by (simp add: tx_inv_def)
  show "sent_log (cx e1) = sent_log (cx e) @ []"
    using st by (auto simp: write_step_def Let_def split: option.splits)
qed (rule tx_queue [OF _ _ assms(2-4) st])

lemma sent_log_moves [simp]:
  "sent_log (cx (snd (ack_packet q e))) = sent_log (cx e)"
  "sent_log (cx (probe_arrived e)) = sent_log (cx e)" "sent_log (cx (probe_lost e)) = sent_log (cx e)"
  "sent_log (cx (user_call f e)) = sent_log (cx e)"
  by (simp_all add: ack_packet_def probe_arrived_def probe_lost_def mtu_search_update_def user_call_def ctx_cell_def
      eng_millis_def eng_micros_def ctx_millis_def ctx_micros_def sent_log_def split_beta Let_def split: option.split)

lemma probe_frame:
  "outbuf (sk (probe_arrived e)) = outbuf (sk e)" "outbuf (sk (probe_lost e)) = outbuf (sk e)"
  "cur_window_packets (sk (probe_arrived e)) = cur_window_packets (sk e)"
  "cur_window_packets (sk (probe_lost e)) = cur_window_packets (sk e)"
  "seq_nr (sk (probe_arrived e)) = seq_nr (sk e)" "seq_nr (sk (probe_lost e)) = seq_nr (sk e)"
  by (simp_all add: probe_arrived_def probe_lost_def mtu_search_update_def mtu_repair_def split_beta Let_def)

interpretation stream_write: write_invariant "tx_inv b k L" for b k L
  by unfold_locales (fact tx_inv_quiet, fact tx_inv_send, rule tx_inv_queue)

lemma tx_inv_conn: "tx_inv b k L W e \<Longrightarrow> conn_inv e"
  by (simp add: tx_inv_def)

interpretation stream: conn_invariant "tx_inv b k L W" for b k L W
proof (unfold_locales, goal_cases)
  case (1 e) show ?case by (rule conn.ring [OF tx_inv_conn [OF 1]])
next
  case (2 e) show ?case by (rule conn.window [OF tx_inv_conn [OF 2]])
next
  case (3 e q) show ?case
    by (rule tx_inv_moves [OF 3 conn.ack [OF tx_inv_conn [OF 3]]]) (simp_all add: acks_sent_same tx_ack)
next
  case (4 e) show ?case
    by (rule tx_inv_moves [OF 4(1) conn.retire [OF tx_inv_conn [OF 4(1)] 4(2,3)]]) (simp_all add: tx_retire 4(2,3))
next
  case (5 e fl ps d)
  obtain added d1 e1 where st: "write_step ps fl 0 d e = (added, d1, e1)" by (metis prod_cases3)
  then have "added = 0" using write_step_le [of ps fl 0 d e] by simp
  then show ?case using tx_inv_queue [OF 5(1,2) _ 5(3) st] st by simp
next
  case (6 e w) show ?case
    by (rule tx_inv_moves [OF 6(1) conn.cwnd [OF tx_inv_conn [OF 6(1)] 6(2)]]) (simp_all add: tx_sock_def)
next
  case (7 e) show ?case
    by (rule tx_inv_moves [OF 7(1) conn.arrived [OF tx_inv_conn [OF 7(1)] 7(2)]])
      (simp_all add: acks_sent_same tx_sock_def probe_frame)
next
  case (8 e) show ?case
    by (rule tx_inv_moves [OF 8(1) conn.lost [OF tx_inv_conn [OF 8(1)] 8(2)]])
      (simp_all add: acks_sent_same tx_sock_def probe_frame)
next
  case (9 e) show ?case
    by (rule tx_inv_moves [OF 9 conn.forget [OF tx_inv_conn [OF 9]]]) (simp_all add: tx_sock_def)
next
  case (10 e i) show ?case
    by (rule tx_inv_moves [OF 10 conn.mark [OF tx_inv_conn [OF 10]]]) (simp_all add: tx_mark)
next
  case (11 e s') show ?case
    by (rule tx_inv_moves [OF 11(1) conn.rx [OF tx_inv_conn [OF 11(1)] 11(2,3)]])
      (use 11(2) in \<open>simp_all add: core_tx_def tx_sock_def\<close>)
next
  case (12 e d) show ?case
    by (rule tx_inv_moves [OF 12 conn.read [OF tx_inv_conn [OF 12]]]) (simp_all add: acks_sent_same)
next
  case (13 e) show ?case
    by (rule tx_inv_moves [OF 13(1) conn.fin [OF tx_inv_conn [OF 13(1)] 13(2)]]) (simp_all add: tx_sock_def)
qed

text \<open>
  A stream starts with no packet in the window, or with packets that have all been sent and carry no payload, such
  as the SYN. Numbers start above $2^{16}$ so that unwrapping never goes below 0.
\<close>

definition first_nr :: "utp_sock \<Rightarrow> nat" where
  "first_nr s = 2 ^ 16 + unat (seq_nr s)"

definition stream_start :: "eng \<Rightarrow> bool" where
  "stream_start e \<longleftrightarrow> conn_inv e \<and> (\<forall>a. in_window (first_nr (sk e)) (sk e) a \<longrightarrow>
     (case cb_get (outbuf (sk e)) a of None \<Rightarrow> True | Some p \<Rightarrow> numbered a [] (pkt_data p) \<and> pkt_transmissions p \<noteq> 0))"

lemma stream_start_inv:
  assumes "stream_start e"
  shows "tx_inv (first_nr (sk e)) (sent_count (cx e)) (sent_log (cx e)) [] e"
proof -
  let ?b = "first_nr (sk e)"
  have "wire ?b (sent_count (cx e)) (cx e) = []" by (simp add: wire_def sent_count_def sent_log_def)
  moreover have "tx_sock ?b [] (\<lambda>_. []) ?b (sk e)"
    using assms by (auto simp: tx_sock_def stream_start_def first_nr_def tx_slot_def split: option.splits)
  ultimately have "carries_stream ?b (sent_count (cx e)) (\<lambda>_. []) ?b [] e" by (simp add: carries_stream_def)
  then show ?thesis using assms by (auto simp: tx_inv_def stream_start_def)
qed

end
