(* ===== verification/Handshake.thy ===== *)
theory Handshake
  imports System Sent_Stream
begin

unbundle bit_operations_syntax

text \<open>
  Two ports connecting to each other. The theory follows the SYN of \<^verbatim>\<open>Context::connect\<close> onto the wire, through
  the dispatch of another port, the answer of that port back, and the dialler's handler, and shows that
  the connection is open at the end with both sides agreed on identifiers and sequence numbers.
\<close>

section \<open>The datagrams of a handshake\<close>

abbreviation last_sent :: "utp_context \<Rightarrow> bytes \<times> socket_addr" where
  "last_sent c \<equiv> last (tr_sent (ctx_transport c))"

text \<open>A bare header of version 1 with the given type, identifier and sequence number.\<close>

definition carries :: "u8 \<Rightarrow> u16 \<Rightarrow> u16 \<Rightarrow> bytes \<Rightarrow> bool" where
  "carries ty cid sq b \<longleftrightarrow> length b = HEADER_SIZE \<and> hdr_version b = Some 1 \<and> hdr_packet_type b = Some ty
     \<and> hdr_ext b = Some 0 \<and> hdr_conn_id b = Some cid \<and> hdr_seq_nr b = Some sq"

lemma carries_stamp:
  "carries ty cid sq b \<Longrightarrow> carries ty cid sq (set_reply_micro (set_tv_usec b v) w)"
  "carries ty cid sq b \<Longrightarrow> carries ty cid sq (set_ack_nr b a)"
  by (simp_all add: carries_def wire_simps)

lemma carries_version: "carries ty cid sq b \<Longrightarrow> ty < ST_NUM_STATES \<Longrightarrow> wire_version b = Some 1"
  by (simp add: carries_def wire_version_def)

lemma carries_syn: "carries ST_SYN (ucast (conn_id_recv s)) (seq_nr s) (syn_packet s)"
  by (simp add: carries_def syn_packet_def wire_simps ST_SYN_def) (simp add: hdr_ext_def HEADER_SIZE_def byte_at_def)

lemma send_data_last:
  "\<exists>v w. last_sent (cx (snd (send_data b e))) = (set_reply_micro (set_tv_usec b v) w, key_addr (sock_key (sk e)))"
  by (auto simp: send_data_def split_beta Let_def send_to_addr_def transport_send_to_def
        ack_list_remove_def user_call_def ctx_cell_def eng_micros_def ctx_micros_def split: option.split)

lemma key_steps:
  "sock_key (count_transmission p s) = sock_key s" "sock_key (begin_probe t p s) = sock_key s"
  using core_id_steps(1) [of p s] core_id_steps(2) [of t p s] by (simp_all add: core_id_def)

lemma send_packet_at_last:
  assumes "cb_get (outbuf (sk e)) (unat q) = Some p" "carries ty cid sq (pkt_data p)"
  shows "\<exists>b. last_sent (cx (send_packet_at q e)) = (b, key_addr (sock_key (sk e))) \<and> carries ty cid sq b"
proof -
  obtain t e1 where m: "eng_millis (e\<lparr>sk := (sk e)\<lparr>outbuf := cb_put (outbuf (sk e)) (unat q) None\<rparr>\<rparr>) = (t, e1)"
    by fastforce
  obtain time e2 where u: "eng_micros (e1\<lparr>sk := count_transmission p (sk e1)\<rparr>) = (time, e2)" by fastforce
  let ?b = "set_ack_nr (pkt_data p) (ack_nr (count_transmission p (sk e1)))"
  let ?e = "e2\<lparr>sk := begin_probe t (p\<lparr>pkt_need_resend := False, pkt_data := ?b, pkt_time_sent := time\<rparr>) (sk e2)\<rparr>"
  obtain buf e3 where d: "send_data ?b ?e = (buf, e3)" by fastforce
  have "cx (send_packet_at q e) = cx (snd (send_data ?b ?e))"
    by (simp add: send_packet_at_def assms(1) m u d Let_def)
  moreover have "sk e1 = (sk e)\<lparr>outbuf := cb_put (outbuf (sk e)) (unat q) None\<rparr>" "sk e2 = count_transmission p (sk e1)"
    using arg_cong [OF m, of "\<lambda>x. sk (snd x)"] arg_cong [OF u, of "\<lambda>x. sk (snd x)"] by simp_all
  then have "sock_key (sk ?e) = sock_key (sk e)" by (simp add: key_steps)
  ultimately show ?thesis using send_data_last [of ?b ?e] carries_stamp assms(2) by metis
qed

section \<open>What the dialler sends and keeps\<close>

lemma ucast_seed: "(seed :: u32) AND 0xffff = seed \<Longrightarrow> ucast (ucast seed :: u16) = seed"
proof -
  assume a: "seed AND 0xffff = seed"
  have "seed AND 0xffff = take_bit 16 seed" by (simp add: take_bit_eq_mask mask_eq_exp_minus_1)
  moreover have "ucast (ucast seed :: u16) = take_bit 16 seed" by (rule bit_word_eqI) (auto simp: bit_simps)
  ultimately show ?thesis using a by simp
qed


lemma start_connect_queued:
  assumes "fresh_sock s"
  obtains q p s1 c1 where "start_connect s c = send_packet_at q \<lparr>sk = s1, cx = c1\<rparr>"
    "cb_wf (outbuf s1)" "cb_get (outbuf s1) (unat q) = Some p" "pkt_transmissions p = 0"
    "carries ST_SYN (ucast (conn_id_recv s)) q (pkt_data p)" "seq_nr s1 = q + 1" "cur_window_packets s1 = 1"
    "sock_state s1 = SynSent" "sock_key s1 = sock_key s" "conn_id_send s1 = conn_id_send s" "opt_sndbuf s1 = opt_sndbuf s"
    "current_delay_samples s1 = current_delay_samples s"
proof -
  obtain now c1 where t: "ctx_millis c = (now, c1)" by (cases "ctx_millis c")
  obtain v c2 where v: "ctx_rand (c1\<lparr>current_ms := now\<rparr>) = (v, c2)" by fastforce
  define s2 where "s2 = s\<lparr>sock_state := SynSent, retransmit_timeout := 3000, rto_timeout := now + 3000,
      last_rcv_win := get_rcv_window \<lparr>sk = s\<lparr>sock_state := SynSent, retransmit_timeout := 3000, rto_timeout := now + 3000\<rparr>,
        cx = c1\<lparr>current_ms := now\<rparr>\<rparr>, seq_nr := ucast v\<rparr>"
  define p where "p = \<lparr>pkt_payload = 0, pkt_time_sent = 0, pkt_transmissions = 0, pkt_need_resend = False,
               pkt_data = syn_packet s2\<rparr>"
  define s3 where "s3 = s2\<lparr>outbuf := cb_put (cb_ensure_size (outbuf s2) (unat (seq_nr s2)) (unat (cur_window_packets s2)))
     (unat (seq_nr s2)) (Some p), seq_nr := seq_nr s2 + 1, cur_window_packets := cur_window_packets s2 + 1\<rparr>"
  have wf: "cb_wf (cb_ensure_size (outbuf s2) (unat (seq_nr s2)) (unat (cur_window_packets s2)))"
    by (rule cb_ensure_size_spec(1)) (use assms in \<open>simp_all add: s2_def fresh_sock_def\<close>)
  show thesis
  proof (rule that [of "ucast v" s3 c2 p])
    show "start_connect s c = send_packet_at (ucast v) \<lparr>sk = s3, cx = c2\<rparr>"
      by (simp add: start_connect_def t v Let_def s3_def p_def s2_def)
    show "cb_wf (outbuf s3)" using wf by (simp add: s3_def)
    show "cb_get (outbuf s3) (unat (ucast v :: u16)) = Some p" using cb_get_put [OF wf] by (simp add: s3_def s2_def)
    show "carries ST_SYN (ucast (conn_id_recv s)) (ucast v) (pkt_data p)" using carries_syn [of s2] by (simp add: p_def s2_def)
  qed (use assms in \<open>simp_all add: s3_def s2_def p_def fresh_sock_def\<close>)
qed

text \<open>The slot of the SYN: it has been sent once, and takes a number of the stream but carries none of its bytes.\<close>

definition syn_slot :: "utp_sock \<Rightarrow> bool" where
  "syn_slot s \<longleftrightarrow> (\<exists>p. cb_get (outbuf s) (unat (seq_nr s - 1)) = Some p \<and> pkt_transmissions p = 1
     \<and> (\<forall>a. of_nat a = seq_nr s - 1 \<longrightarrow> numbered a [] (pkt_data p)))"

lemma carries_numbered: "carries ty cid (of_nat a) b \<Longrightarrow> ty \<noteq> ST_STATE \<Longrightarrow> numbered a [] b"
  by (simp add: carries_def numbered_def)

lemma start_connect_sent:
  assumes "fresh_sock s"
  shows "\<exists>b. last_sent (cx (start_connect s c)) = (b, key_addr (sock_key s))
      \<and> carries ST_SYN (ucast (conn_id_recv s)) (seq_nr (sk (start_connect s c)) - 1) b"
    and "cur_window_packets (sk (start_connect s c)) = 1" "sock_state (sk (start_connect s c)) = SynSent"
    and "conn_id_send (sk (start_connect s c)) = conn_id_send s" "opt_sndbuf (sk (start_connect s c)) = opt_sndbuf s"
    and "current_delay_samples (sk (start_connect s c)) = current_delay_samples s"
    and "syn_slot (sk (start_connect s c))"
proof -
  obtain q p s1 c1 where eq: "start_connect s c = send_packet_at q \<lparr>sk = s1, cx = c1\<rparr>"
    and wf: "cb_wf (outbuf s1)" and g: "cb_get (outbuf s1) (unat q) = Some p" and p: "pkt_transmissions p = 0"
      "carries ST_SYN (ucast (conn_id_recv s)) q (pkt_data p)"
    and s1: "seq_nr s1 = q + 1" "cur_window_packets s1 = 1" "sock_state s1 = SynSent" "sock_key s1 = sock_key s"
      "conn_id_send s1 = conn_id_send s" "opt_sndbuf s1 = opt_sndbuf s" "current_delay_samples s1 = current_delay_samples s"
    using start_connect_queued [OF assms] .
  show "\<exists>b. last_sent (cx (start_connect s c)) = (b, key_addr (sock_key s))
      \<and> carries ST_SYN (ucast (conn_id_recv s)) (seq_nr (sk (start_connect s c)) - 1) b"
    using send_packet_at_last [of "\<lparr>sk = s1, cx = c1\<rparr>", simplified, OF g p(2)] s1(1,4) by (simp add: eq)
  have calm: "calm \<lparr>sk = s1, cx = c1\<rparr> (start_connect s c)" unfolding eq by (rule calm_send)
  show "cur_window_packets (sk (start_connect s c)) = 1" "sock_state (sk (start_connect s c)) = SynSent"
    using s1 by (simp_all add: eq)
  show "conn_id_send (sk (start_connect s c)) = conn_id_send s" "opt_sndbuf (sk (start_connect s c)) = opt_sndbuf s"
    using calm s1 by (simp_all add: calm_def)
  show "current_delay_samples (sk (start_connect s c)) = current_delay_samples s"
    using s1(7) by (simp add: eq send_packet_at_def split_beta Let_def sk_send_data count_transmission_def begin_probe_def
        mtu_reset_def split: option.split)
  obtain p' to where "outbuf (sk (send_packet_at q \<lparr>sk = s1, cx = c1\<rparr>)) = cb_put (outbuf s1) (unat q) (Some p')"
      "pkt_transmissions p' = pkt_transmissions p + 1" "\<forall>a d. numbered a d (pkt_data p) \<longrightarrow> numbered a d (pkt_data p')"
    by (rule send_packet_at_wire [of "\<lparr>sk = s1, cx = c1\<rparr>", simplified, OF g])
  moreover have "numbered a [] (pkt_data p)" if "of_nat a = q" for a
    using carries_numbered p(2) that by (auto simp: ST_SYN_def ST_STATE_def)
  ultimately show "syn_slot (sk (start_connect s c))"
    using p(1) s1(1) cb_get_put [OF wf] by (simp add: syn_slot_def eq)
qed

text \<open>Nothing has arrived yet and nothing is there to be read.\<close>

definition unread :: "utp_sock \<Rightarrow> utp_context \<Rightarrow> bool" where
  "unread s c \<longleftrightarrow> inbuf s = cb_new \<and> reorder_count s = 0 \<and> \<not> read_shutdown s \<and> read_buf (cells c (sock_user s)) = []"

lemma unread_calm: "calm e e' \<Longrightarrow> unread (sk e) (cx e) \<Longrightarrow> unread (sk e') (cx e')"
  by (simp add: unread_def calm_def core_rx_def quiet_ctx_def)

lemma unread_fresh:
  assumes "fresh_sock s" "alloc_cell a c = (sock_user s, c1)" "quiet_ctx c1 c2"
  shows "unread s c2"
proof -
  have "read_buf (cells c1 (sock_user s)) = []" using assms(2) by (auto simp: alloc_cell_def ConnShared_new_def)
  then show ?thesis using assms(1,3) by (simp add: unread_def fresh_sock_def quiet_ctx_def)
qed

lemma dial_spec:
  assumes "ctx_connect a c = Some ((k, u), c')"
  shows "\<exists>s syn. last_sent c' = (syn, a) \<and> carries ST_SYN (ucast (key_recv_id k)) (seq_nr s - 1) syn
    \<and> map_of (sockets c') k = Some s \<and> sock_state s = SynSent \<and> cur_window_packets s = 1 \<and> sock_user s = u
    \<and> conn_id_send s = key_recv_id k + 1 \<and> opt_sndbuf s = ctx_opt_sndbuf c \<and> samples_ok s
    \<and> key_addr k = a \<and> ucast (ucast (key_recv_id k) :: u16) = key_recv_id k \<and> syn_slot s \<and> unread s c'"
  using assms
proof (cases rule: ctx_connect_cases)
  case (1 seed c1 c2 s c3)
  note sent = start_connect_sent [OF 1(8), of c3]
  have s: "conn_id_send s = seed + 1" "opt_sndbuf s = ctx_opt_sndbuf c" "current_delay_samples s = 0"
    using 1(1,3) by (auto simp: init_fields_def split_beta Let_def mtu_reset_def UtpSock_new_def alloc_cell_def)
  have "seed AND 0xffff = seed" using gen_seed_16 [OF 1(2)] by simp
  moreover have "map_of (sockets c') k = Some (sk (start_connect s c3))" by (simp add: 1(5) reinsert_def socks.look_ins)
  moreover have "last_sent c' = last_sent (cx (start_connect s c3))" by (simp add: 1(5) reinsert_def)
  moreover have "sock_user (sk (start_connect s c3)) = u" using 1(9,12) by (simp add: calm_def)
  moreover have "unread s c3" using unread_fresh [OF 1(8) _ 1(13)] 1(1,12) by simp
  then have "unread (sk (start_connect s c3)) c'" using unread_calm [OF 1(9)] by (simp add: unread_def 1(5) reinsert_def)
  ultimately show ?thesis using sent s 1(4,10,11) ucast_seed by (auto simp: samples_ok_def)
qed

section \<open>What the acceptor answers\<close>

lemma hdr_take:
  "hdr_version (take HEADER_SIZE b) = hdr_version b" "hdr_packet_type (take HEADER_SIZE b) = hdr_packet_type b"
  "hdr_ext (take HEADER_SIZE b) = hdr_ext b" "hdr_conn_id (take HEADER_SIZE b) = hdr_conn_id b"
  "hdr_seq_nr (take HEADER_SIZE b) = hdr_seq_nr b" "hdr_ack_nr (take HEADER_SIZE b) = hdr_ack_nr b"
  by (simp_all add: hdr_read_defs byte_at_def HEADER_SIZE_def)

lemma send_ack_last:
  assumes "reorder_count (sk e) = 0"
  shows "\<exists>b. last_sent (cx (send_ack e)) = (b, key_addr (sock_key (sk e)))
    \<and> carries ST_STATE (ucast (conn_id_send (sk e))) (seq_nr (sk e)) b \<and> hdr_ack_nr b = Some (ack_nr (sk e))"
proof -
  let ?e = "e\<lparr>sk := (sk e)\<lparr>last_rcv_win := get_rcv_window e\<rparr>\<rparr>"
  let ?b = "ack_packet_bytes (sk ?e) (get_rcv_window e)"
  have b: "carries ST_STATE (ucast (conn_id_send (sk e))) (seq_nr (sk e)) ?b" "hdr_ack_nr ?b = Some (ack_nr (sk e))"
    using assms
    by (simp_all add: carries_def ack_packet_bytes_def Let_def hdr_take wire_simps ST_STATE_def HEADER_SIZE_def [symmetric])
      (simp_all add: hdr_ext_def byte_at_def HEADER_SIZE_def)
  have "last_sent (cx (send_ack e)) = last_sent (cx (snd (send_data ?b ?e)))"
    by (simp add: send_ack_def Let_def ack_list_remove_def)
  moreover have "hdr_ack_nr (set_reply_micro (set_tv_usec ?b v) w) = hdr_ack_nr ?b" for v w
    using b(1) by (simp add: carries_def wire_simps)
  ultimately show ?thesis using send_data_last [of ?b ?e] carries_stamp(1) [OF b(1)] b(2) by fastforce
qed

lemma accept_spec:
  assumes "HEADER_SIZE \<le> length buf"
  shows "\<exists>c' s synack. accept_syn buf a i sq c = Some (Accepted \<lparr>key_addr = a, key_recv_id = i + 1\<rparr> (next_cell c), c')
    \<and> map_of (sockets c') \<lparr>key_addr = a, key_recv_id = i + 1\<rparr> = Some s \<and> sock_state s = SynRecv \<and> ack_nr s = sq
    \<and> conn_id_send s = i \<and> last_sent c' = (synack, a) \<and> carries ST_STATE (ucast i) (seq_nr s) synack
    \<and> hdr_ack_nr synack = Some sq \<and> cur_window_packets s = 0 \<and> unread s c'"
proof -
  obtain r c' where run: "accept_syn buf a i sq c = Some (r, c')" using accept_syn_total [OF assms] by blast
  then show ?thesis
  proof (cases rule: accept_syn_cases)
    case (1 u c1 s c3 n e)
    obtain e' where "process_incoming buf True \<lparr>sk = s, cx = c3\<rparr> = Some (0, e')" "sock_state (sk e') = SynRecv" "core (sk e') = core s"
        "quiet_ctx c3 (cx e')"
      using process_incoming_syn [OF assms, of "\<lparr>sk = s, cx = c3\<rparr>"] 1(6) by auto
    then have e: "sock_state (sk e) = SynRecv" "core (sk e) = core s" "quiet_ctx c3 (cx e)" using 1(2) by simp_all
    then have f: "reorder_count (sk e) = 0" "ack_nr (sk e) = sq" "conn_id_send (sk e) = i" "cur_window_packets (sk e) = 0"
      "fresh_sock (sk e)"
      using 1(5,7,8) by (simp_all add: core_defs fresh_sock_def)
    obtain b where "last_sent (cx (send_ack e)) = (b, a)" "carries ST_STATE (ucast i) (seq_nr (sk e)) b" "hdr_ack_nr b = Some sq"
      using send_ack_last [OF f(1)] f(2,3) 1(13) by auto
    moreover have "unread (sk e) (cx e)" using unread_fresh [OF f(5)] 1(1,15) quiet_ctx_trans [OF 1(16) e(3)] by blast
    then have "unread (sk (send_ack e)) c'"
      using unread_calm [OF quiet_calm [OF quiet_send_ack]] by (simp add: unread_def 1(4) reinsert_def)
    moreover have "u = next_cell c" using 1(1) by (simp add: alloc_cell_def)
    ultimately show ?thesis using run 1(3,4) e(1) f
      by (intro exI [of _ c'] exI [of _ "sk (send_ack e)"] exI [of _ b]) (simp add: reinsert_def socks.look_ins sk_send_ack)
  qed
qed


section \<open>The dialler is told\<close>

text \<open>The measurements keep the state of the connection and the number of packets in the window.\<close>

definition phase :: "utp_sock \<Rightarrow> _" where
  "phase s = (sock_state s, cur_window_packets s)"

lemma phase_search [simp]: "phase (sk (mtu_search_update e)) = phase (sk e)"
  by (simp add: phase_def mtu_search_update_def mtu_repair_def Let_def split_beta)

lemma phase_dup_ack [simp]: "phase (sk (dup_ack_update fl a e)) = phase (sk e)"
  by (simp add: dup_ack_update_def Let_def) (simp add: phase_def)

lemma phase_measure_acked [simp]: "phase (sk (snd (snd (measure_acked buf a acks sel e)))) = phase (sk e)"
proof -
  have step: "phase (sk (snd (snd (count_acked_step now i st)))) = phase (sk (snd (snd st)))" for now i st
    by (simp add: count_acked_step_def Let_def split_beta split: option.split) (simp add: phase_def)
  have fold: "phase (sk (snd (snd (fold (count_acked_step now) is st)))) = phase (sk (snd (snd st)))" for now "is" st
    by (induction "is" arbitrary: st) (simp_all add: step)
  show ?thesis
    by (simp add: measure_acked_def count_acked_def selective_ack_bytes_def Let_def split_beta fold split: option.split)
qed

lemma phase_core: "core s' = core s \<Longrightarrow> sock_state s' = sock_state s \<Longrightarrow> phase s' = phase s"
  by (simp add: core_defs phase_def)

lemma phase_measure_packet:
  assumes "measure_packet buf time a acks sel (dup_ack_update fl a e) = Some e'"
  shows "phase (sk e') = phase (sk e)"
proof -
  let ?e = "snd (snd (measure_acked buf a acks sel (dup_ack_update fl a e)))"
  from assms obtain n m t s where d: "measure_delay buf time n m t (sk ?e) = Some s" and e': "e' = ?e\<lparr>sk := s\<rparr>"
    by (auto simp: measure_packet_def split_beta)
  from d obtain tv rm s1 where s1: "our_delay_update rm t (their_delay_update time tv t (sk ?e)) = Some s1"
    and s: "s = rtt_shift m s1 \<or> apply_ccontrol t n m (rtt_shift m s1) = Some s"
    by (auto simp: measure_delay_def bind_eq_Some_conv Let_def split: if_splits)
  have "phase (rtt_shift m s1) = phase (sk e)"
    using phase_core [of s1 "sk ?e"] core_our_delay_update [OF s1] phase_core [of "rtt_shift m s1" s1]
    by (simp add: core_delay_updates)
  moreover have "phase s = phase (rtt_shift m s1)" if "apply_ccontrol t n m (rtt_shift m s1) = Some s"
    using apply_ccontrol_core(1,4) [OF that] by (simp add: phase_def core_defs)
  ultimately show ?thesis using s e' by auto
qed

text \<open>Writing keeps the state of the connection, up to marking it full.\<close>

lemma state_is_full [simp]: "sock_state (sk (snd (eng_is_full w e))) = sock_state (sk e)"
  by (simp add: eng_is_full_def split_beta)

lemma state_flush_loop [simp]: "sock_state (sk (snd (flush_loop ps i e))) = sock_state (sk e)"
proof (induction ps i e rule: flush_loop.induct)
  case (1 ps i e)
  obtain b e1 where f: "eng_is_full None e = (b, e1)" by (cases "eng_is_full None e")
  then have "sock_state (sk e1) = sock_state (sk e)" using state_is_full [of None e] by simp
  with 1 f show ?case by (subst flush_loop.simps) (auto split: option.split)
qed

lemma state_write_loop [simp]: "sock_state (sk (snd (write_loop ps fl n d e))) = sock_state (sk e)"
proof (induction ps fl n d e rule: write_loop.induct)
  case (1 ps fl n d e)
  obtain added d1 e1 where st: "write_step ps fl n d e = (added, d1, e1)" by (metis prod_cases3)
  then have "sock_state (sk e1) = sock_state (sk e)" using state_moves(3) [of ps fl n d e] by simp
  then show ?case using 1 st by (subst write_loop.simps) simp
qed

lemma state_write_outgoing_packet [simp]: "sock_state (sk (snd (write_outgoing_packet n fl d e))) = sock_state (sk e)"
  by (simp add: write_outgoing_packet_def flush_packets_def split_beta Let_def)

lemma state_write_engine_loop [simp]: "sock_state (sk (snd (snd (write_engine_loop ps n st r e)))) = sock_state (sk e)"
proof (induction ps n st r e rule: write_engine_loop.induct)
  case (1 ps n st r e)
  obtain full e1 where f: "eng_is_full (Some n) e = (full, e1)" by (cases "eng_is_full (Some n) e")
  obtain r1 e2 where w: "write_outgoing_packet n ST_DATA r e1 = (r1, e2)" by fastforce
  have "sock_state (sk e1) = sock_state (sk e)" "sock_state (sk e2) = sock_state (sk e1)"
    using state_is_full [of "Some n" e] f state_write_outgoing_packet [of n ST_DATA r e1] w by simp_all
  then show ?case using 1 [OF f [symmetric] refl _ w [symmetric] refl refl] f w by (subst write_engine_loop.simps) (auto simp: Let_def)
qed

definition up :: "utp_sock \<Rightarrow> bool" where
  "up s \<longleftrightarrow> sock_state s = Connected \<or> sock_state s = ConnectedFull"

lemma up_state: "sock_state s' = sock_state s \<Longrightarrow> up s' = up s"
  by (simp add: up_def)

lemma up_write_engine: "up (sk e) \<Longrightarrow> up (sk (snd (write_engine buf e)))"
  by (auto simp: write_engine_def up_def Let_def split_beta set_current_ms_def)

lemma state_ack_loop [simp]: "sock_state (sk (ack_loop n e)) = sock_state (sk e)"
proof (induction n arbitrary: e)
  case (Suc n)
  obtain r e1 where a: "ack_packet (seq_nr (sk e) - cur_window_packets (sk e)) e = (r, e1)" by fastforce
  then have "sock_state (sk e1) = sock_state (sk e)"
    using state_moves(2) [of "seq_nr (sk e) - cur_window_packets (sk e)" e] by simp
  then show ?case using Suc a by simp
qed simp

lemma state_shrink_window [simp]: "sock_state (shrink_window s) = sock_state s"
proof (induction s rule: shrink_window.induct)
  case (1 s) then show ?case by (subst shrink_window.simps) simp
qed

lemma up_tail: "up (sk (fast_timeout_retry e)) = up (sk e)" "up (sk (flush_nagle e)) = up (sk e)"
  by (rule up_state; simp add: fast_timeout_retry_def flush_nagle_def Let_def split: option.split)+

lemma up_mark_writable: "up (sk e) \<Longrightarrow> up (sk (mark_writable e))"
  by (auto simp: mark_writable_def up_def split_beta)

lemma told_calm: "calm e e' \<Longrightarrow> got_connect (cells (cx e) u) \<Longrightarrow> got_connect (cells (cx e') u)"
  by (simp add: calm_def quiet_ctx_def signalled_def)

text \<open>The first acknowledgement of the SYN opens the connection and says so in its cell.\<close>

lemma process_acks_opens:
  assumes inv: "conn_inv e" and "sock_state (sk e) = SynSent" "acks \<le> cur_window_packets (sk e)"
  shows "got_connect (cells (cx (process_acks ST_STATE a acks win e)) (sock_user (sk e)))
    \<and> up (sk (process_acks ST_STATE a acks win e))"
proof -
  define e1 where "e1 = e\<lparr>sk := (sk e)\<lparr>max_window_user := unat win,
      zerowindow_time := (if win = 0 then current_ms (cx e) + 15000 else zerowindow_time (sk e))\<rparr>\<rparr>"
  define o1 where "o1 = user_call on_connect (e1\<lparr>sk := (sk e1)\<lparr>sock_state := Connected\<rparr>\<rparr>)"
  define e2 where "e2 = connection_completion ST_STATE acks e1"
  define e3 where "e3 = (if wrapping_compare_less (ucast (fast_resend_seq_nr (sk e2))) (ucast (a + 1)) ACK_NR_MASK
                  then e2\<lparr>sk := (sk e2)\<lparr>fast_resend_seq_nr := a + 1\<rparr>\<rparr> else e2)"
  have i1: "conn_inv e1" unfolding e1_def using inv by (rule conn.upd) (simp_all add: core_defs)
  have e2_eq: "e2 = snd (write_engine [] o1)"
    using assms(2) by (simp add: e2_def connection_completion_def e1_def o1_def ST_STATE_def ST_DATA_def)
  have io: "conn_inv o1 \<and> calm o1 o1" using conn.quiet [OF i1 quiet_opens(2)] by (simp add: o1_def)
  have "got_connect (cells (cx o1) (sock_user (sk e)))"
    by (simp add: o1_def e1_def user_call_def ctx_cell_def callback_defs)
  moreover have I2: "conn_inv e2 \<and> calm o1 e2" unfolding e2_eq by (rule calm.write_nothing_inv [OF io])
  have I3: "conn_inv e3 \<and> calm o1 e3"
    unfolding e3_def using I2 calm.upd [OF I2, of "(sk e2)\<lparr>fast_resend_seq_nr := a + 1\<rparr>"] by (simp add: core_defs)
  have "acks \<le> cur_window_packets (sk e3)"
    using order_trans [OF assms(3)] cwp_connection_completion [of e1 ST_STATE acks] by (simp add: e1_def e2_def e3_def)
  then have I4: "conn_inv (ack_loop (unat acks) e3) \<and> calm o1 (ack_loop (unat acks) e3)"
    by (intro calm.ack_loop_inv [OF I3]) (simp add: word_le_nat_alt)
  let ?e4 = "(ack_loop (unat acks) e3)\<lparr>sk := shrink_window (sk (ack_loop (unat acks) e3))\<rparr>"
  have "conn_inv ?e4 \<and> calm o1 ?e4" by (rule calm.shrink_window_inv) (use I4 in simp)
  then have "calm o1 (fast_timeout_retry (flush_nagle ?e4))"
    using calm.fast_timeout_retry_inv [OF calm.flush_nagle_inv] by blast
  moreover have "up (sk e2)" unfolding e2_eq by (rule up_write_engine) (simp add: o1_def up_def)
  then have "up (sk (fast_timeout_retry (flush_nagle ?e4)))" using up_state [of "sk ?e4" "sk e2"] by (simp add: up_tail e3_def)
  moreover have "process_acks ST_STATE a acks win e = fast_timeout_retry (flush_nagle ?e4)"
    using assms(3) unfolding process_acks_def Let_def e1_def [symmetric] e2_def [symmetric] e3_def [symmetric] by simp
  ultimately show ?thesis using told_calm by metis
qed

lemma synack_opens:
  assumes inv: "conn_inv e" and st: "sock_state (sk e) = SynSent" and w: "cur_window_packets (sk e) = 1"
    and b: "carries ST_STATE cid q buf" "hdr_ack_nr buf = Some (seq_nr (sk e) - 1)"
    and run: "process_incoming buf False e = Some (n, e')"
  shows "got_connect (cells (cx e') (sock_user (sk e))) \<and> up (sk e') \<and> ack_nr (sk e') = q - 1
    \<and> (unread (sk e) (cx e) \<longrightarrow> unread (sk e') (cx e'))"
proof -
  define e2 where "e2 = snd (eng_micros (set_current_ms e))"
  have q2: "quiet e e2" using quiet_trans [OF quiet_set_current_ms quiet_micros] by (simp add: e2_def)
  define e3 where "e3 = e2\<lparr>sk := note_packet q (current_ms (cx e2)) (sk e2)\<rparr>"
  have sk2: "sk e2 = sk e" by (simp add: e2_def set_current_ms_def split_beta Let_def)
  have h: "hdr_seq_nr buf = Some q" "hdr_packet_type buf = Some ST_STATE" "hdr_ext buf = Some 0" "length buf = HEADER_SIZE"
    using b(1) by (simp_all add: carries_def)
  have "\<not> bad_ack ST_STATE (seq_nr (sk e) - 1) (sk e)"
    using bad_ack_iff [of ST_STATE "sk e" "seq_nr (sk e) - 1"] w by (simp add: ST_STATE_def ST_SYN_def)
  moreover have "\<not> ST_STATE \<ge> ST_NUM_STATES" by (simp add: ST_STATE_def ST_NUM_STATES_def)
  moreover obtain time where "eng_micros (set_current_ms e) = (time, e2)" by (metis e2_def prod.collapse)
  ultimately have body: "incoming_body buf ST_STATE q (seq_nr (sk e) - 1) time HEADER_SIZE None e3 = Some (n, e')"
    using run h b(2) sk2 by (simp add: process_incoming_def Let_def parse_extensions_def e3_def)
  have s3: "sk e3 = (sk e)\<lparr>ack_nr := q - 1, last_got_packet := current_ms (cx e2)\<rparr>" by (simp add: e3_def note_packet_def sk2 st)
  have i3: "conn_inv e3" unfolding e3_def by (rule conn.rx [OF conn.quiet [OF inv q2]]) (simp_all add: core_tx_note_packet)
  have acks: "count_acks (seq_nr (sk e) - 1) (sk e3) = 1" by (simp add: count_acks_def s3 w Let_def)
  have sn: "unat (q - ack_nr (sk e3) - 1) = 0" by (simp add: s3)
  from body obtain m win where m: "measure_packet buf time (seq_nr (sk e) - 1) 1 None
      (dup_ack_update ST_STATE (seq_nr (sk e) - 1) e3) = Some m"
    and e': "e' = mark_writable (process_acks ST_STATE (seq_nr (sk e) - 1) 1 win m)"
    using sn acks by (auto simp: incoming_body_def Let_def bind_eq_Some_conv deliver_def REORDER_BUFFER_MAX_SIZE_def)
  have "conn_inv e3 \<and> calm e3 e3" using i3 by simp
  note cm = calm.measure_packet_inv [OF calm.dup_ack_update_inv [OF this] m]
  have ph: "sock_state (sk m) = SynSent" "cur_window_packets (sk m) = 1"
    using phase_measure_packet [OF m] by (simp_all add: phase_def s3 st w)
  have u: "sock_user (sk m) = sock_user (sk e)" using cm by (simp add: calm_def s3)
  note o = process_acks_opens [of m 1 "seq_nr (sk e) - 1" win, unfolded u]
  have opn: "got_connect (cells (cx (process_acks ST_STATE (seq_nr (sk e) - 1) 1 win m)) (sock_user (sk e)))"
      "up (sk (process_acks ST_STATE (seq_nr (sk e) - 1) 1 win m))"
    using o cm ph by simp_all
  have "conn_inv (process_acks ST_STATE (seq_nr (sk e) - 1) 1 win m)" by (rule conn.process_acks_inv) (use cm in blast)
  then have "conn_inv (process_acks ST_STATE (seq_nr (sk e) - 1) 1 win m)
      \<and> calm (process_acks ST_STATE (seq_nr (sk e) - 1) 1 win m) (process_acks ST_STATE (seq_nr (sk e) - 1) 1 win m)" by simp
  from calm.mark_writable_inv [OF this] have "got_connect (cells (cx e') (sock_user (sk e)))"
    unfolding e' using told_calm opn(1) by blast
  moreover have "calm e3 e'" unfolding e' using calm.mark_writable_inv [OF calm.process_acks_inv [OF cm]] by blast
  then have "ack_nr (sk e') = q - 1" "unread (sk e3) (cx e3) \<longrightarrow> unread (sk e') (cx e')"
    using unread_calm by (simp add: calm_def core_rx_def s3, blast)
  moreover have "cx e3 = cx e2" by (simp add: e3_def)
  then have "unread (sk e) (cx e) \<longrightarrow> unread (sk e3) (cx e3)"
    using q2 by (simp add: unread_def s3 quiet_def quiet_ctx_def)
  ultimately show ?thesis using up_mark_writable [OF opn(2)] e' by simp
qed


section \<open>A handshake from end to end\<close>

text \<open>
  The datagram that dialling sends opens a connection at the port that receives it; the answer of that port opens
  the dialler's. \<open>sa0\<close> and \<open>sa\<close> are the dialler's connection before and after the answer, \<open>sb\<close> is the acceptor's.
\<close>

lemma handshake_run:
  assumes "ctx_inv ca" and "ctx_connect b ca = Some ((k, u), ca1)" and "MIN_WINDOW_SIZE \<le> ctx_opt_sndbuf ca"
    and "addr_port a \<noteq> 0" and "addr_port b \<noteq> 0"
    and "map_of (sockets cb) \<lparr>key_addr = a, key_recv_id = key_recv_id k + 1\<rparr> = None" and "length (sockets cb) \<le> 3000"
  obtains syn synack cb1 ca2 sa0 sa sb where "last_sent ca1 = (syn, b)"
    "process_udp syn a None cb = Some (Accepted \<lparr>key_addr = a, key_recv_id = key_recv_id k + 1\<rparr> (next_cell cb), None, cb1)"
    "last_sent cb1 = (synack, a)" "process_udp synack b None ca1 = Some (Handled, None, ca2)"
    "map_of (sockets ca1) k = Some sa0" "map_of (sockets ca2) k = Some sa"
    "map_of (sockets cb1) \<lparr>key_addr = a, key_recv_id = key_recv_id k + 1\<rparr> = Some sb"
    "got_connect (cells ca2 u)" "up sa" "sock_state sb = SynRecv" "ack_nr sb = seq_nr sa0 - 1" "ack_nr sa = seq_nr sb - 1"
    "conn_id_send sa0 = key_recv_id k + 1" "conn_id_send sb = key_recv_id k"
    "cur_window_packets sa0 = 1" "syn_slot sa0" "cur_window_packets sb = 0" "unread sa ca2" "unread sb cb1"
proof -
  obtain s syn where d: "last_sent ca1 = (syn, b)" "carries ST_SYN (ucast (key_recv_id k)) (seq_nr s - 1) syn"
    "map_of (sockets ca1) k = Some s" "sock_state s = SynSent" "cur_window_packets s = 1" "sock_user s = u"
    "conn_id_send s = key_recv_id k + 1" "opt_sndbuf s = ctx_opt_sndbuf ca" "samples_ok s"
    "key_addr k = b" "ucast (ucast (key_recv_id k) :: u16) = key_recv_id k" "syn_slot s" "unread s ca1"
    using dial_spec [OF assms(2)] by blast
  let ?i = "key_recv_id k" and ?kb = "\<lparr>key_addr = a, key_recv_id = key_recv_id k + 1\<rparr>"
  have len: "length syn = HEADER_SIZE" using d(2) by (simp add: carries_def)
  obtain cb1 sb synack where acc: "accept_syn syn a ?i (seq_nr s - 1) cb = Some (Accepted ?kb (next_cell cb), cb1)"
    "map_of (sockets cb1) ?kb = Some sb" "sock_state sb = SynRecv" "ack_nr sb = seq_nr s - 1" "conn_id_send sb = ?i"
    "last_sent cb1 = (synack, a)" "carries ST_STATE (ucast ?i) (seq_nr sb) synack" "hdr_ack_nr synack = Some (seq_nr s - 1)"
    "cur_window_packets sb = 0" "unread sb cb1"
    using accept_spec [of syn a ?i "seq_nr s - 1" cb] len by auto
  have pb: "process_udp syn a None cb = Some (Accepted ?kb (next_cell cb), None, cb1)"
    using d(2,11) acc(1) assms(4,6,7) carries_version [OF d(2)]
    by (simp add: process_udp_def carries_def Let_def firewall_ask_def) (simp add: ST_SYN_def ST_RESET_def ST_NUM_STATES_def firewall_ask_def)
  have inv: "conn_inv (detach k s ca1)" by (rule detach_inv [OF ctx_connect_inv [OF assms(1,2)] d(3)])
  have sk: "sk (detach k s ca1) = s" "unread s (cx (detach k s ca1))" using d(13) by (simp_all add: detach_def unread_def)
  have la: "length synack = HEADER_SIZE" using acc(7) by (simp add: carries_def)
  obtain n e where run: "process_incoming synack False (detach k s ca1) = Some (n, e)"
    using process_incoming_total [OF inv, of synack False] la d(8,9) assms(3) sk by fastforce
  have opn: "got_connect (cells (cx e) u)" "up (sk e)" "ack_nr (sk e) = seq_nr sb - 1" "unread (sk e) (cx e)"
    using synack_opens [OF inv _ _ acc(7) _ run] sk d(4-6) acc(8) by simp_all
  have k: "k = \<lparr>key_addr = b, key_recv_id = ?i\<rparr>" using d(10) by simp
  have pa: "process_udp synack b None ca1 = Some (Handled, None, reinsert k e)"
    using acc(7) d(3,11) run assms(5) carries_version [OF acc(7)] k
    by (simp add: process_udp_def carries_def Let_def handle_packet_def) (simp add: ST_STATE_def ST_SYN_def ST_RESET_def ST_NUM_STATES_def handle_packet_def)
  have "unread (sk e) (reinsert k e)" using opn(4) by (simp add: unread_def reinsert_def)
  then show thesis
    by (intro that [OF d(1) pb acc(6) pa d(3) _ acc(2)])
      (use d(5,7,12) acc(3-5,9,10) opn in \<open>simp_all add: reinsert_def socks.look_ins\<close>)
qed

end
