(* ===== verification/End_To_End.thy ===== *)
theory End_To_End
  imports Sent_Stream Receive
begin

text \<open>
  One direction of a connection, end to end: the engine of the end that writes, a network that keeps every datagram
  ever sent and hands any of them to the other end, in any order and any number of times, and the engine of the end
  that reads. The writer's engine may at any moment do any of its operations, on any incoming datagram whatsoever. The
  log of its context is what this connection sends; other connections of the port are not part of the link.
\<close>

section \<open>The two ends\<close>

text \<open>An operation of the writing end, with the bytes it takes from the user.\<close>

inductive works :: "eng \<Rightarrow> bytes \<Rightarrow> eng \<Rightarrow> bool" where
  works_write: "write_engine buf e = (n, e') \<Longrightarrow> works e (take n buf) e'"
| works_packet: "process_incoming buf syn e = Some (n, e') \<Longrightarrow> works e [] e'"
| works_timer: "works e [] (sock_check_timeouts e)"
| works_drained: "works e [] (read_drained e)"
| works_ack: "works e [] (send_ack e)"
| works_close: "works e [] (close_engine e)"

lemma works_stream: "works e w e' \<Longrightarrow> tx_inv b k L W e \<Longrightarrow> tx_inv b k L (W @ w) e'"
proof (induction rule: works.induct)
  case (works_write buf e n e') then show ?case using stream_write.write_engine_inv(2) by blast
next
  case (works_packet buf syn e n e') then show ?case using stream.process_incoming_inv by auto
next
  case (works_ack e) then show ?case using tx_inv_quiet quiet_send_ack by fastforce
qed (auto intro: stream.sock_check_timeouts_inv stream.read_drained_inv stream.close_engine_inv)

text \<open>What the reading end does besides taking in datagrams: all of it is calm.\<close>

inductive idles :: "eng \<Rightarrow> eng \<Rightarrow> bool" where
  idles_write: "idles e (snd (write_engine buf e))"
| idles_timer: "idles e (sock_check_timeouts e)"
| idles_drained: "idles e (read_drained e)"
| idles_ack: "idles e (send_ack e)"

lemma calm_keep_alive: "calm e (keep_alive e)"
proof -
  let ?e1 = "e\<lparr>sk := (sk e)\<lparr>ack_nr := ack_nr (sk e) - 1\<rparr>\<rparr>"
  have "quiet_ctx (cx ?e1) (cx (send_ack ?e1))" using quiet_send_ack [of ?e1] unfolding quiet_def by blast
  then have "calm e (send_keep_alive e)"
    unfolding send_keep_alive_def Let_def by (intro calmI) (simp_all add: sk_send_ack core_id_def core_rx_def)
  then show ?thesis by (simp add: keep_alive_def)
qed

lemma timeouts_active_calm:
  assumes "conn_inv e"
  shows "calm e (timeouts_active e)"
proof -
  define e1 where "e1 = (if ms_elapsed (current_ms (cx e)) (zerowindow_time (sk e)) \<and> max_window_user (sk e) = 0
                then e\<lparr>sk := (sk e)\<lparr>max_window_user := PACKET_SIZE\<rparr>\<rparr> else e)"
  define r where "r = (if ms_elapsed (current_ms (cx e1)) (rto_timeout (sk e1)) \<and> rto_timeout (sk e1) > 0
                        then rto_expired e1 else (False, e1))"
  have "conn_inv e1 \<and> calm e e1"
    using assms calm.upd [of e e "(sk e)\<lparr>max_window_user := PACKET_SIZE\<rparr>"] by (simp add: e1_def core_defs)
  with calm.rto_expired_inv [of e1 e] have "conn_inv (snd r) \<and> calm e (snd r)" by (simp add: r_def)
  then have "calm e (snd r)" "calm e (mark_writable (snd r))" using calm.mark_writable_inv by blast+
  with calm_trans [OF _ calm_keep_alive] show ?thesis
    unfolding timeouts_active_def Let_def e1_def [symmetric] r_def [symmetric] by (simp add: split_beta)
qed

lemma idles_calm:
  assumes "idles e e'" "conn_inv e"
  shows "conn_inv e' \<and> calm e e'"
  using assms
proof (induction rule: idles.induct)
  case (idles_write e buf) then show ?case by (rule write_engine_calm)
next
  case (idles_timer e)
  define e1 where "e1 = (if sock_state (sk e) \<noteq> Destroy then snd (flush_packets e) else e)"
  have "conn_inv e1 \<and> calm e e1" using calm.flush_packets_inv [of e e] idles_timer by (simp add: e1_def)
  then have "calm e (sock_check_timeouts e)"
    using calm_trans timeouts_active_calm
    unfolding sock_check_timeouts_def Let_def e1_def [symmetric] by (auto split: conn_state.split)
  then show ?case using conn.sock_check_timeouts_inv idles_timer by blast
next
  case (idles_drained e)
  have "quiet e (read_drained e)"
    using quiet_trans [OF quiet_set_current_ms quiet_schedule_ack] by (simp add: read_drained_def Let_def)
  then show ?case using conn.quiet quiet_calm idles_drained by blast
next
  case (idles_ack e) then show ?case using conn.quiet quiet_calm quiet_send_ack by blast
qed

text \<open>The user takes bytes from the front of the read buffer.\<close>

definition take_bytes :: "nat \<Rightarrow> eng \<Rightarrow> eng" where
  "take_bytes m e = user_call (\<lambda>c. c\<lparr>read_buf := drop m (read_buf c)\<rparr>) e"

lemma take_bytes_frame:
  "sk (take_bytes m e) = sk e" "user_read (take_bytes m e) = drop m (user_read e)"
  "conn_inv (take_bytes m e) = conn_inv e"
  by (simp_all add: take_bytes_def user_read_def user_call_def ctx_cell_def conn_inv_def sent_count_def)

section \<open>The link\<close>

record link =
  writer :: eng
  written :: bytes
  reader :: eng
  pos :: nat
  taken :: bytes

text \<open>
  \<open>pos\<close> is the number of the last packet delivered in order: it goes up by what the acknowledgement number goes up
  by. A numbered datagram is delivered within half of the sequence space of it; bare acknowledgements carry no
  bytes of the stream and may come at any time.
\<close>

definition receive :: "bytes \<Rightarrow> link \<Rightarrow> link \<Rightarrow> bool" where
  "receive d l l' \<longleftrightarrow> \<not> got_fin_reached (sk (reader l)) \<and> sock_state (sk (reader l)) \<noteq> SynSent
     \<and> (\<exists>m e'. process_incoming d False (reader l) = Some (m, e')
          \<and> l' = l\<lparr>reader := e', pos := pos l + unat (ack_nr (sk e') - ack_nr (sk (reader l)))\<rparr>)"

inductive link_step :: "nat \<Rightarrow> nat \<Rightarrow> link \<Rightarrow> link \<Rightarrow> bool" for b k where
  link_work: "works (writer l) w e' \<Longrightarrow> link_step b k l (l\<lparr>writer := e', written := written l @ w\<rparr>)"
| link_data: "(a, d) \<in> set (wire b k (cx (writer l))) \<Longrightarrow> a \<le> pos l + 2 ^ 15 \<Longrightarrow> pos l < a + 2 ^ 15 \<Longrightarrow>
    receive d l l' \<Longrightarrow> link_step b k l l'"
| link_ack: "(d, to) \<in> set (sent_log (cx (writer l))) \<Longrightarrow> hdr_packet_type d = Some ST_STATE \<Longrightarrow>
    receive d l l' \<Longrightarrow> link_step b k l l'"
| link_idle: "idles (reader l) e' \<Longrightarrow> link_step b k l (l\<lparr>reader := e'\<rparr>)"
| link_take: "link_step b k l (l\<lparr>reader := take_bytes m (reader l), taken := taken l @ take m (user_read (reader l))\<rparr>)"

definition link_start :: "link \<Rightarrow> bool" where
  "link_start l \<longleftrightarrow> stream_start (writer l) \<and> written l = [] \<and> taken l = [] \<and> user_read (reader l) = []
     \<and> conn_inv (reader l) \<and> inbuf (sk (reader l)) = cb_new \<and> reorder_count (sk (reader l)) = 0
     \<and> \<not> read_shutdown (sk (reader l)) \<and> ack_nr (sk (reader l)) + 1 = seq_nr (sk (writer l))
     \<and> pos l = first_nr (sk (writer l)) - 1"

section \<open>The writing end\<close>

lemma link_writer:
  assumes "link_step b k l l'" "tx_inv b k L (written l) (writer l)"
  shows "tx_inv b k L (written l') (writer l')"
  using assms by (induction rule: link_step.induct) (auto simp: receive_def works_stream)

lemma link_log:
  assumes "link_step b k l l'" "tx_inv b k L (written l) (writer l)"
  shows "\<exists>new. sent_log (cx (writer l')) = sent_log (cx (writer l)) @ new"
proof -
  have "tx_inv b k (sent_log (cx (writer l))) (written l) (writer l)" using assms(2) by (simp add: tx_inv_def)
  from link_writer [OF assms(1) this] show ?thesis by (simp add: tx_inv_def)
qed

lemma wire_grows: "sent_log c' = sent_log c @ new \<Longrightarrow> set (wire b k c) \<subseteq> set (wire b k c')"
  by (simp add: wire_def numbering_append)

section \<open>The reading end\<close>

text \<open>Relative to a stream \<open>str\<close>: what the user has taken and can take are the payloads up to \<open>pos\<close>.\<close>

definition reads :: "(nat \<Rightarrow> bytes) \<Rightarrow> nat \<Rightarrow> link \<Rightarrow> bool" where
  "reads str b l \<longleftrightarrow> conn_inv (reader l) \<and> (got_fin_reached (sk (reader l)) \<or> rx_inv str (pos l) (sk (reader l)))
     \<and> \<not> read_shutdown (sk (reader l)) \<and> 2 ^ 16 \<le> b \<and> b \<le> Suc (pos l)
     \<and> taken l @ user_read (reader l) = concat (map str [b..<Suc (pos l)])"

lemma reads_receive:
  assumes r: "reads str b l" and g: "genuine str (pos l) a (sk (reader l)) d" and "receive d l l'"
  shows "reads str b l'"
proof -
  let ?e = "reader l" and ?n = "pos l"
  obtain i e' where run: "process_incoming d False ?e = Some (i, e')"
    and l': "l' = l\<lparr>reader := e', pos := ?n + unat (ack_nr (sk e') - ack_nr (sk ?e))\<rparr>"
    and st: "\<not> got_fin_reached (sk ?e)" "sock_state (sk ?e) \<noteq> SynSent"
    using assms(3) by (auto simp: receive_def)
  have inv: "conn_inv ?e" "rx_inv str ?n (sk ?e)" "\<not> read_shutdown (sk ?e)" and b: "2 ^ 16 \<le> b" "b \<le> Suc ?n"
    and seen: "taken l @ user_read ?e = concat (map str [b..<Suc ?n])"
    using r st by (simp_all add: reads_def)
  obtain m where m: "rx_step str ?n m ?e e'" "m \<le> ?n + 2048" using process_incoming_rx [OF inv(1,2) st g run] by blast
  then have pos: "pos l' = m"
    using rx_inv_ack [OF inv(2)] by (simp add: rx_step_def ack_advance l')
  have nm: "?n \<le> m" using m(1) by (simp add: rx_step_def)
  then have "[b..<Suc m] = [b..<Suc ?n] @ [Suc ?n..<Suc m]" using b(2) upt_add_eq_append [of b "Suc ?n" "m - ?n"] by simp
  then have "taken l @ user_read e' = concat (map str [b..<Suc m])"
    using m(1) inv(3) seen by (simp add: rx_step_def delivered_def flip: append_assoc)
  then show ?thesis
    using m(1) inv b nm pos conn.process_incoming_inv [OF inv(1) run] by (simp add: reads_def rx_step_def l')
qed

lemma reads_calm:
  assumes "reads str b l" "conn_inv e'" "calm (reader l) e'"
  shows "reads str b (l\<lparr>reader := e'\<rparr>)"
  using assms user_read_cong [of e' "reader l"] by (auto simp: reads_def calm_def core_rx_def rx_inv_def rx_count_def)

text \<open>Numbered datagrams and bare acknowledgements are genuine.\<close>

lemma numbered_genuine:
  assumes "numbered a (str a) d" "a \<le> n + 2 ^ 15" "n < a + 2 ^ 15"
  shows "genuine str n a s d"
  using assms by (auto simp: genuine_def numbered_def parse_extensions_def split: if_splits)

lemma near_number: "2 ^ 16 \<le> Suc n \<Longrightarrow> \<exists>a. (of_nat a :: u16) = q \<and> a \<le> n + 2 ^ 15 \<and> n < a + 2 ^ 15"
proof -
  assume n: "2 ^ 16 \<le> Suc n"
  let ?r = "unat (q - of_nat n)"
  have r: "?r < 2 ^ 16" using unat_bound [of "q - of_nat n"] by simp
  have q: "of_nat (n + ?r) = q" by simp
  show ?thesis
  proof (cases "?r \<le> 2 ^ 15")
    case True
    then show ?thesis using q by (intro exI [of _ "n + ?r"]) auto
  next
    case False
    have "of_nat (n + ?r - 2 ^ 16) = (of_nat (n + ?r) - of_nat (2 ^ 16) :: u16)"
      using n r False by (intro of_nat_diff) simp
    moreover have "(of_nat (2 ^ 16) :: u16) = 0" by simp
    ultimately have "of_nat (n + ?r - 2 ^ 16) = q" using q by simp
    then show ?thesis using n r False by (intro exI [of _ "n + ?r - 2 ^ 16"]) auto
  qed
qed

lemma ack_genuine:
  assumes "process_incoming d False e = Some (i, e')" "hdr_packet_type d = Some ST_STATE" "2 ^ 16 \<le> Suc n"
  shows "\<exists>a. genuine str n a s d"
proof -
  obtain q where "hdr_seq_nr d = Some q" using assms(1) by (auto simp: process_incoming_def Let_def bind_eq_Some_conv)
  then show ?thesis using near_number [OF assms(3), of q] assms(2) by (auto simp: genuine_def)
qed

lemma link_reader:
  assumes "link_step b k l l'" "reads str b l" and w: "\<forall>(a, d) \<in> set (wire b k (cx (writer l))). numbered a (str a) d"
  shows "reads str b l'"
  using assms(1,2) w
proof (induction rule: link_step.induct)
  case (link_work l u e') then show ?case by (simp add: reads_def)
next
  case (link_data a d l l') then show ?case using reads_receive numbered_genuine by blast
next
  case (link_ack d to l l')
  moreover have "2 ^ 16 \<le> Suc (pos l)" using link_ack(4) by (simp add: reads_def)
  moreover obtain i e' where "process_incoming d False (reader l) = Some (i, e')" using link_ack(3) by (auto simp: receive_def)
  ultimately show ?case using ack_genuine reads_receive by blast
next
  case (link_idle l e') then show ?case using idles_calm reads_calm by (metis reads_def)
next
  case (link_take l m) then show ?case by (simp add: reads_def take_bytes_frame)
qed

section \<open>An idle link\<close>

text \<open>On an idle connection a write that fits one packet leaves at once, under the next number.\<close>

lemma idle_write_sends:
  assumes inv: "conn_inv e" and e: "sock_state (sk e) = Connected" "\<not> fin_sent (sk e)" "cur_window_packets (sk e) = 0"
    and buf: "0 < length buf" "length buf \<le> get_packet_size (sk e)"
    and room: "cur_window (sk e) + get_packet_size (sk e) \<le> max_send (sk e)" and n: "seq_nr (sk e) = of_nat n"
  shows "\<exists>e' d to. write_engine buf e = (length buf, e') \<and> sent_log (cx e') = sent_log (cx e) @ [(d, to)] \<and> numbered n buf d"
proof -
  let ?ps = "get_packet_size (sk e)" and ?k = "length buf"
  define e1 where "e1 = set_current_ms e"
  have q1: "sk e1 = sk e" "sent_log (cx e1) = sent_log (cx e)"
    by (simp_all add: e1_def set_current_ms_def eng_millis_def ctx_millis_def sent_log_def split_beta Let_def)
  have full: "\<not> fst (eng_is_full w x)" "snd (eng_is_full w x) = x"
    if "get_packet_size (sk x) = ?ps" "max_send (sk x) = max_send (sk e)" "cur_window (sk x) = cur_window (sk e)"
      "unat (cur_window_packets (sk x)) \<le> 1" for w x
    using that room by (auto simp: eng_is_full_def is_full_def Let_def split_beta OUTGOING_BUFFER_MAX_SIZE_def split: option.splits)
  define e2 where "e2 = e1\<lparr>sk := (sk e1)\<lparr>retransmit_timeout := rto (sk e1), rto_timeout := current_ms (cx e1) + ucast (rto (sk e1))\<rparr>\<rparr>"
  obtain added rest e3 where st: "write_step ?ps ST_DATA ?k buf e2 = (added, rest, e3)" by (metis prod_cases3)
  let ?q = "seq_nr (sk e)"
  have c2: "conn_inv e2" unfolding e2_def e1_def by (rule conn.upd [OF conn.quiet [OF inv quiet_set_current_ms]]) (simp_all add: core_defs)
  have "added = ?k" and cx3: "cx e3 = cx e1" and
    sk3: "seq_nr (sk e3) = ?q + 1" "cur_window_packets (sk e3) = 1" "cur_window (sk e3) = cur_window (sk e)"
      "get_packet_size (sk e3) = ?ps" "max_send (sk e3) = max_send (sk e)"
    using st e(3) q1 by (auto simp: write_step_def Let_def e2_def extend_last_def get_packet_size_def max_send_def)
  have wf: "cb_wf (outbuf (sk e2))" by (rule conn.ring [OF c2])
  have "cb_wf (cb_ensure_size (outbuf (sk e2)) (unat ?q) 0)" using ring.ensure_wf [OF wf, of 0] by simp
  then obtain p where p: "cb_get (outbuf (sk e3)) (unat ?q) = Some p" "pkt_transmissions p = 0" "numbered n buf (pkt_data p)"
    using st e(3) q1 n
    by (auto simp: write_step_def Let_def e2_def extend_last_def cb_get_put numbered_def stamp_header_def wire_simps
        ST_DATA_def ST_STATE_def)
  have w: "write_outgoing_packet ?k ST_DATA buf e1 = ([], send_packet_at ?q e3)"
  proof -
    have "get_packet_size (sk e2) = ?ps" by (simp add: e2_def q1 get_packet_size_def)
    then have l: "write_loop (get_packet_size (sk e2)) ST_DATA ?k buf e2 = ([], e3)"
      using st \<open>added = ?k\<close> write_step_rest [of ?ps ST_DATA ?k buf e2] by (subst write_loop.simps) simp
    have "flush_loop ?ps (?q + 1) (send_packet_at ?q e3) = (False, send_packet_at ?q e3)"
      using sk3(1) by (subst flush_loop.simps) simp
    moreover have "eng_is_full None e3 = (False, e3)" using full [of e3 None] sk3 by (simp add: prod_eq_iff)
    ultimately have "flush_loop ?ps ?q e3 = (False, send_packet_at ?q e3)"
      using p sk3 by (subst flush_loop.simps) simp
    then have "snd (flush_packets e3) = send_packet_at ?q e3" using sk3 by (simp add: flush_packets_def)
    then show ?thesis using l e(3) q1 unfolding write_outgoing_packet_def Let_def by (simp add: e2_def)
  qed
  have "eng_is_full (Some ?k) e1 = (False, e1)" using full [of e1 "Some ?k"] q1 e(3) by (simp add: prod_eq_iff)
  then have "write_engine_loop ?ps ?k 0 buf e1 = (?k, True, send_packet_at ?q e3)"
    using w by (subst write_engine_loop.simps) (simp add: Let_def)
  then have we: "write_engine buf e = (?k, send_packet_at ?q e3)"
    using e(1,2) buf(2) q1 by (simp add: write_engine_def Let_def flip: e1_def)
  obtain p' to where "outbuf (sk (send_packet_at ?q e3)) = cb_put (outbuf (sk e3)) (unat ?q) (Some p')"
      "sent_log (cx (send_packet_at ?q e3)) = sent_log (cx e3) @ [(pkt_data p', to)]"
      "pkt_transmissions p' = pkt_transmissions p + 1"
      "\<forall>a d. numbered a d (pkt_data p) \<longrightarrow> numbered a d (pkt_data p')" by (rule send_packet_at_wire [OF p(1)])
  with we p(3) q1 cx3 show ?thesis by simp
qed

text \<open>Two idle connections that agree on the first number; one writes two bytes and the other receives what it sent.\<close>

definition still_link :: link where
  "still_link = \<lparr>writer = still_eng, written = [], reader = still_eng, pos = 2 ^ 16, taken = []\<rparr>"

lemma still_fields:
  "sock_state (sk still_eng) = Connected" "\<not> fin_sent (sk still_eng)" "\<not> got_fin_reached (sk still_eng)"
  "cur_window_packets (sk still_eng) = 0" "cur_window (sk still_eng) = 0" "seq_nr (sk still_eng) = 1" "ack_nr (sk still_eng) = 0"
  "inbuf (sk still_eng) = cb_new" "reorder_count (sk still_eng) = 0" "\<not> read_shutdown (sk still_eng)" "user_read still_eng = []"
  "2 \<le> get_packet_size (sk still_eng)" "get_packet_size (sk still_eng) \<le> max_send (sk still_eng)" "sent_log (cx still_eng) = []"
  by (simp_all add: still_defs Let_def get_packet_size_def max_send_def HEADER_SIZE_def DEFAULT_BUF_def usize_sub_def
      PACKET_SIZE_def user_read_def ConnShared_new_def sent_log_def)

lemma still_link_start: "link_start still_link"
  using still_conn_inv by (auto simp: link_start_def still_link_def stream_start_def first_nr_def still_fields)

section \<open>Property\<close>

abbreviation link_wire :: "link \<Rightarrow> link \<Rightarrow> (nat \<times> bytes) list" where
  "link_wire l0 l \<equiv> wire (first_nr (sk (writer l0))) (sent_count (cx (writer l0))) (cx (writer l))"

abbreviation link_runs :: "link \<Rightarrow> link \<Rightarrow> bool" where
  "link_runs l0 l \<equiv> (link_step (first_nr (sk (writer l0))) (sent_count (cx (writer l0))))\<^sup>*\<^sup>* l0 l"

lemma link_runs_writer:
  assumes "link_start l0" "link_runs l0 l"
  shows "\<exists>L. tx_inv (first_nr (sk (writer l0))) (sent_count (cx (writer l0))) L (written l) (writer l)"
  using assms(2)
proof (induction rule: rtranclp_induct)
  case base
  show ?case using stream_start_inv [of "writer l0"] assms(1) by (auto simp: link_start_def)
next
  case (step l l') then show ?case using link_writer by blast
qed

lemma link_runs_reader:
  assumes "link_start l0" "link_runs l0 l"
    and "\<forall>(a, d) \<in> set (link_wire l0 l). numbered a (str a) d"
  shows "reads str (first_nr (sk (writer l0))) l"
  using assms(2,3)
proof (induction rule: rtranclp_induct)
  case base
  let ?s = "sk (reader l0)" and ?b = "first_nr (sk (writer l0))"
  have st: "inbuf ?s = cb_new" "reorder_count ?s = 0" "ack_nr ?s = seq_nr (sk (writer l0)) - 1" "pos l0 = ?b - 1"
    using assms(1) by (auto simp: link_start_def algebra_simps)
  have "ack_nr ?s = of_nat (pos l0)" unfolding st(3,4) by (simp add: first_nr_def of_nat_diff)
  then have "rx_inv str (pos l0) ?s" using st(1,2) by (simp add: rx_inv_def rx_window_def rx_count_def ring_total_def occupied_def)
  then show ?case using assms(1) by (simp add: reads_def link_start_def first_nr_def)
next
  case (step l l')
  obtain L where "tx_inv (first_nr (sk (writer l0))) (sent_count (cx (writer l0))) L (written l) (writer l)"
    using link_runs_writer [OF assms(1) step(1)] by blast
  then obtain new where "sent_log (cx (writer l')) = sent_log (cx (writer l)) @ new" using link_log [OF step(2)] by blast
  from wire_grows [OF this] step(4)
  have w: "\<forall>(a, d) \<in> set (link_wire l0 l). numbered a (str a) d"
    by blast
  show ?case by (rule link_reader [OF step(2) step(3) [OF w] w])
qed

text \<open>At any moment there is one cut of what was written into payloads that both ends agree on.\<close>

lemma link_runs_cut:
  assumes "link_start l0" "link_runs l0 l" "sent_count (cx (writer l)) < 2 ^ 32"
  obtains str n where "carries_stream (first_nr (sk (writer l0))) (sent_count (cx (writer l0))) str n (written l) (writer l)"
    "reads str (first_nr (sk (writer l0))) l"
proof -
  obtain L where "tx_inv (first_nr (sk (writer l0))) (sent_count (cx (writer l0))) L (written l) (writer l)"
    using link_runs_writer [OF assms(1,2)] by blast
  then obtain str n where s: "carries_stream (first_nr (sk (writer l0))) (sent_count (cx (writer l0))) str n (written l) (writer l)"
    using assms(3) by (auto simp: tx_inv_def)
  then have "\<forall>(a, d) \<in> set (link_wire l0 l). numbered a (str a) d" by (simp add: carries_stream_def tx_sock_def)
  from that [OF s link_runs_reader [OF assms(1,2) this]] show thesis .
qed

lemma cut_prefix:
  assumes "carries_stream b k str n (written l) (writer l)" "reads str b l"
  shows "\<exists>rest. written l = taken l @ user_read (reader l) @ rest \<and> (n \<le> Suc (pos l) \<longrightarrow> rest = [])"
proof -
  have w: "\<forall>a\<ge>n. str a = []" "written l = concat (map str [b..<n])" "b \<le> n"
    using assms(1) by (simp_all add: carries_stream_def tx_sock_def)
  have r: "taken l @ user_read (reader l) = concat (map str [b..<Suc (pos l)])" "b \<le> Suc (pos l)"
    using assms(2) by (simp_all add: reads_def)
  define m where "m = min n (Suc (pos l))"
  have "[b..<Suc (pos l)] = [b..<m] @ [m..<Suc (pos l)]" "[b..<n] = [b..<m] @ [m..<n]"
    using r(2) w(3) upt_add_eq_append [of b m "Suc (pos l) - m"] upt_add_eq_append [of b m "n - m"] by (simp_all add: m_def)
  moreover have "concat (map str [m..<Suc (pos l)]) = []" using w(1) by (auto simp: m_def)
  ultimately have "written l = (taken l @ user_read (reader l)) @ concat (map str [m..<n])" using r(1) w(2) by simp
  moreover have "n \<le> Suc (pos l) \<longrightarrow> concat (map str [m..<n]) = []" by (simp add: m_def)
  ultimately show ?thesis by simp
qed

text \<open>C1. What one end reads is what the other end wrote. Whatever the network loses, repeats, delays or reorders, and
  whatever datagrams, genuine or forged, the writing end receives, the bytes the reading end hands to its user are a
  prefix of the bytes the writing end accepted from its user; and once the packets up to the last one queued have been
  delivered, they are all of them. There is one cut of the stream into payloads, numbered from the first packet on, and
  every datagram the writer ever sent under a number, retransmissions included, carries the payload of that number. A
  numbered datagram must arrive within half of the sequence space of the reader's position and before the reader has
  reached the end of the stream, and fewer than $2^{32}$ datagrams may have left the writer's port.\<close>

theorem stream_end_to_end:
  assumes "link_start l0" and "link_runs l0 l" and "sent_count (cx (writer l)) < 2 ^ 32"
  shows "\<exists>str n rest. written l = concat (map str [first_nr (sk (writer l0))..<n])
    \<and> (\<forall>(a, d) \<in> set (link_wire l0 l). numbered a (str a) d) \<and> seq_nr (sk (writer l)) = of_nat n
    \<and> next_nr (first_nr (sk (writer l0))) (link_wire l0 l) \<le> n
    \<and> n \<le> next_nr (first_nr (sk (writer l0))) (link_wire l0 l) + unat (cur_window_packets (sk (writer l)))
    \<and> written l = taken l @ user_read (reader l) @ rest \<and> (n \<le> Suc (pos l) \<longrightarrow> rest = [])"
proof -
  obtain str n where s: "carries_stream (first_nr (sk (writer l0))) (sent_count (cx (writer l0))) str n (written l) (writer l)"
    "reads str (first_nr (sk (writer l0))) l" using link_runs_cut [OF assms] by blast
  obtain rest where "written l = taken l @ user_read (reader l) @ rest \<and> (n \<le> Suc (pos l) \<longrightarrow> rest = [])"
    using cut_prefix [OF s] by blast
  then show ?thesis
    using s(1) unfolding carries_stream_def tx_sock_def by (intro exI [of _ str] exI [of _ n] exI [of _ rest]) simp
qed

theorem stream_end_to_end_witness:
  "\<exists>l l' str n rest. link_runs still_link l' \<and> written l' = [104, 105] \<and> (\<exists>d. receive d l l' \<and> numbered 65537 [104, 105] d)
    \<and> written l' = concat (map str [65537..<n]) \<and> [104, 105] = taken l' @ user_read (reader l') @ rest
    \<and> (n \<le> Suc (pos l') \<longrightarrow> rest = [])"
proof -
  let ?b = "first_nr (sk (writer still_link))" and ?k = "sent_count (cx (writer still_link))"
  have b: "?b = 65537" "?k = 0" using still_fields(14) by (simp_all add: still_link_def first_nr_def still_fields sent_count_def sent_log_def)
  obtain e' d to where e': "write_engine [104, 105] still_eng = (2, e')" "sent_log (cx e') = [(d, to)]" "numbered 65537 [104, 105] d"
    using idle_write_sends [OF still_conn_inv still_fields(1,2,4), of "[104, 105]" 65537] still_fields by auto
  define l where "l = still_link\<lparr>writer := e', written := [104, 105]\<rparr>"
  have s1: "link_step ?b ?k still_link l"
    using link_work [of still_link "[104, 105]" e' ?b ?k] works_write [OF e'(1)] by (simp add: still_link_def l_def)
  have "HEADER_SIZE \<le> length d" using e'(3) by (simp add: numbered_def)
  then obtain m e2 where run: "process_incoming d False still_eng = Some (m, e2)"
    using process_incoming_total [OF still_conn_inv _ still_limits, of d False] by auto
  define l' where "l' = l\<lparr>reader := e2, pos := pos l + unat (ack_nr (sk e2) - ack_nr (sk (reader l)))\<rparr>"
  have r: "receive d l l'" using run by (simp add: receive_def l'_def l_def still_link_def still_fields)
  have "unwrap 65537 (of_nat 65537) = 65537" by (rule unwrap_near) simp_all
  then have "wire ?b ?k (cx (writer l)) = [(65537, d)]"
    using e'(2,3) unfolding b by (simp add: wire_def l_def numbered_def)
  then have s2: "link_step ?b ?k l l'" by (intro link_data [where a = 65537, OF _ _ _ r]) (simp_all add: l_def still_link_def)
  have run2: "link_runs still_link l'" using s1 s2 by (meson r_into_rtranclp rtranclp.rtrancl_into_rtrancl)
  moreover have "sent_count (cx (writer l')) < 2 ^ 32" using e'(2) by (simp add: l'_def l_def sent_count_def sent_log_def)
  ultimately obtain str n rest where "written l' = concat (map str [65537..<n])"
      "written l' = taken l' @ user_read (reader l') @ rest" "n \<le> Suc (pos l') \<longrightarrow> rest = []"
    using stream_end_to_end [OF still_link_start] unfolding b by blast
  moreover have "written l' = [104, 105]" by (simp add: l'_def l_def)
  ultimately show ?thesis using run2 r e'(3) by metis
qed

end
