(* ===== verification/Session.thy ===== *)
theory Session
  imports Handshake End_To_End
begin

text \<open>
  From the handshake to the streams. The connections that a handshake leaves at the two ports are the two ends of a
  link in both directions: the SYN takes one number of the dialler's stream and carries no byte, the acceptor starts
  from an empty window, and neither side has anything to read. Every later run of such a link therefore delivers a
  prefix of what was written.
\<close>

section \<open>Fresh links\<close>

definition fresh_link :: "eng \<Rightarrow> eng \<Rightarrow> link" where
  "fresh_link w r = \<lparr>writer = w, written = [], reader = r, pos = first_nr (sk w) - 1, taken = []\<rparr>"

text \<open>Two engines that start a link, and what the link then delivers for as long as it runs.\<close>

definition carries_bytes :: "eng \<Rightarrow> eng \<Rightarrow> bool" where
  "carries_bytes w r \<longleftrightarrow> link_start (fresh_link w r)
     \<and> (\<forall>l. link_runs (fresh_link w r) l \<and> sent_count (cx (writer l)) < 2 ^ 32 \<longrightarrow>
          (\<exists>rest. written l = taken l @ user_read (reader l) @ rest))"

lemma carries_bytesI:
  assumes "stream_start w" "conn_inv r" "unread (sk r) (cx r)" "ack_nr (sk r) = seq_nr (sk w) - 1"
  shows "carries_bytes w r"
proof -
  have start: "link_start (fresh_link w r)"
    using assms by (simp add: link_start_def fresh_link_def unread_def user_read_def)
  have "\<exists>rest. written l = taken l @ user_read (reader l) @ rest"
    if run: "link_runs (fresh_link w r) l" "sent_count (cx (writer l)) < 2 ^ 32" for l
  proof -
    obtain str n where "carries_stream (first_nr (sk (writer (fresh_link w r)))) (sent_count (cx (writer (fresh_link w r)))) str n
        (written l) (writer l)" "reads str (first_nr (sk (writer (fresh_link w r)))) l"
      by (rule link_runs_cut [OF start run])
    from cut_prefix [OF this] show ?thesis by blast
  qed
  with start show ?thesis by (simp add: carries_bytes_def)
qed

lemma detach_simps [simp]: "sk (detach k s c) = s" "unread s (cx (detach k s c)) = unread s c"
  by (simp_all add: detach_def unread_def)

lemma stream_start_empty: "conn_inv e \<Longrightarrow> cur_window_packets (sk e) = 0 \<Longrightarrow> stream_start e"
  by (auto simp: stream_start_def)

lemma stream_start_syn:
  assumes inv: "conn_inv e" and "cur_window_packets (sk e) = 1" "syn_slot (sk e)"
  shows "stream_start e"
proof -
  let ?a = "first_nr (sk e) - 1" and ?o = "outbuf (sk e)"
  obtain p where p: "cb_get ?o (unat (seq_nr (sk e) - 1)) = Some p" "pkt_transmissions p = 1"
    and d: "\<And>a. of_nat a = seq_nr (sk e) - 1 \<Longrightarrow> numbered a [] (pkt_data p)"
    using assms(3) by (auto simp: syn_slot_def)
  have nr: "of_nat ?a = seq_nr (sk e) - 1" by (simp add: first_nr_def of_nat_diff)
  have wf: "cb_wf ?o" by (rule conn.ring [OF inv])
  have "unat (of_nat ?a :: u16) mod cb_size ?o = ?a mod cb_size ?o"
    using mod_mod_cancel [OF cb_size_dvd [OF wf]] by (simp add: unat_of_nat)
  then have "cb_get ?o ?a = Some p" using cb_get_cong [OF wf] p(1) nr by metis
  moreover have "a = ?a" if "in_window (first_nr (sk e)) (sk e) a" for a using that assms(2) by auto
  ultimately show ?thesis unfolding stream_start_def using inv p(2) d [OF nr] by force
qed

section \<open>Property\<close>



end
