(* ===== verification/Spec2Isabelle.thy ===== *)
theory Spec2Isabelle
  imports Socket_Calls Session
begin

text \<open>
  Verification of rust-utp, a Rust implementation of the Micro Transport Protocol (uTP, LEDBAT over UDP).

  \<^bold>\<open>The program.\<close> One UDP port carries many connections. \<^verbatim>\<open>Socket\<close> and \<^verbatim>\<open>Conn\<close> (\<^verbatim>\<open>src/socket.rs\<close>) are the blocking
  interface: one mutex guards the whole port, a reader thread feeds datagrams to the engine and drives its timers,
  and condition variables wake blocked calls. \<^verbatim>\<open>Context\<close> (\<^verbatim>\<open>src/engine.rs\<close>) is the table of connections: it
  dispatches datagrams, dials, accepts, answers strays with resets, sweeps the timers. \<^verbatim>\<open>UtpSock\<close> (\<^verbatim>\<open>src/engine.rs\<close>)
  is one connection: packetiser, retransmission, acknowledgement, congestion control, path MTU search, reordering.
  It calls back into \<^verbatim>\<open>ConnShared\<close> (\<^verbatim>\<open>src/conn_shared.rs\<close>), the cell it shares with the user's handle, and sends
  through \<^verbatim>\<open>Transport\<close> (\<^verbatim>\<open>src/transport.rs\<close>). Below are the packet header (\<^verbatim>\<open>src/packet.rs\<close>), the ring of packets
  (\<^verbatim>\<open>src/circular.rs\<close>), the delay history (\<^verbatim>\<open>src/delay_hist.rs\<close>), the clock and the generator and comparison of
  \<^verbatim>\<open>src/util.rs\<close>.

  \<^bold>\<open>Conventions.\<close>
  \<^item> A fixed-width unsigned integer is a word and wraps, as in a release build; \<^verbatim>\<open>usize\<close> is \<open>nat\<close>, its subtraction
    \<open>usize_sub\<close>; the signed fields are \<open>int\<close> with the casts written out (\<open>as_i32\<close>, \<open>as_i64\<close>).
  \<^item> A panic (an index out of range, a division by zero, a clamp with crossed bounds, an assertion) is \<^const>\<open>None\<close>.
  \<^item> \<^verbatim>\<open>f64\<close> arithmetic is rational arithmetic rounded to 53 bits after each operation (\<open>Float64\<close>); overflow and
    subnormals are left out, which the values of the congestion controller never reach.
  \<^item> The clock is the sequence of its readings, the transport the outcome of each send with a log of what was
    sent, the firewall a function with state, the operating system's socket and resolver their outcomes: all are
    parameters of the model, and every theorem holds for all of them.
  \<^item> The \<^verbatim>\<open>HashMap\<close> of connections is an association list, so that the order of a sweep is some order; user cells live
    in a store addressed by \<open>cell_id\<close>, because the engine and the handles share them.
  \<^item> A condition variable is the number of its \<^verbatim>\<open>notify_all\<close> calls. A blocking call is its critical section, a
    function that is ready or blocked (\<open>..._poll\<close>), under the relation \<open>awaits\<close>, in which other threads run while it
    waits. Threads interleave as sequences of critical sections (\<open>sys_step\<close>); \<open>sys_reachable\<close> are the states of a
    port after any such sequence.

  \<^bold>\<open>Theories and sources.\<close>
  \<^item> \<open>Prelude\<close>: word types, casts, error kinds. \<open>Environment\<close>: addresses, clock (\<^verbatim>\<open>clock.rs\<close>), the transport trait.
    \<open>Udp_Transport\<close>: \<^verbatim>\<open>UdpTransport\<close>. \<open>Util\<close>: \<^verbatim>\<open>wrapping_compare_less\<close>, \<^verbatim>\<open>Rng\<close>. \<open>Packet\<close>: the header. \<open>Circular\<close>: the
    ring. \<open>Delay_Hist\<close>: base delay and delay samples. \<open>Conn_Shared\<close>: the user cell.
  \<^item> \<open>Engine_State\<close>, \<open>Engine_Mtu\<close>, \<open>Engine_Send\<close>, \<open>Engine_Ack\<close>, \<open>Engine_Incoming\<close>, \<open>Engine_Timeouts\<close>: \<^verbatim>\<open>UtpSock\<close>, in
    the order of the source. A record \<open>eng\<close> is a connection together with the context it was taken out of. The long
    \<^verbatim>\<open>process_incoming\<close> is one definition per block. \<open>Engine_Context\<close>: \<^verbatim>\<open>Context\<close>.
  \<^item> \<open>Socket_Api\<close>: the critical sections of \<^verbatim>\<open>Socket\<close>, \<^verbatim>\<open>Conn\<close> and the reader, and \<open>sys_step\<close>. \<open>Socket_Calls\<close>: the
    public calls as a whole.

  \<^bold>\<open>Interfaces.\<close> The locale of \<open>Circular\<close> gives the ring to its clients as a window of slots. \<open>Engine_Invariant\<close> states
  once what it takes to be an invariant of a connection: \<open>flush_invariant\<close>, \<open>write_invariant\<close>, \<open>send_invariant\<close> and
  \<open>conn_invariant\<close> have the primitive moves of the engine as laws and prove that every operation keeps the invariant.
  They are interpreted on \<open>conn_inv\<close> (\<open>Flight\<close>: window, bytes in flight, congestion window, MTU), on \<open>calm\<close> (\<open>Calm\<close>: what
  leaves the receiving side alone), on the bytes waiting in the window (\<open>Send_Queue\<close>), on the stream on the wire
  (\<open>Sent_Stream\<close>) and on \<open>kept\<close> (\<open>Context_Invariant\<close>: what leaves the rest of the port alone). \<open>keyed_table\<close> is the table of
  connections, \<open>blocking_call\<close> the contract of the critical sections; the calls of the interface interpret it.

  \<^bold>\<open>What is proved.\<close>
  \<^item> Data structures: the ring refines a list; the header round trips; the sequence comparison is an order on half
    of the space; the generator reaches every value; the reported delay ignores clock offsets and is bounded.
  \<^item> \<open>Flight\<close>, \<open>System\<close>: the count of bytes in flight is exact and the windows are bounded in every reachable
    state. \<open>Congestion\<close>: growth per acknowledgement is bounded, none above the target, loss halves. \<open>Engine_Mtu\<close>: the
    MTU search ends with the right answer.
  \<^item> \<open>Receive\<close>: the user reads the peer's packets in order, once each; \<open>Send_Queue\<close>: a write queues a prefix of its
    data; \<open>Sent_Stream\<close>, \<open>End_To_End\<close>: what one end reads is a prefix of what the other wrote, over a network that loses,
    repeats and reorders; \<open>Sack\<close>: selective acknowledgements are read as they were written; \<open>No_Panic\<close>: the handler
    returns on every datagram with a whole header.
  \<^item> \<open>Context_Behaviour\<close>, \<open>Handshake\<close>: dialling, accepting, resets, sweeps, tear-down; a SYN and its answer open
    both ends; \<open>Session\<close>: the connections this leaves at the two ports are a stream in both directions.
  \<^item> \<open>Port_Moves\<close>, \<open>Wakeup\<close>, \<open>Socket_Calls\<close>: no wake-up is lost, blocked calls end when the port closes or the deadline
    passes, a failed dial does not deadlock.

  \<^bold>\<open>Bounds.\<close> Loops of the source that count are \<open>fun\<close> or \<open>function\<close> with a measure. The one loop that may run
  forever, the search for a connection identifier, is a \<open>partial_function\<close>, and is shown to end when a
  free identifier exists. Transmission counters have 32 bits, so exact statements assume that fewer than
  $2^{32}$ datagrams have left the port; the delay averages assume fewer than $2^{31} - 1$ samples in a slot; sequence
  numbers have 16 bits, so a datagram must arrive within half of that space of the receiver's position.

  \<^bold>\<open>Not modelled.\<close> The \<^verbatim>\<open>Debug\<close> implementations, the debug print of the congestion controller, the starting of
  the reader thread and the system calls themselves (their outcomes are parameters), the documentation in \<^verbatim>\<open>lib.rs\<close>, the
  throughput example and the tests, which are I/O over real sockets. \<^verbatim>\<open>Instant\<close> cannot be computed: deadlines are natural
  numbers, and the panic of an \<^verbatim>\<open>Instant\<close> addition that overflows is left out. A poisoned mutex (after a panic of another
  thread) is left out: a section that panics has no successor state.
\<close>

end
